(* ===== verification/Prelude.thy ===== *)
theory Prelude
  imports Main "HOL-Library.Word" "HOL-Library.Monad_Syntax"
begin

text \<open>
  What every component of the development shares.

  \<^item> The machine integers of the C code (LP64, the target of the kernel module and of the
    server): \<open>uint8_t\<close>, \<open>uint32_t\<close>, \<open>size_t\<close> and the signed \<open>int\<close>, \<open>ssize_t\<close>,
    \<open>loff_t\<close>, \<open>long\<close> are words of their width. Unsigned comparison is the order of the
    word type; a signed one is written with \<open>sint\<close>.
  \<^item> The heap: a map from block addresses to the bytes of the block. A pointer is \<open>None\<close>
    (\<open>NULL\<close>) or the address of a block; \<open>p + i\<close> is the pair of the block and the offset.
  \<^item> Undefined behaviour. A definition that models code that touches memory returns an
    \<open>option\<close>: \<open>None\<close> is a null dereference, an access outside a block, a use after free,
    a double free, or an unlock of a mutex that is not held. Error codes the C functions return
    are ordinary values.
  \<^item> Generic lemmas on options, lists, words and maps.
\<close>

named_theorems heap_simps \<open>evaluation of heap operations on allocated blocks\<close>

named_theorems unat_simps \<open>words read as natural numbers, where nothing overflows\<close>

type_synonym byte = "8 word"

type_synonym uint8_t = "8 word"

type_synonym uint32_t = "32 word"

type_synonym c_int = "32 word"

type_synonym size_t = "64 word"

type_synonym ssize_t = "64 word"

type_synonym loff_t = "64 word"

type_synonym c_long = "64 word"

type_synonym addr = nat

type_synonym ptr = "addr option"

type_synonym heap = "addr \<rightharpoonup> byte list"

abbreviation NULL :: ptr where
  "NULL \<equiv> None"

text \<open>The byte of the character \<open>'\n'\<close>.\<close>

abbreviation (input) newline :: byte where
  "newline \<equiv> 10"

section \<open>Memory\<close>

text \<open>The \<open>n\<close> bytes at offset \<open>i\<close> of block \<open>a\<close>; the whole range lies in the block.\<close>

definition load_bytes :: "heap \<Rightarrow> addr \<Rightarrow> nat \<Rightarrow> nat \<Rightarrow> byte list option" where
  "load_bytes h a i n =
     do { bs \<leftarrow> h a;
          if i + n \<le> length bs then Some (take n (drop i bs)) else None }"

definition load_byte :: "heap \<Rightarrow> addr \<Rightarrow> nat \<Rightarrow> byte option" where
  "load_byte h a i = do { bs \<leftarrow> h a; if i < length bs then Some (bs ! i) else None }"

definition store_bytes :: "heap \<Rightarrow> addr \<Rightarrow> nat \<Rightarrow> byte list \<Rightarrow> heap option" where
  "store_bytes h a i cs =
     do { bs \<leftarrow> h a;
          if i + length cs \<le> length bs
          then Some (h(a \<mapsto> take i bs @ cs @ drop (i + length cs) bs)) else None }"

text \<open>\<open>memcpy(dst, src, n)\<close> between the starts of two blocks.\<close>

definition memcpy :: "heap \<Rightarrow> addr \<Rightarrow> addr \<Rightarrow> nat \<Rightarrow> heap option" where
  "memcpy h dst src n = do { cs \<leftarrow> load_bytes h src 0 n; store_bytes h dst 0 cs }"

text \<open>
  Releasing a block (\<open>kfree\<close>, \<open>free\<close>): a null pointer is ignored, and the block must be
  allocated.
\<close>

definition free_block :: "heap \<Rightarrow> ptr \<Rightarrow> heap option" where
  "free_block h p =
     (case p of None \<Rightarrow> Some h
      | Some a \<Rightarrow> (if h a = None then None else Some (h(a := None))))"

lemma load_bytes_Some [heap_simps]:
  "h a = Some bs \<Longrightarrow> i + n \<le> length bs \<Longrightarrow> load_bytes h a i n = Some (take n (drop i bs))"
  by (simp add: load_bytes_def)

lemma load_byte_Some [heap_simps]:
  "h a = Some bs \<Longrightarrow> i < length bs \<Longrightarrow> load_byte h a i = Some (bs ! i)"
  by (simp add: load_byte_def)

lemma load_byte_out_of_bounds:
  "h a = Some bs \<Longrightarrow> length bs \<le> i \<Longrightarrow> load_byte h a i = None"
  by (simp add: load_byte_def)

lemma store_bytes_Some [heap_simps]:
  "h a = Some bs \<Longrightarrow> i + length cs \<le> length bs \<Longrightarrow>
   store_bytes h a i cs = Some (h(a \<mapsto> take i bs @ cs @ drop (i + length cs) bs))"
  by (simp add: store_bytes_def)

lemma memcpy_Some [heap_simps]:
  "h src = Some bs \<Longrightarrow> n \<le> length bs \<Longrightarrow> h dst = Some ds \<Longrightarrow> n \<le> length ds \<Longrightarrow>
   memcpy h dst src n = Some (h(dst \<mapsto> take n bs @ drop n ds))"
  by (simp add: memcpy_def heap_simps)

lemma free_block_NULL [simp]: "free_block h NULL = Some h"
  by (simp add: free_block_def)

lemma free_block_Some [heap_simps]:
  "h a = Some bs \<Longrightarrow> free_block h (Some a) = Some (h(a := None))"
  by (simp add: free_block_def)

section \<open>Lists\<close>

text \<open>The last \<open>n\<close> elements of a list.\<close>

definition keep_last :: "nat \<Rightarrow> 'a list \<Rightarrow> 'a list" where
  "keep_last n xs = drop (length xs - n) xs"

lemma keep_last_short [simp]: "length xs \<le> n \<Longrightarrow> keep_last n xs = xs"
  by (simp add: keep_last_def)

lemma length_keep_last: "length (keep_last n xs) = min n (length xs)"
  by (simp add: keep_last_def)

lemma keep_last_map: "keep_last n (map f xs) = map f (keep_last n xs)"
  by (simp add: keep_last_def drop_map)

lemma set_keep_last: "set (keep_last n xs) \<subseteq> set xs"
  by (simp add: keep_last_def set_drop_subset)

lemma keep_last_snoc_full: "length xs = n \<Longrightarrow> 0 < n \<Longrightarrow> keep_last n (xs @ [x]) = tl xs @ [x]"
  by (cases xs) (simp_all add: keep_last_def)

lemma keep_last_append: "keep_last n (keep_last n xs @ ys) = keep_last n (xs @ ys)"
  by (cases "n \<le> length xs") (auto simp: keep_last_def add.commute)

text \<open>The concatenation of a list of blocks, cut at a block boundary.\<close>

lemma drop_concat:
  "k \<le> length xss \<Longrightarrow> drop (length (concat (take k xss))) (concat xss) = concat (drop k xss)"
  by (metis append_eq_conv_conj append_take_drop_id concat_append)

lemma take_length_take_append: "take (length (take n xs)) (xs @ ys) = take n xs"
  by (simp add: min_def)

lemma sum_list_lengths: "sum_list (map length xss) = length (concat xss)"
  by (simp add: length_concat)

lemma distinct_map_other:
  "distinct (map f (us @ e # vs)) \<Longrightarrow> x \<in> set (us @ vs) \<Longrightarrow> f x \<noteq> f e"
  by (metis distinct_append distinct.simps(2) Un_iff in_set_conv_decomp list.simps(9) map_append
      not_distinct_conv_prefix set_append image_eqI list.set_map disjoint_iff list.set_intros(1))

lemma sorted_wrt_distinct: "sorted_wrt (\<lambda>x y. f x \<noteq> f y) xs \<Longrightarrow> distinct (map f xs)"
  by (induction xs) auto

section \<open>Options\<close>

text \<open>A loop over a list whose body may have undefined behaviour.\<close>

primrec fold_option :: "('a \<Rightarrow> 's \<Rightarrow> 's option) \<Rightarrow> 'a list \<Rightarrow> 's \<Rightarrow> 's option" where
  "fold_option f [] s = Some s"
| "fold_option f (x # xs) s = do { s' \<leftarrow> f x s; fold_option f xs s' }"

lemma fold_option_append:
  "fold_option f (xs @ ys) s = do { s' \<leftarrow> fold_option f xs s; fold_option f ys s' }"
  by (induction xs arbitrary: s) (auto split: bind_split)

section \<open>Words\<close>

lemma unat_bound: "unat (w :: 'a::len word) < 2 ^ LENGTH('a)"
  by (rule unsigned_less)

lemma unat_plus_small [unat_simps]:
  "unat a + unat b < 2 ^ LENGTH('a) \<Longrightarrow> unat (a + b :: 'a::len word) = unat a + unat b"
  by (simp add: unat_word_ariths)

lemma unat_minus_le [unat_simps]:
  "b \<le> a \<Longrightarrow> unat (a - b :: 'a::len word) = unat a - unat b"
  by (simp add: unat_sub)

lemma unat_ucast_up [unat_simps]:
  "LENGTH('a) \<le> LENGTH('b) \<Longrightarrow> unat (ucast (a :: 'a::len word) :: 'b::len word) = unat a"
proof -
  assume "LENGTH('a) \<le> LENGTH('b)"
  then have "unat a < 2 ^ LENGTH('b)"
    by (meson less_le_trans one_le_numeral power_increasing unsigned_less)
  then show ?thesis by (simp add: unsigned_ucast_eq take_bit_nat_eq_self)
qed

lemma unat_of_nat_small [unat_simps]:
  "n < 2 ^ LENGTH('a) \<Longrightarrow> unat (of_nat n :: 'a::len word) = n"
  by (simp add: unat_of_nat take_bit_nat_eq_self)

lemma sint_small:
  assumes "unat (w :: 64 word) < 2 ^ 63"
  shows "sint w = int (unat w)"
proof -
  have "int (unat w) < int (2 ^ 63)" using assms by (simp only: of_nat_less_iff)
  then have "uint w < 2 ^ 63" by simp
  then have "signed_take_bit 63 (uint w) = uint w"
    by (intro signed_take_bit_int_eq_self) (auto intro: order_trans [of _ 0])
  then show ?thesis by (simp add: sint_uint)
qed

lemma sint_plus_small:
  assumes "- (2 ^ 63) \<le> sint a + sint b" and "sint a + sint b < 2 ^ 63"
  shows "sint (a + b :: 64 word) = sint a + sint b"
  using assms by (simp add: sint_word_ariths signed_take_bit_int_eq_self)

text \<open>A count below \<open>2 ^ 31\<close> survives the way through an \<open>int\<close>.\<close>

lemma scast_ucast_small:
  assumes "unat (left :: size_t) < 2 ^ 31"
  shows "(scast (ucast left :: c_int) :: ssize_t) = left"
proof -
  have "int (unat left) < int (2 ^ 31)" using assms by (simp only: of_nat_less_iff)
  then have "uint left < 2 ^ 31" by simp
  then have "signed_take_bit 31 (uint left) = uint left"
    by (intro signed_take_bit_int_eq_self) (auto intro: order_trans [of _ 0])
  then have "sint (ucast left :: c_int) = uint left" by (simp add: signed_ucast_eq)
  then show ?thesis by (metis of_int_sint scast_eq word_of_int_uint)
qed

lemma ucast_of_nat_int: "(ucast (of_nat n :: 64 word) :: 32 word) = of_nat n"
  by (rule bit_word_eqI) (simp add: bit_simps)

lemma scast_of_nat_small:
  assumes "n < 2 ^ 31"
  shows "(scast (of_nat n :: c_int) :: 64 word) = of_nat n"
  using scast_ucast_small [of "of_nat n"] assms by (simp add: ucast_of_nat_int unat_of_nat_small)

lemma sint_int_of_nat:
  assumes "n < 2 ^ 31"
  shows "sint (of_nat n :: c_int) = int n"
proof -
  have "sint (of_nat n :: c_int) = signed_take_bit 31 (int n)"
    by (simp add: signed_of_nat)
  with assms show ?thesis by (simp add: signed_take_bit_int_eq_self)
qed

end
