(* ===== verification/C_String.thy ===== *)
theory C_String
  imports Prelude
begin

text \<open>
  The functions of the C library that the server applies to character arrays: \<open>memchr\<close>,
  \<open>strchr\<close>, \<open>strncpy\<close> and \<open>atoi\<close>. An array is the list of its bytes and a pointer into it an
  index. A result \<open>None\<close> is undefined behaviour: a read or a write past the end of the array, or
  a number that \<open>atoi\<close> cannot represent.
\<close>

section \<open>Definitions\<close>

text \<open>\<open>memchr(s, c, n)\<close>: the index of the first \<open>c\<close> among the first \<open>n\<close> bytes.\<close>

fun memchr :: "byte list \<Rightarrow> byte \<Rightarrow> nat \<Rightarrow> nat option option" where
  "memchr s c 0 = Some None"
| "memchr [] c (Suc n) = None"
| "memchr (b # s) c (Suc n) =
     (if b = c then Some (Some 0) else map_option (map_option Suc) (memchr s c n))"

text \<open>The search of \<open>strchr\<close>, which stops at the terminating zero byte.\<close>

fun strchr_from :: "byte list \<Rightarrow> byte \<Rightarrow> nat option option" where
  "strchr_from [] c = None"
| "strchr_from (b # s) c =
     (if b = c then Some (Some 0) else if b = 0 then Some None
      else map_option (map_option Suc) (strchr_from s c))"

definition strchr :: "byte list \<Rightarrow> nat \<Rightarrow> byte \<Rightarrow> nat option option" where
  "strchr s i c = map_option (map_option (\<lambda>j. i + j)) (strchr_from (drop i s) c)"

text \<open>The \<open>n\<close> bytes \<open>strncpy\<close> writes: the string up to its end, then zero bytes.\<close>

fun strncpy_bytes :: "byte list \<Rightarrow> nat \<Rightarrow> byte list option" where
  "strncpy_bytes s 0 = Some []"
| "strncpy_bytes [] (Suc n) = None"
| "strncpy_bytes (b # s) (Suc n) =
     (if b = 0 then Some (replicate (Suc n) 0) else map_option ((#) b) (strncpy_bytes s n))"

definition strncpy :: "byte list \<Rightarrow> byte list \<Rightarrow> nat \<Rightarrow> byte list option" where
  "strncpy dst src n =
     do { bs \<leftarrow> strncpy_bytes src n;
          if n \<le> length dst then Some (bs @ drop n dst) else None }"

definition isspace :: "byte \<Rightarrow> bool" where
  "isspace b \<longleftrightarrow> b = 32 \<or> (9 \<le> b \<and> b \<le> 13)"

definition isdigit :: "byte \<Rightarrow> bool" where
  "isdigit b \<longleftrightarrow> 48 \<le> b \<and> b \<le> 57"

fun skip_spaces :: "byte list \<Rightarrow> byte list option" where
  "skip_spaces [] = None"
| "skip_spaces (b # s) = (if isspace b then skip_spaces s else Some (b # s))"

fun atoi_digits :: "byte list \<Rightarrow> nat \<Rightarrow> nat option" where
  "atoi_digits [] acc = None"
| "atoi_digits (b # s) acc =
     (if isdigit b then atoi_digits s (10 * acc + (unat b - 48)) else Some acc)"

definition atoi :: "byte list \<Rightarrow> c_int option" where
  "atoi s =
     do { s1 \<leftarrow> skip_spaces s;
          let neg = (hd s1 = 45);
          n \<leftarrow> atoi_digits (if hd s1 = 45 \<or> hd s1 = 43 then tl s1 else s1) 0;
          let v = (if neg then - int n else int n);
          if - (2 ^ 31) \<le> v \<and> v < 2 ^ 31 then Some (word_of_int v) else None }"

text \<open>The decimal representation of a number, for the messages a client sends.\<close>

fun decimal :: "nat \<Rightarrow> byte list" where
  "decimal n = (if n < 10 then [of_nat (48 + n)] else decimal (n div 10) @ [of_nat (48 + n mod 10)])"

declare decimal.simps [simp del]

section \<open>Searching\<close>

lemma memchr_total: "n \<le> length s \<Longrightarrow> \<exists>r. memchr s c n = Some r"
  by (induction s c n rule: memchr.induct) auto

lemma memchr_found:
  "memchr s c n = Some (Some i) \<Longrightarrow> i < n \<and> i < length s \<and> s ! i = c \<and> c \<notin> set (take i s)"
  by (induction s c n arbitrary: i rule: memchr.induct) (auto split: if_splits)

lemma memchr_absent: "memchr s c n = Some None \<Longrightarrow> c \<notin> set (take n s)"
  by (induction s c n rule: memchr.induct) (auto split: if_splits)

lemma memchr_first:
  "c \<notin> set pre \<Longrightarrow> length pre < n \<Longrightarrow> memchr (pre @ c # post) c n = Some (Some (length pre))"
proof (induction pre arbitrary: n)
  case Nil
  then show ?case by (cases n) simp_all
next
  case (Cons b pre)
  then show ?case by (cases n) auto
qed

text \<open>A string with a terminating zero byte is searched without leaving the array.\<close>

lemma strchr_from_total: "0 \<in> set s \<Longrightarrow> \<exists>r. strchr_from s c = Some r"
  by (induction s) auto

lemma strchr_from_found:
  "strchr_from s c = Some (Some i) \<Longrightarrow>
   i < length s \<and> s ! i = c \<and> c \<notin> set (take i s) \<and> 0 \<notin> set (take i s)"
  by (induction s arbitrary: i) (auto split: if_splits)

lemma strchr_from_first:
  "c \<notin> set pre \<Longrightarrow> 0 \<notin> set pre \<Longrightarrow> strchr_from (pre @ c # post) c = Some (Some (length pre))"
  by (induction pre) auto

lemma strchr_from_absent:
  "c \<notin> set pre \<Longrightarrow> c \<noteq> 0 \<Longrightarrow> strchr_from (pre @ 0 # post) c = Some None"
  by (induction pre) auto

text \<open>Without the byte and without a terminator the search runs off the end.\<close>

lemma strchr_from_overrun: "c \<notin> set s \<Longrightarrow> 0 \<notin> set s \<Longrightarrow> strchr_from s c = None"
  by (induction s) auto

lemma strchr_overrun: "c \<notin> set (drop i s) \<Longrightarrow> 0 \<notin> set (drop i s) \<Longrightarrow> strchr s i c = None"
  by (simp add: strchr_def strchr_from_overrun)

section \<open>Copying\<close>

lemma strncpy_bytes_plain:
  "n \<le> length s \<Longrightarrow> 0 \<notin> set (take n s) \<Longrightarrow> strncpy_bytes s n = Some (take n s)"
  by (induction s n rule: strncpy_bytes.induct) auto

lemma strncpy_overflow: "length dst < n \<Longrightarrow> strncpy dst src n = None"
  by (cases "strncpy_bytes src n") (simp_all add: strncpy_def)

lemma strncpy_fits:
  assumes "n \<le> length src" and "0 \<notin> set (take n src)" and "n \<le> m"
  shows "strncpy (replicate m 0) src n = Some (take n src @ replicate (m - n) 0)"
  using assms by (simp add: strncpy_def strncpy_bytes_plain)

section \<open>Numbers\<close>

lemma isspace_zero [simp]: "\<not> isspace 0" and isdigit_zero [simp]: "\<not> isdigit 0"
  by (simp_all add: isspace_def isdigit_def word_le_nat_alt)

text \<open>The byte of a decimal digit.\<close>

lemma digit_byte:
  assumes "d < 10"
  shows "isdigit (of_nat (48 + d))" and "\<not> isspace (of_nat (48 + d))"
    and "(of_nat (48 + d) :: byte) \<notin> {0, 10, 43, 44, 45, 58}" and "unat (of_nat (48 + d) :: byte) = 48 + d"
proof -
  show u: "unat (of_nat (48 + d) :: byte) = 48 + d"
    using assms by (simp add: unat_of_nat_small del: of_nat_add)
  show "isdigit (of_nat (48 + d))"
    using assms u by (simp add: isdigit_def word_le_nat_alt del: of_nat_add)
  have ne: "(of_nat (48 + d) :: byte) \<noteq> c" if "unat c < 48 \<or> 57 < unat c" for c
    using assms u that by fastforce
  show "\<not> isspace (of_nat (48 + d))"
    using ne [of 32] u by (simp add: isspace_def word_le_nat_alt del: of_nat_add)
  show "(of_nat (48 + d) :: byte) \<notin> {0, 10, 43, 44, 45, 58}"
    using ne by (simp del: of_nat_add)
qed

lemma set_decimal: "b \<in> set (decimal n) \<Longrightarrow> \<exists>d < 10. b = of_nat (48 + d)"
proof (induction n rule: decimal.induct)
  case (1 n)
  then show ?case by (subst (asm) (2) decimal.simps) (auto split: if_splits intro: exI [of _ "n mod 10"])
qed

lemma decimal_bytes:
  assumes "b \<in> set (decimal n)"
  shows "isdigit b" and "\<not> isspace b" and "b \<notin> {0, 10, 43, 44, 45, 58}"
  using set_decimal [OF assms] digit_byte(1-3) by auto

lemma decimal_not_Nil [simp]: "decimal n \<noteq> []"
  by (subst decimal.simps) simp

lemma length_decimal: "n < 10 ^ k \<Longrightarrow> 0 < k \<Longrightarrow> length (decimal n) \<le> k"
proof (induction k arbitrary: n)
  case (Suc k)
  show ?case
  proof (cases "n < 10")
    case True
    then show ?thesis by (simp add: decimal.simps [of n])
  next
    case False
    with Suc.prems have "n div 10 < 10 ^ k" and "0 < k" by (auto intro: gr0I)
    from Suc.IH [OF this] False show ?thesis by (simp add: decimal.simps [of n])
  qed
qed simp

text \<open>\<open>atoi\<close> reads back what was printed.\<close>

definition digits_value :: "byte list \<Rightarrow> nat \<Rightarrow> nat" where
  "digits_value bs acc = foldl (\<lambda>a b. 10 * a + (unat b - 48)) acc bs"

lemma atoi_digits_prefix:
  "(\<And>b. b \<in> set ds \<Longrightarrow> isdigit b) \<Longrightarrow> atoi_digits (ds @ s) acc = atoi_digits s (digits_value ds acc)"
  by (induction ds arbitrary: acc) (simp_all add: digits_value_def)

lemma digits_value_decimal: "digits_value (decimal n) 0 = n"
proof (induction n rule: decimal.induct)
  case (1 n)
  show ?case
  proof (cases "n < 10")
    case True
    with digit_byte(4) [OF this] show ?thesis
      by (simp add: decimal.simps [of n] digits_value_def del: of_nat_add)
  next
    case False
    with 1 digit_byte(4) [of "n mod 10"] show ?thesis
      by (simp add: decimal.simps [of n] digits_value_def del: of_nat_add)
  qed
qed

lemma atoi_decimal:
  assumes "n < 2 ^ 31"
  shows "atoi (decimal n @ 0 # s) = Some (of_nat n)"
proof -
  obtain b bs where d: "decimal n = b # bs" by (cases "decimal n") simp_all
  then have b: "\<not> isspace b" "b \<noteq> 45" "b \<noteq> 43" using decimal_bytes [of b n] by auto
  have "atoi_digits (decimal n @ 0 # s) 0 = Some n"
    using atoi_digits_prefix [of "decimal n" "0 # s" 0] decimal_bytes(1)
    by (simp add: digits_value_decimal)
  moreover have "int n < 2 ^ 31" using assms by simp
  ultimately show ?thesis using b d by (simp add: atoi_def)
qed

text \<open>A string of at most nine bytes is converted without overflow and without over-reading.\<close>

lemma skip_spaces_terminated:
  "\<exists>f'. skip_spaces (f @ 0 # s) = Some (f' @ 0 # s) \<and> length f' \<le> length f"
proof (induction f)
  case Nil
  show ?case by simp
next
  case (Cons b f)
  then show ?case by (cases "isspace b") (auto intro: le_SucI exI [of _ "b # f"])
qed

lemma digit_value_le: "isdigit b \<Longrightarrow> unat b - 48 \<le> 9"
  by (auto simp: isdigit_def word_le_nat_alt)

lemma atoi_digits_bound:
  "\<exists>n. atoi_digits (f @ 0 # s) acc = Some n \<and> n < (acc + 1) * 10 ^ length f"
proof (induction f arbitrary: acc)
  case Nil
  show ?case by simp
next
  case (Cons b f)
  show ?case
  proof (cases "isdigit b")
    case True
    let ?acc = "10 * acc + (unat b - 48)"
    have "(?acc + 1) * 10 ^ length f \<le> (10 * (acc + 1)) * 10 ^ length f"
      using digit_value_le [OF True] by (intro mult_right_mono) simp_all
    moreover obtain n where "atoi_digits (f @ 0 # s) ?acc = Some n" "n < (?acc + 1) * 10 ^ length f"
      using Cons.IH by blast
    ultimately show ?thesis using True by (auto simp: algebra_simps)
  next
    case False
    have "(1 :: nat) \<le> 10 ^ length (b # f)" by (rule one_le_power) simp
    then have "(acc + 1) * 1 \<le> (acc + 1) * 10 ^ length (b # f)" by (rule mult_left_mono) simp
    then show ?thesis using False by simp
  qed
qed

lemma atoi_total:
  assumes "length f \<le> 9"
  shows "\<exists>v. atoi (f @ 0 # s) = Some v"
proof -
  obtain f' where f': "skip_spaces (f @ 0 # s) = Some (f' @ 0 # s)" and l: "length f' \<le> length f"
    using skip_spaces_terminated by blast
  let ?s1 = "f' @ 0 # s"
  have "\<exists>g. (if hd ?s1 = 45 \<or> hd ?s1 = 43 then tl ?s1 else ?s1) = g @ 0 # s \<and> length g \<le> 9"
    using l assms by (cases f') auto
  then obtain g where g: "(if hd ?s1 = 45 \<or> hd ?s1 = 43 then tl ?s1 else ?s1) = g @ 0 # s"
    and "length g \<le> 9" by blast
  obtain n where n: "atoi_digits (g @ 0 # s) 0 = Some n" and "n < 10 ^ length g"
    using atoi_digits_bound [of g s 0] by auto
  moreover have "(10 :: nat) ^ length g \<le> 10 ^ 9" using \<open>length g \<le> 9\<close> by (intro power_increasing) simp_all
  ultimately have "n < 10 ^ 9" by linarith
  then have "int n < 10 ^ 9" by simp
  with f' g n show ?thesis by (simp add: atoi_def)
qed

text \<open>An array full of digits has no terminator.\<close>

lemma atoi_overrun:
  assumes "\<And>b. b \<in> set ds \<Longrightarrow> isdigit b" and "ds \<noteq> []"
  shows "atoi ds = None"
proof -
  obtain b bs where d: "ds = b # bs" using assms(2) by (cases ds) simp_all
  have "isdigit b" using assms(1) d by simp
  then have b: "\<not> isspace b" "b \<noteq> 45" "b \<noteq> 43"
    by (auto simp: isdigit_def isspace_def word_le_nat_alt)
  have "atoi_digits ds 0 = None"
    using atoi_digits_prefix [of ds "[]" 0] assms(1) by simp
  with b d show ?thesis by (simp add: atoi_def)
qed

end
