(* ===== verification/Log_Interface.thy ===== *)
theory Log_Interface
  imports Prelude
begin

text \<open>
  The interfaces through which the character driver uses the circular buffer: a log that keeps
  its last entries (\<open>bounded_log\<close>) and that finds the entry and the byte of a position in the
  concatenation of its entries (\<open>searchable_log\<close>). The lemmas the driver relies on are proved
  here once, from the laws; the buffer of the source is shown to obey the laws in the theory
  Circular_Buffer.
\<close>

text \<open>The position of a byte in a sequence of blocks of the given sizes.\<close>

fun locate :: "nat list \<Rightarrow> nat \<Rightarrow> (nat \<times> nat) option" where
  "locate [] p = None"
| "locate (s # ss) p =
     (if p < s then Some (0, p) else map_option (\<lambda>(k, off). (Suc k, off)) (locate ss (p - s)))"

section \<open>What locate finds\<close>

lemma locate_Some:
  "locate ss p = Some (k, off) \<Longrightarrow>
   k < length ss \<and> off < ss ! k \<and> p = sum_list (take k ss) + off"
  by (induction ss p arbitrary: k rule: locate.induct) (auto split: if_splits)

lemma locate_None_iff: "locate ss p = None \<longleftrightarrow> sum_list ss \<le> p"
  by (induction ss p rule: locate.induct) auto

lemma locate_at:
  "k < length ss \<Longrightarrow> off < ss ! k \<Longrightarrow> locate ss (sum_list (take k ss) + off) = Some (k, off)"
  by (induction ss arbitrary: k) (auto simp: nth_Cons take_Cons split: nat.splits)

text \<open>In the concatenation of the blocks, the found block continues at the position.\<close>

lemma locate_concat:
  assumes "locate (map length xss) p = Some (k, off)"
  shows "k < length xss" and "off < length (xss ! k)"
    and "drop p (concat xss) = drop off (xss ! k) @ concat (drop (Suc k) xss)"
proof -
  from locate_Some [OF assms] have k: "k < length xss" by simp
  with locate_Some [OF assms] have off: "off < length (xss ! k)"
    and p: "p = length (concat (take k xss)) + off"
    by (simp_all add: take_map sum_list_lengths)
  show "k < length xss" by (rule k)
  show "off < length (xss ! k)" by (rule off)
  have "drop p (concat xss) = drop off (drop (length (concat (take k xss))) (concat xss))"
    by (simp add: p add.commute)
  also have "\<dots> = drop off (xss ! k @ concat (drop (Suc k) xss))"
    using k by (simp add: drop_concat Cons_nth_drop_Suc [symmetric])
  finally show "drop p (concat xss) = drop off (xss ! k) @ concat (drop (Suc k) xss)"
    using off by simp
qed

section \<open>A log that keeps its last entries\<close>

locale bounded_log =
  fixes empty :: 'b
    and add :: "'b \<Rightarrow> 'e \<Rightarrow> 'b option"
    and entries :: "'b \<Rightarrow> 'e list"
    and invar :: "'b \<Rightarrow> bool"
    and valid :: "'e \<Rightarrow> bool"
    and cap :: nat
  assumes invar_empty: "invar empty"
    and entries_empty: "entries empty = []"
    and add_spec: "invar b \<Longrightarrow> valid e \<Longrightarrow>
      \<exists>b'. add b e = Some b' \<and> invar b' \<and> entries b' = keep_last cap (entries b @ [e])"
begin

lemma entries_after_add_bounded:
  "invar b \<Longrightarrow> valid e \<Longrightarrow> add b e = Some b' \<Longrightarrow> length (entries b') \<le> cap"
  using add_spec [of b e] by (auto simp: length_keep_last)

lemma add_all_from_empty:
  assumes "list_all valid es"
  shows "\<exists>b'. fold_option (\<lambda>e b. add b e) es empty = Some b' \<and> invar b' \<and>
    entries b' = keep_last cap es"
  using assms
proof (induction es rule: rev_induct)
  case Nil
  then show ?case by (simp add: invar_empty entries_empty)
next
  case (snoc e es)
  then obtain b where "fold_option (\<lambda>e b. add b e) es empty = Some b" "invar b"
    "entries b = keep_last cap es" by auto
  with snoc.prems add_spec [of b e] show ?case by (auto simp: fold_option_append keep_last_append)
qed

end

section \<open>Search by position\<close>

locale searchable_log = bounded_log empty add entries invar valid cap
  for empty :: 'b
    and add :: "'b \<Rightarrow> 'e \<Rightarrow> 'b option"
    and entries :: "'b \<Rightarrow> 'e list"
    and invar :: "'b \<Rightarrow> bool"
    and valid :: "'e \<Rightarrow> bool"
    and cap :: nat +
  fixes find :: "'b \<Rightarrow> size_t \<Rightarrow> (size_t \<times> size_t) option option"
    and at :: "'b \<Rightarrow> size_t \<Rightarrow> 'e option"
    and esize :: "'e \<Rightarrow> nat"
  assumes find_total: "invar b \<Longrightarrow>
      find b p = Some None \<and> locate (map esize (entries b)) (unat p) = None \<or>
      (\<exists>i off. find b p = Some (Some (i, off)))"
    and find_found: "invar b \<Longrightarrow> find b p = Some (Some (i, off)) \<Longrightarrow>
      \<exists>k. locate (map esize (entries b)) (unat p) = Some (k, unat off) \<and> at b i = Some (entries b ! k)"
begin

text \<open>The search returns the null pointer exactly at and after the end of the contents.\<close>

lemma find_None_iff:
  assumes "invar b"
  shows "find b p = Some None \<longleftrightarrow> sum_list (map esize (entries b)) \<le> unat p"
  using find_total [OF assms, of p] find_found [OF assms, of p]
  by (fastforce simp flip: locate_None_iff)

text \<open>
  A position inside the contents is found, and there the contents go on with the rest of the
  found entry, whatever the entries hold, as long as the sizes are right.
\<close>

lemma find_inside:
  assumes "invar b" and "\<And>e. e \<in> set (entries b) \<Longrightarrow> length (bytes e) = esize e"
    and "unat p < length (concat (map bytes (entries b)))"
  obtains i off k where "find b p = Some (Some (i, off))" and "k < length (entries b)"
    and "at b i = Some (entries b ! k)" and "unat off < esize (entries b ! k)"
    and "drop (unat p) (concat (map bytes (entries b))) =
         drop (unat off) (bytes (entries b ! k)) @ concat (map bytes (drop (Suc k) (entries b)))"
proof -
  have sizes: "map esize (entries b) = map length (map bytes (entries b))"
    using assms(2) by simp
  with assms(3) have "\<not> sum_list (map esize (entries b)) \<le> unat p"
    by (simp only: sum_list_lengths not_le)
  with assms(1) obtain i off where f: "find b p = Some (Some (i, off))"
    using find_total [OF assms(1), of p] find_None_iff by blast
  with find_found [OF assms(1) f] obtain k where
    loc: "locate (map length (map bytes (entries b))) (unat p) = Some (k, unat off)"
    and at: "at b i = Some (entries b ! k)" by (auto simp only: sizes)
  from locate_concat [OF loc] assms(2) show ?thesis
    by (intro that [OF f _ at]) (auto simp: drop_map)
qed

end

end
