(* ===== verification/Circular_Buffer.thy ===== *)
theory Circular_Buffer
  imports Log_Interface
begin

text \<open>
  The circular buffer of the driver, \<open>aesd-char-driver/aesd-circular-buffer.c\<close> and its header:
  the two structures, the initialisation, the insertion that overwrites the oldest entry, the
  search for the entry and the byte of a file position, and the iteration macro.

  The abstraction \<open>cb_entries\<close> reads a buffer as the list of its entries, oldest first;
  \<open>cb_inv\<close> is the invariant of the representation. Insertion refines appending to a list
  that keeps its last ten elements (interface \<open>bounded_log\<close>), and the search loop, with its
  wrap-around on an unsigned offset, refines the search in the list of sizes (\<open>locate\<close>).
\<close>

section \<open>Structures\<close>

text \<open>The macro is a literal of the source, so it is a numeral of every type here.\<close>

abbreviation (input) AESDCHAR_MAX_WRITE_OPERATIONS_SUPPORTED :: "'a::numeral" where
  "AESDCHAR_MAX_WRITE_OPERATIONS_SUPPORTED \<equiv> 10"

text \<open>\<open>struct aesd_buffer_entry\<close>; the field \<open>size\<close> is \<open>entry_size\<close> here.\<close>

record aesd_buffer_entry =
  buffptr :: ptr
  entry_size :: size_t

text \<open>\<open>struct aesd_circular_buffer\<close>; the array is a list of ten entries.\<close>

record aesd_circular_buffer =
  entry :: "aesd_buffer_entry list"
  in_offs :: uint8_t
  out_offs :: uint8_t
  full :: bool

definition zero_entry :: aesd_buffer_entry where
  "zero_entry = \<lparr>buffptr = NULL, entry_size = 0\<rparr>"

section \<open>Operations\<close>

definition aesd_circular_buffer_init :: aesd_circular_buffer where
  "aesd_circular_buffer_init =
     \<lparr>entry = replicate AESDCHAR_MAX_WRITE_OPERATIONS_SUPPORTED zero_entry,
      in_offs = 0, out_offs = 0, full = False\<rparr>"

text \<open>\<open>buffer->entry[i]\<close>, for an index of type \<open>size_t\<close>.\<close>

definition entry_at :: "aesd_circular_buffer \<Rightarrow> size_t \<Rightarrow> aesd_buffer_entry option" where
  "entry_at b i = (if unat i < length (entry b) then Some (entry b ! unat i) else None)"

definition aesd_circular_buffer_add_entry ::
    "aesd_circular_buffer \<Rightarrow> aesd_buffer_entry \<Rightarrow> aesd_circular_buffer option" where
  "aesd_circular_buffer_add_entry b add_entry =
     (if unat (in_offs b) < length (entry b)
      then let b1 = b\<lparr>entry := (entry b)[unat (in_offs b) := add_entry]\<rparr>;
               b2 = b1\<lparr>in_offs := in_offs b1 + 1\<rparr>;
               b3 = (if AESDCHAR_MAX_WRITE_OPERATIONS_SUPPORTED \<le> in_offs b2
                     then b2\<lparr>full := True, in_offs := 0\<rparr> else b2)
           in Some (if full b3 then b3\<lparr>out_offs := in_offs b3\<rparr> else b3)
      else None)"

text \<open>
  The loop of the search. \<open>remaining\<close> and \<open>cur\<close> are \<open>remaining_offset\<close> and
  \<open>current_out_offs_offset\<close>, both \<open>size_t\<close>: the offset that goes back to the start of the
  array is \<open>-1 * out_offs\<close>, which wraps. The result is the null pointer (\<open>None\<close>) or the index
  of the entry in the array with the byte offset stored through \<open>entry_offset_byte_rtn\<close>.
\<close>

partial_function (option) find_entry_loop ::
    "aesd_circular_buffer \<Rightarrow> size_t \<Rightarrow> size_t \<Rightarrow> (size_t \<times> size_t) option option" where
  "find_entry_loop b remaining cur =
     do { e \<leftarrow> entry_at b (ucast (out_offs b) + cur);
          if buffptr e = NULL then Some None
          else if entry_size e \<le> remaining
          then let remaining' = remaining - entry_size e;
                   cur' = cur + 1;
                   cur'' = (if AESDCHAR_MAX_WRITE_OPERATIONS_SUPPORTED \<le> ucast (out_offs b) + cur'
                            then - 1 * ucast (out_offs b) else cur')
               in if cur'' = 0 then Some None else find_entry_loop b remaining' cur''
          else Some (Some (ucast (out_offs b) + cur, remaining)) }"

definition aesd_circular_buffer_find_entry_offset_for_fpos ::
    "aesd_circular_buffer \<Rightarrow> size_t \<Rightarrow> (size_t \<times> size_t) option option" where
  "aesd_circular_buffer_find_entry_offset_for_fpos b char_offset = find_entry_loop b char_offset 0"

text \<open>
  The macro \<open>AESD_CIRCULAR_BUFFER_FOREACH\<close> with a loop body that acts on a state: the index is a
  \<open>uint8_t\<close> and every slot of the array is visited.
\<close>

function foreach_from ::
    "(aesd_buffer_entry \<Rightarrow> 's \<Rightarrow> 's option) \<Rightarrow> aesd_circular_buffer \<Rightarrow> uint8_t \<Rightarrow> 's \<Rightarrow> 's option" where
  "foreach_from body b i s =
     (if i < AESDCHAR_MAX_WRITE_OPERATIONS_SUPPORTED
      then do { e \<leftarrow> entry_at b (ucast i); s' \<leftarrow> body e s; foreach_from body b (i + 1) s' }
      else Some s)"
  by pat_completeness auto
termination
proof (relation "measure (\<lambda>(body, b, i, s). 10 - unat i)", goal_cases)
  case (2 body b i s e s')
  then have "unat i < 10" by (simp add: word_less_nat_alt)
  moreover from this have "unat (i + 1) = unat i + 1" by (simp add: unat_simps)
  ultimately show ?case by simp
qed simp

declare foreach_from.simps [simp del]

definition AESD_CIRCULAR_BUFFER_FOREACH ::
    "(aesd_buffer_entry \<Rightarrow> 's \<Rightarrow> 's option) \<Rightarrow> aesd_circular_buffer \<Rightarrow> 's \<Rightarrow> 's option" where
  "AESD_CIRCULAR_BUFFER_FOREACH body b s = foreach_from body b 0 s"

section \<open>Abstraction and invariant\<close>

text \<open>The entry at distance \<open>k\<close> from the read position.\<close>

definition slot :: "aesd_circular_buffer \<Rightarrow> nat \<Rightarrow> aesd_buffer_entry" where
  "slot b k = entry b ! ((unat (out_offs b) + k) mod 10)"

definition cb_count :: "aesd_circular_buffer \<Rightarrow> nat" where
  "cb_count b = (if full b then 10 else (unat (in_offs b) + 10 - unat (out_offs b)) mod 10)"

definition cb_entries :: "aesd_circular_buffer \<Rightarrow> aesd_buffer_entry list" where
  "cb_entries b = map (slot b) [0..<cb_count b]"

text \<open>
  The entries in use hold a buffer and the others are null. The buffer is never consumed, so the
  read position moves only when the buffer is full, where it equals the write position.
\<close>

definition cb_inv :: "aesd_circular_buffer \<Rightarrow> bool" where
  "cb_inv b \<longleftrightarrow>
     length (entry b) = 10 \<and> in_offs b < 10 \<and> out_offs b < 10 \<and>
     (if full b then in_offs b = out_offs b else out_offs b = 0) \<and>
     (\<forall>i<10. buffptr (entry b ! i) \<noteq> NULL \<longleftrightarrow> full b \<or> i < unat (in_offs b))"

section \<open>Invariant and refinement of the insertion\<close>

lemma cb_inv_bounds:
  assumes "cb_inv b"
  shows "length (entry b) = 10" and "unat (in_offs b) < 10" and "unat (out_offs b) < 10"
  using assms by (simp_all add: cb_inv_def word_less_nat_alt)

lemma cb_inv_not_full: "cb_inv b \<Longrightarrow> \<not> full b \<Longrightarrow> out_offs b = 0"
  by (simp add: cb_inv_def)

lemma cb_inv_full: "cb_inv b \<Longrightarrow> full b \<Longrightarrow> out_offs b = in_offs b"
  by (simp add: cb_inv_def)

lemma cb_count_not_full: "cb_inv b \<Longrightarrow> \<not> full b \<Longrightarrow> cb_count b = unat (in_offs b)"
  using cb_inv_bounds(2) [of b] by (simp add: cb_count_def cb_inv_not_full)

lemma cb_count_le: "cb_count b \<le> 10"
  by (simp add: cb_count_def less_imp_le)

lemma length_cb_entries [simp]: "length (cb_entries b) = cb_count b"
  by (simp add: cb_entries_def)

lemma cb_entries_nth: "k < cb_count b \<Longrightarrow> cb_entries b ! k = slot b k"
  by (simp add: cb_entries_def)

lemma slot_NULL_iff:
  assumes "cb_inv b" and "k < 10"
  shows "buffptr (slot b k) = NULL \<longleftrightarrow> cb_count b \<le> k"
proof (cases "full b")
  case True
  then show ?thesis using assms by (auto simp: slot_def cb_inv_def cb_count_def)
next
  case False
  with assms have "slot b k = entry b ! k" and "cb_count b = unat (in_offs b)"
    by (simp_all add: slot_def cb_inv_not_full cb_count_not_full)
  with False assms show ?thesis by (auto simp: cb_inv_def not_less)
qed

lemma cb_entries_not_NULL: "cb_inv b \<Longrightarrow> e \<in> set (cb_entries b) \<Longrightarrow> buffptr e \<noteq> NULL"
proof -
  assume b: "cb_inv b" and "e \<in> set (cb_entries b)"
  then obtain k where "k < cb_count b" and "e = slot b k" by (auto simp: cb_entries_def)
  with b cb_count_le [of b] show ?thesis by (simp add: slot_NULL_iff [of b k] del: not_None_eq)
qed

lemma cb_inv_init: "cb_inv aesd_circular_buffer_init"
  by (simp add: cb_inv_def aesd_circular_buffer_init_def zero_entry_def)

lemma cb_entries_init: "cb_entries aesd_circular_buffer_init = []"
  by (simp add: cb_entries_def cb_count_def aesd_circular_buffer_init_def)

text \<open>The insertion in closed form: both indices move modulo ten.\<close>

lemma add_entry_eq:
  assumes "cb_inv b"
  defines "i \<equiv> unat (in_offs b)"
  shows "\<exists>b'. aesd_circular_buffer_add_entry b e = Some b' \<and>
     entry b' = (entry b)[i := e] \<and> unat (in_offs b') = (i + 1) mod 10 \<and>
     full b' = (full b \<or> i = 9) \<and>
     unat (out_offs b') = (if full b \<or> i = 9 then (i + 1) mod 10 else 0)"
proof -
  have i: "i < 10" and len: "length (entry b) = 10"
    using cb_inv_bounds [OF assms(1)] by (simp_all add: i_def)
  have succ: "unat (in_offs b + 1) = i + 1"
    using i by (simp add: i_def unat_simps)
  show ?thesis
  proof (cases "i = 9")
    case True
    with succ have "10 \<le> in_offs b + 1" by (simp add: word_le_nat_alt)
    with True len show ?thesis
      by (simp add: aesd_circular_buffer_add_entry_def Let_def i_def)
  next
    case False
    with i succ have "\<not> 10 \<le> in_offs b + 1" and "(i + 1) mod 10 = i + 1"
      by (simp_all add: word_le_nat_alt)
    with False i len succ assms(1) show ?thesis
      by (simp add: aesd_circular_buffer_add_entry_def Let_def i_def [symmetric] cb_inv_not_full)
  qed
qed

lemma add_entry_inv:
  assumes "cb_inv b" and "buffptr e \<noteq> NULL" and "aesd_circular_buffer_add_entry b e = Some b'"
  shows "cb_inv b'"
proof -
  let ?i = "unat (in_offs b)"
  have i: "?i < 10" using cb_inv_bounds [OF assms(1)] by simp
  from add_entry_eq [OF assms(1), of e] assms(3)
  have b': "entry b' = (entry b)[?i := e]" "unat (in_offs b') = (?i + 1) mod 10"
    "full b' = (full b \<or> ?i = 9)" "unat (out_offs b') = (if full b \<or> ?i = 9 then (?i + 1) mod 10 else 0)"
    by simp_all
  have "full b' \<or> out_offs b' = 0" and "full b' \<longrightarrow> in_offs b' = out_offs b'"
    using b'(2-4) by (auto simp: unat_eq_zero [symmetric] simp: word_unat_eq_iff split: if_splits)
  moreover have "\<forall>j<10. buffptr (entry b' ! j) \<noteq> NULL \<longleftrightarrow> full b' \<or> j < unat (in_offs b')"
    using assms(1,2) i by (auto simp: b' cb_inv_def nth_list_update mod_if)
  ultimately show ?thesis
    using b' assms(1) by (auto simp: cb_inv_def word_less_nat_alt)
qed


text \<open>The abstract insertion: append, and keep the last ten.\<close>

lemma add_entry_entries:
  assumes "cb_inv b" and "aesd_circular_buffer_add_entry b e = Some b'"
  shows "cb_entries b' = keep_last 10 (cb_entries b @ [e])"
proof -
  let ?i = "unat (in_offs b)"
  have i: "?i < 10" and len: "length (entry b) = 10"
    using cb_inv_bounds [OF assms(1)] by simp_all
  from add_entry_eq [OF assms(1), of e] assms(2)
  have b': "entry b' = (entry b)[?i := e]" "unat (in_offs b') = (?i + 1) mod 10"
    "full b' = (full b \<or> ?i = 9)" "unat (out_offs b') = (if full b \<or> ?i = 9 then (?i + 1) mod 10 else 0)"
    by simp_all
  show ?thesis
  proof (cases "full b")
    case True
    then have count: "cb_count b = 10" "cb_count b' = 10" by (simp_all add: cb_count_def b')
    have "cb_entries b' = tl (cb_entries b) @ [e]"
    proof (rule nth_equalityI)
      fix k
      assume "k < length (cb_entries b')"
      then have k: "k < 10" by (simp add: count)
      have idx: "(Suc ?i mod 10 + k) mod 10 = Suc (?i + k) mod 10" by presburger
      have "cb_entries b' ! k = (entry b)[?i := e] ! ((?i + Suc k) mod 10)"
        using True k by (simp add: cb_entries_nth count slot_def b' idx)
      moreover have "(?i + Suc k) mod 10 = ?i \<longleftrightarrow> k = 9" using i k by (auto simp: mod_if split: if_splits)
      ultimately show "cb_entries b' ! k = (tl (cb_entries b) @ [e]) ! k"
        using True k i len assms(1)
        by (auto simp: nth_append nth_tl count cb_entries_nth slot_def cb_inv_full)
    qed (simp add: count)
    then show ?thesis by (simp add: keep_last_snoc_full count)
  next
    case False
    then have count: "cb_count b = ?i" by (rule cb_count_not_full [OF assms(1)])
    from False i have count': "cb_count b' = Suc ?i" and out': "unat (out_offs b') = 0"
      by (auto simp: cb_count_def b' mod_if)
    have "cb_entries b' = cb_entries b @ [e]"
    proof (rule nth_equalityI)
      fix k
      assume "k < length (cb_entries b')"
      then have k: "k < Suc ?i" by (simp add: count')
      then show "cb_entries b' ! k = (cb_entries b @ [e]) ! k"
        using False i len assms(1)
        by (auto simp: nth_append count count' cb_entries_nth slot_def b' out' cb_inv_not_full
            less_Suc_eq)
    qed (simp add: count count')
    with count i show ?thesis by simp
  qed
qed

section \<open>The search refines locate\<close>

text \<open>The unsigned offset the loop holds after \<open>k\<close> steps.\<close>

definition loop_offset :: "aesd_circular_buffer \<Rightarrow> nat \<Rightarrow> size_t" where
  "loop_offset b k = (if unat (out_offs b) + k < 10 then of_nat k else of_nat k - 10)"

lemma loop_offset_index:
  assumes "cb_inv b" and "k < 10"
  shows "ucast (out_offs b) + loop_offset b k = (of_nat ((unat (out_offs b) + k) mod 10) :: size_t)"
proof -
  have out: "unat (out_offs b) < 10" using cb_inv_bounds [OF assms(1)] by simp
  have "(ucast (out_offs b) :: size_t) = of_nat (unat (out_offs b))" by simp
  moreover from out assms(2) have "unat (out_offs b) + k - 10 < 10" by simp
  ultimately show ?thesis
    by (auto simp: loop_offset_def mod_if of_nat_diff algebra_simps)
qed

lemma loop_offset_nonzero:
  assumes "0 < k" and "k < 10"
  shows "loop_offset b k \<noteq> 0"
proof -
  have "(of_nat k :: size_t) \<noteq> 0" and "(of_nat k :: size_t) \<noteq> 10"
    using assms by (simp_all add: word_unat_eq_iff unat_of_nat_small)
  then show ?thesis by (simp add: loop_offset_def)
qed

text \<open>One step of the loop advances the offset, wraps it, and is zero after ten steps.\<close>

lemma loop_offset_step:
  assumes "cb_inv b" and "k < 10"
  shows "(if 10 \<le> ucast (out_offs b) + (loop_offset b k + 1) then - 1 * ucast (out_offs b)
          else loop_offset b k + 1) = (if k = 9 then 0 else loop_offset b (Suc k))"
proof -
  let ?o = "unat (out_offs b)" and ?i = "(unat (out_offs b) + k) mod 10"
  have o: "?o < 10" using cb_inv_bounds [OF assms(1)] by simp
  have uo: "(ucast (out_offs b) :: size_t) = of_nat ?o" by simp
  have "ucast (out_offs b) + (loop_offset b k + 1) = (of_nat (?i + 1) :: size_t)"
    using loop_offset_index [OF assms] by (simp add: algebra_simps)
  moreover have "(10 :: size_t) \<le> of_nat (?i + 1) \<longleftrightarrow> 10 \<le> ?i + 1"
    by (simp add: word_le_nat_alt unat_of_nat_small del: of_nat_add of_nat_Suc)
  moreover have "10 \<le> ?i + 1 \<longleftrightarrow> ?o + k = 9"
    using o assms(2) by (auto simp: mod_if split: if_splits)
  ultimately have wrap: "10 \<le> ucast (out_offs b) + (loop_offset b k + 1) \<longleftrightarrow> ?o + k = 9"
    by metis
  show ?thesis
  proof (cases "?o + k = 9")
    case True
    then have "(of_nat (k + ?o) :: size_t) = 9" by (simp only: add.commute [of k] of_nat_numeral)
    then have "(of_nat k :: size_t) = 9 - ucast (out_offs b)"
      by (simp only: eq_diff_eq of_nat_add uo)
    with True wrap show ?thesis by (auto simp: loop_offset_def unat_eq_zero)
  next
    case False
    with wrap o assms(2) show ?thesis by (auto simp: loop_offset_def)
  qed
qed

lemma entry_at_slot:
  assumes "cb_inv b" and "k < 10"
  shows "entry_at b (ucast (out_offs b) + loop_offset b k) = Some (slot b k)"
  using cb_inv_bounds [OF assms(1)]
  by (simp add: entry_at_def loop_offset_index [OF assms] unat_of_nat_small slot_def)

definition cb_sizes :: "aesd_circular_buffer \<Rightarrow> nat list" where
  "cb_sizes b = map (\<lambda>e. unat (entry_size e)) (cb_entries b)"

lemma find_entry_loop_locate:
  assumes "cb_inv b" and "k < 10" and "k \<le> cb_count b"
  shows "find_entry_loop b remaining (loop_offset b k) =
    Some (map_option (\<lambda>(j, off). (of_nat ((unat (out_offs b) + k + j) mod 10), of_nat off))
           (locate (drop k (cb_sizes b)) (unat remaining)))"
  using assms(2,3)
proof (induction "10 - k" arbitrary: k remaining rule: less_induct)
  case less
  note at = entry_at_slot [OF assms(1) less.prems(1)] and idx = loop_offset_index [OF assms(1) less.prems(1)]
  show ?case
  proof (cases "cb_count b = k")
    case True
    with less.prems have "buffptr (slot b k) = NULL" by (simp add: slot_NULL_iff [OF assms(1)])
    with True show ?thesis
      by (subst find_entry_loop.simps) (simp add: at cb_sizes_def)
  next
    case False
    let ?s = "entry_size (slot b k)"
    from False less.prems have k: "k < cb_count b" by simp
    with less.prems have nn: "buffptr (slot b k) \<noteq> NULL"
      by (simp add: slot_NULL_iff [OF assms(1)] del: not_None_eq)
    from k have drop: "drop k (cb_sizes b) = unat ?s # drop (Suc k) (cb_sizes b)"
      by (simp add: cb_sizes_def Cons_nth_drop_Suc [symmetric] cb_entries_nth)
    show ?thesis
    proof (cases "?s \<le> remaining")
      case False
      with nn show ?thesis
        by (subst find_entry_loop.simps)
          (simp add: at [unfolded idx] drop idx word_le_nat_alt del: not_None_eq)
    next
      case True
      have rest: "find_entry_loop b remaining (loop_offset b k) =
          (if k = 9 then Some None else find_entry_loop b (remaining - ?s) (loop_offset b (Suc k)))"
        using nn True loop_offset_step [OF assms(1) less.prems(1)] loop_offset_nonzero [of "Suc k" b] less.prems
        by (subst find_entry_loop.simps) (auto simp: at Let_def)
      show ?thesis
      proof (cases "k = 9")
        case True
        moreover from this k cb_count_le [of b] have "drop (Suc k) (cb_sizes b) = []"
          by (simp add: cb_sizes_def)
        ultimately show ?thesis using \<open>?s \<le> remaining\<close>
          unfolding rest drop by (simp add: word_le_nat_alt)
      next
        case False
        with less.prems k less.hyps [of "Suc k" "remaining - ?s"] True show ?thesis
          by (simp add: rest drop word_le_nat_alt unat_minus_le option.map_comp comp_def
              case_prod_unfold)
      qed
    qed
  qed
qed

lemma find_entry_locate:
  assumes "cb_inv b"
  shows "aesd_circular_buffer_find_entry_offset_for_fpos b p =
    Some (map_option (\<lambda>(k, off). (of_nat ((unat (out_offs b) + k) mod 10), of_nat off))
           (locate (cb_sizes b) (unat p)))"
  using find_entry_loop_locate [OF assms, of 0 p] cb_inv_bounds(3) [OF assms]
  by (simp add: aesd_circular_buffer_find_entry_offset_for_fpos_def loop_offset_def)

section \<open>Iteration\<close>

text \<open>The macro visits the ten slots of the array in order.\<close>

lemma foreach_from_fold:
  assumes "length (entry b) = 10" and "i \<le> 10"
  shows "foreach_from body b (of_nat i) s = fold_option body (drop i (entry b)) s"
  using assms(2)
proof (induction "10 - i" arbitrary: i s)
  case 0
  then show ?case using assms(1) by (subst foreach_from.simps) simp
next
  case (Suc n)
  then have i: "i < 10" by simp
  have u: "unat (of_nat i :: uint8_t) = i" using i by (simp add: unat_of_nat_small)
  then have "(of_nat i :: uint8_t) < 10" using i by (simp add: word_less_nat_alt)
  moreover have "entry_at b (ucast (of_nat i :: uint8_t)) = Some (entry b ! i)"
    using i u assms(1) by (simp add: entry_at_def unat_ucast_up)
  moreover have "foreach_from body b (of_nat i + 1) = fold_option body (drop (Suc i) (entry b))"
    using Suc.hyps(1) [of "Suc i"] Suc.hyps(2) i by (auto simp: fun_eq_iff add.commute)
  ultimately show ?case using i assms(1)
    by (subst foreach_from.simps) (simp add: Cons_nth_drop_Suc [symmetric])
qed

lemma foreach_fold:
  "length (entry b) = 10 \<Longrightarrow> AESD_CIRCULAR_BUFFER_FOREACH body b s = fold_option body (entry b) s"
  using foreach_from_fold [of b 0 body s] by (simp add: AESD_CIRCULAR_BUFFER_FOREACH_def)

section \<open>The buffer provides the interface of the driver\<close>

lemma find_entry_found:
  assumes "cb_inv b" and "aesd_circular_buffer_find_entry_offset_for_fpos b p = Some (Some (i, off))"
  shows "\<exists>k. locate (cb_sizes b) (unat p) = Some (k, unat off) \<and> entry_at b i = Some (cb_entries b ! k)"
proof -
  from assms find_entry_locate [OF assms(1), of p] obtain k n where
    loc: "locate (cb_sizes b) (unat p) = Some (k, n)"
    and i: "i = of_nat ((unat (out_offs b) + k) mod 10)" and off: "off = of_nat n"
    by auto
  have "n \<le> unat p" using locate_Some [OF loc] by simp
  then have "n < 2 ^ 64" using unat_bound [of p] by simp
  then have n: "unat off = n" by (simp add: off unat_of_nat_small)
  from locate_Some [OF loc] have k: "k < cb_count b" by (simp add: cb_sizes_def)
  then have "k < 10" using cb_count_le [of b] by simp
  with k have "entry_at b i = Some (cb_entries b ! k)"
    using entry_at_slot [OF assms(1), of k] loop_offset_index [OF assms(1), of k]
    by (simp add: i cb_entries_nth)
  with loc n show ?thesis by auto
qed

interpretation cb: searchable_log aesd_circular_buffer_init aesd_circular_buffer_add_entry
  cb_entries cb_inv "\<lambda>e. buffptr e \<noteq> NULL" 10
  aesd_circular_buffer_find_entry_offset_for_fpos entry_at "\<lambda>e. unat (entry_size e)"
proof (unfold_locales, goal_cases)
  case 1
  show ?case by (rule cb_inv_init)
next
  case 2
  show ?case by (rule cb_entries_init)
next
  case (3 b e)
  then show ?case using add_entry_eq [of b e] add_entry_inv add_entry_entries by blast
next
  case (4 b p)
  then show ?case using find_entry_locate [of b p]
    by (cases "locate (cb_sizes b) (unat p)") (auto simp: cb_sizes_def)
next
  case (5 b p i off)
  then show ?case using find_entry_found [of b p i off] by (simp add: cb_sizes_def)
qed

end
