(* ===== verification/Aesd_Char.thy ===== *)
theory Aesd_Char
  imports Circular_Buffer
begin

unbundle bit_operations_syntax

text \<open>
  The character driver, \<open>aesd-char-driver/main.c\<close> with \<open>aesdchar.h\<close> and \<open>aesd_ioctl.h\<close>:
  the device, the open file, and the six file operations, each as the whole handler with its
  locking, its early returns and its accesses to memory.

  The kernel services the handlers call are not part of the repository. Their answers to one call
  are the fields of a record \<open>kernel\<close> that every handler takes, and \<open>kernel_ok\<close> states the
  documented behaviour the driver relies on. The state of the driver is \<open>kstate\<close>: the device,
  the kernel heap, and what is registered with the kernel.
\<close>

section \<open>Structures\<close>

record aesd_dev =
  circular_buffer :: aesd_circular_buffer
  current_entry :: aesd_buffer_entry
  device_mutex :: bool

record aesd_seekto =
  write_cmd :: uint32_t
  write_cmd_offset :: uint32_t

text \<open>The address of the one device the module declares.\<close>

datatype dev_ptr = Aesd_device

record inode =
  i_cdev :: dev_ptr

record kfile =
  f_pos :: loff_t
  private_data :: "dev_ptr option"

record kstate =
  aesd_device :: aesd_dev
  kheap :: heap
  aesd_major :: uint32_t
  chrdev_region :: "uint32_t option"
  cdev_live :: bool

definition EINVAL :: c_long where
  "EINVAL = 22"

definition ENOMEM :: c_long where
  "ENOMEM = 12"

definition SEEK_SET :: c_int where
  "SEEK_SET = 0"

definition SEEK_CUR :: c_int where
  "SEEK_CUR = 1"

definition SEEK_END :: c_int where
  "SEEK_END = 2"

definition AESD_IOC_MAGIC :: uint32_t where
  "AESD_IOC_MAGIC = 0x16"

text \<open>The encoding \<open>_IOWR(type, nr, struct)\<close> of the kernel, for a structure of eight bytes.\<close>

definition AESDCHAR_IOCSEEKTO :: uint32_t where
  "AESDCHAR_IOCSEEKTO = push_bit 30 3 OR push_bit 16 8 OR push_bit 8 AESD_IOC_MAGIC OR 1"

section \<open>Kernel services\<close>

text \<open>
  What the kernel answers during one call: the result of \<open>mutex_lock_interruptible\<close>, the block
  and its initial bytes that \<open>kmalloc\<close> returns for a heap and a size, what lands at the
  destination of a copy from or to user space with the number of bytes not copied, and the
  results of \<open>alloc_chrdev_region\<close> and \<open>cdev_add\<close>.
\<close>

record kernel =
  lock_rc :: c_int
  kmalloc :: "heap \<Rightarrow> size_t \<Rightarrow> (addr \<times> byte list) option"
  copy_from_user :: "byte list \<Rightarrow> size_t \<Rightarrow> byte list \<times> size_t"
  copy_to_user :: "byte list \<Rightarrow> byte list \<times> size_t"
  copy_seekto_from_user :: "aesd_seekto \<Rightarrow> aesd_seekto \<times> size_t"
  chrdev_rc :: c_int
  chrdev_dev :: uint32_t
  cdev_add_rc :: c_int

text \<open>\<open>KMALLOC_MAX_SIZE\<close> of the default configuration (pages of 4 KiB, order 10).\<close>

definition KMALLOC_MAX_SIZE :: nat where
  "KMALLOC_MAX_SIZE = 2 ^ 22"

definition kmalloc_ok :: "kernel \<Rightarrow> bool" where
  "kmalloc_ok K \<longleftrightarrow>
     (\<forall>h n a bs. kmalloc K h n = Some (a, bs) \<longrightarrow>
        length bs = unat n \<and> unat n \<le> KMALLOC_MAX_SIZE \<and> (n \<noteq> 0 \<longrightarrow> h a = None))"

definition copy_ok :: "kernel \<Rightarrow> bool" where
  "copy_ok K \<longleftrightarrow>
     (\<forall>u n. length (fst (copy_from_user K u n)) = unat n \<and> snd (copy_from_user K u n) \<le> n \<and>
        (snd (copy_from_user K u n) = 0 \<longrightarrow> fst (copy_from_user K u n) = take (unat n) u)) \<and>
     (\<forall>bs. unat (snd (copy_to_user K bs)) \<le> length bs \<and>
        (snd (copy_to_user K bs) = 0 \<longrightarrow> fst (copy_to_user K bs) = bs)) \<and>
     (\<forall>v. unat (snd (copy_seekto_from_user K v)) \<le> 8 \<and>
        (snd (copy_seekto_from_user K v) = 0 \<longrightarrow> fst (copy_seekto_from_user K v) = v))"

definition kernel_ok :: "kernel \<Rightarrow> bool" where
  "kernel_ok K \<longleftrightarrow> kmalloc_ok K \<and> copy_ok K"

text \<open>
  The mutex of the device. A handler that would take it again, or release it when it is not held,
  has no result.
\<close>

definition mutex_lock_interruptible :: "kernel \<Rightarrow> kstate \<Rightarrow> (c_int \<times> kstate) option" where
  "mutex_lock_interruptible K s =
     (if device_mutex (aesd_device s) then None
      else if lock_rc K = 0
      then Some (0, s\<lparr>aesd_device := (aesd_device s)\<lparr>device_mutex := True\<rparr>\<rparr>)
      else Some (lock_rc K, s))"

definition mutex_unlock :: "kstate \<Rightarrow> kstate option" where
  "mutex_unlock s =
     (if device_mutex (aesd_device s)
      then Some (s\<lparr>aesd_device := (aesd_device s)\<lparr>device_mutex := False\<rparr>\<rparr>) else None)"

section \<open>File operations\<close>

definition aesd_open :: "inode \<Rightarrow> kfile \<Rightarrow> c_int \<times> kfile" where
  "aesd_open inode filp = (0, filp\<lparr>private_data := Some (i_cdev inode)\<rparr>)"

definition aesd_release :: "inode \<Rightarrow> kfile \<Rightarrow> c_int \<times> kfile" where
  "aesd_release inode filp = (0, filp)"

text \<open>
  \<open>aesd_read\<close> returns the value, the new \<open>*f_pos\<close>, the bytes that reached the user's buffer and
  the state. The number of bytes not copied is an \<open>unsigned long\<close> that the code keeps in an
  \<open>int\<close> and returns as it is.
\<close>

definition aesd_read ::
    "kernel \<Rightarrow> kfile \<Rightarrow> size_t \<Rightarrow> loff_t \<Rightarrow> kstate \<Rightarrow>
     (ssize_t \<times> loff_t \<times> byte list \<times> kstate) option" where
  "aesd_read K filp count pos s =
     do { _ \<leftarrow> private_data filp;
          (err, s) \<leftarrow> mutex_lock_interruptible K s;
          if err \<noteq> 0 then Some (scast err, pos, [], s)
          else do {
            new_entry \<leftarrow> aesd_circular_buffer_find_entry_offset_for_fpos
                           (circular_buffer (aesd_device s)) pos;
            case new_entry of
              None \<Rightarrow> do { s \<leftarrow> mutex_unlock s; Some (0, pos, [], s) }
            | Some (i, offset) \<Rightarrow> do {
                e \<leftarrow> entry_at (circular_buffer (aesd_device s)) i;
                let num_chars = entry_size e - offset;
                let num_chars = (if count < num_chars then count else num_chars);
                a \<leftarrow> buffptr e;
                src \<leftarrow> load_bytes (kheap s) a (unat offset) (unat num_chars);
                let (landed, left) = copy_to_user K src;
                let err = (ucast left :: c_int);
                s \<leftarrow> mutex_unlock s;
                if err \<noteq> 0 then Some (scast err, pos, landed, s)
                else Some (num_chars, pos + num_chars, landed, s) } } }"

text \<open>The part of \<open>aesd_write\<close> that ends a command: the entry that is overwritten is freed first.\<close>

definition write_commit :: "kstate \<Rightarrow> kstate option" where
  "write_commit s =
     (let d = aesd_device s; cb = circular_buffer d in
      do { h \<leftarrow> (if full cb
                 then do { e \<leftarrow> entry_at cb (ucast (in_offs cb)); free_block (kheap s) (buffptr e) }
                 else Some (kheap s));
           cb' \<leftarrow> aesd_circular_buffer_add_entry cb (current_entry d);
           Some (s\<lparr>kheap := h,
                   aesd_device := d\<lparr>circular_buffer := cb', current_entry := zero_entry\<rparr>\<rparr>) })"

text \<open>
  The allocated block \<open>temp\<close> takes over the bytes of the unfinished command, which is freed.
\<close>

definition write_extend :: "kstate \<Rightarrow> addr \<Rightarrow> kstate option" where
  "write_extend s temp =
     (let d = aesd_device s; cur = current_entry d in
      do { h \<leftarrow> (case buffptr cur of
                  None \<Rightarrow> Some (kheap s)
                | Some old \<Rightarrow> do { h \<leftarrow> memcpy (kheap s) temp old (unat (entry_size cur));
                                   free_block h (Some old) });
           Some (s\<lparr>kheap := h,
                   aesd_device := d\<lparr>current_entry := cur\<lparr>buffptr := Some temp\<rparr>\<rparr>\<rparr>) })"

definition aesd_write ::
    "kernel \<Rightarrow> kfile \<Rightarrow> byte list \<Rightarrow> size_t \<Rightarrow> kstate \<Rightarrow> (ssize_t \<times> kstate) option" where
  "aesd_write K filp buf count s =
     do { _ \<leftarrow> private_data filp;
          (err, s) \<leftarrow> mutex_lock_interruptible K s;
          if err \<noteq> 0 then Some (scast err, s)
          else let size = entry_size (current_entry (aesd_device s)) in
            case kmalloc K (kheap s) (size + count) of
              None \<Rightarrow> do { s \<leftarrow> mutex_unlock s; Some (- ENOMEM, s) }
            | Some (temp, junk) \<Rightarrow> do {
                s \<leftarrow> write_extend (s\<lparr>kheap := (kheap s)(temp \<mapsto> junk)\<rparr>) temp;
                let (landed, left) = copy_from_user K buf count;
                h \<leftarrow> store_bytes (kheap s) temp (unat size) landed;
                let s = s\<lparr>kheap := h\<rparr>;
                let err = (ucast left :: c_int);
                if err \<noteq> 0 then do { s \<leftarrow> mutex_unlock s; Some (scast err, s) }
                else do {
                  let d = aesd_device s;
                  let cur = (current_entry d)\<lparr>entry_size := size + count\<rparr>;
                  let s = s\<lparr>aesd_device := d\<lparr>current_entry := cur\<rparr>\<rparr>;
                  c \<leftarrow> load_byte (kheap s) temp (unat (size + count - 1));
                  s \<leftarrow> (if c = newline then write_commit s else Some s);
                  s \<leftarrow> mutex_unlock s;
                  Some (count, s) } } }"

text \<open>
  The number of entries in use, computed in the same words by \<open>aesd_llseek\<close> and
  \<open>aesd_unlocked_ioctl\<close>.
\<close>

definition num_entries :: "aesd_circular_buffer \<Rightarrow> ssize_t" where
  "num_entries cb =
     (if full cb then AESDCHAR_MAX_WRITE_OPERATIONS_SUPPORTED
      else let n = ucast (in_offs cb) - ucast (out_offs cb) in
           if sint n < 0 then n + AESDCHAR_MAX_WRITE_OPERATIONS_SUPPORTED else n)"

text \<open>
  The loop of both that adds the sizes of \<open>n\<close> entries from an index on, with the index that
  follows them.
\<close>

fun add_sizes :: "aesd_circular_buffer \<Rightarrow> nat \<Rightarrow> ssize_t \<Rightarrow> c_long \<Rightarrow> (ssize_t \<times> c_long) option" where
  "add_sizes cb 0 current_index acc = Some (current_index, acc)"
| "add_sizes cb (Suc n) current_index acc =
     do { e \<leftarrow> entry_at cb current_index;
          let next = current_index + 1;
          let next = (if AESDCHAR_MAX_WRITE_OPERATIONS_SUPPORTED \<le> sint next then 0 else next);
          add_sizes cb n next (acc + entry_size e) }"

definition aesd_llseek ::
    "kernel \<Rightarrow> kfile \<Rightarrow> loff_t \<Rightarrow> c_int \<Rightarrow> kstate \<Rightarrow> (loff_t \<times> kfile \<times> kstate) option" where
  "aesd_llseek K filp offset whence s =
     do { _ \<leftarrow> private_data filp;
          (retval, s) \<leftarrow> mutex_lock_interruptible K s;
          if retval \<noteq> 0 then Some (- EINVAL, filp, s)
          else do {
            let cb = circular_buffer (aesd_device s);
            newpos \<leftarrow> (if whence = SEEK_SET then Some (Some offset)
                       else if whence = SEEK_CUR then Some (Some (f_pos filp + offset))
                       else if whence = SEEK_END
                       then do { (_, buffer_size) \<leftarrow>
                                   add_sizes cb (nat (sint (num_entries cb))) (ucast (out_offs cb)) 0;
                                 Some (Some (buffer_size + offset)) }
                       else Some None);
            s \<leftarrow> mutex_unlock s;
            case newpos of
              None \<Rightarrow> Some (- EINVAL, filp, s)
            | Some p \<Rightarrow> if sint p < 0 then Some (- EINVAL, filp, s)
                         else Some (p, filp\<lparr>f_pos := p\<rparr>, s) } }"

definition aesd_unlocked_ioctl ::
    "kernel \<Rightarrow> kfile \<Rightarrow> uint32_t \<Rightarrow> aesd_seekto \<Rightarrow> kstate \<Rightarrow> (c_long \<times> kfile \<times> kstate) option" where
  "aesd_unlocked_ioctl K filp cmd arg s =
     do { _ \<leftarrow> private_data filp;
          (retval, s) \<leftarrow> mutex_lock_interruptible K s;
          if retval \<noteq> 0 then Some (- EINVAL, filp, s)
          else if cmd = AESDCHAR_IOCSEEKTO
          then do {
            let cb = circular_buffer (aesd_device s);
            let (seekto, left) = copy_seekto_from_user K arg;
            if left \<noteq> 0 \<or> sint (num_entries cb) \<le> uint (write_cmd seekto)
            then do { s \<leftarrow> mutex_unlock s; Some (- EINVAL, filp, s) }
            else do {
              (current_index, newpos) \<leftarrow>
                add_sizes cb (unat (write_cmd seekto)) (ucast (out_offs cb)) 0;
              e \<leftarrow> entry_at cb current_index;
              if entry_size e \<le> ucast (write_cmd_offset seekto)
              then do { s \<leftarrow> mutex_unlock s; Some (- EINVAL, filp, s) }
              else do {
                let newpos = newpos + ucast (write_cmd_offset seekto);
                s \<leftarrow> mutex_unlock s;
                Some (newpos, filp\<lparr>f_pos := newpos\<rparr>, s) } } }
          else do { s \<leftarrow> mutex_unlock s; Some (- EINVAL, filp, s) } }"

section \<open>Module initialisation and removal\<close>

definition MKDEV :: "uint32_t \<Rightarrow> uint32_t \<Rightarrow> uint32_t" where
  "MKDEV major minor = push_bit 20 major OR minor"

definition MAJOR :: "uint32_t \<Rightarrow> uint32_t" where
  "MAJOR dev = drop_bit 20 dev"

definition aesd_minor :: uint32_t where
  "aesd_minor = 0"

definition unregister_chrdev_region :: "uint32_t \<Rightarrow> kstate \<Rightarrow> kstate" where
  "unregister_chrdev_region dev s =
     (if chrdev_region s = Some dev then s\<lparr>chrdev_region := None\<rparr> else s)"

definition aesd_setup_cdev :: "kernel \<Rightarrow> kstate \<Rightarrow> c_int \<times> kstate" where
  "aesd_setup_cdev K s =
     (let err = cdev_add_rc K in (err, if err = 0 then s\<lparr>cdev_live := True\<rparr> else s))"

definition zero_dev :: aesd_dev where
  "zero_dev = \<lparr>circular_buffer = aesd_circular_buffer_init, current_entry = zero_entry,
               device_mutex = False\<rparr>"

definition aesd_init_module :: "kernel \<Rightarrow> kstate \<Rightarrow> c_int \<times> kstate" where
  "aesd_init_module K s =
     (let result = chrdev_rc K;
          dev = (if sint result < 0 then 0 else chrdev_dev K);
          s1 = s\<lparr>aesd_major := MAJOR dev\<rparr> in
      if sint result < 0 then (result, s1)
      else let s2 = s1\<lparr>chrdev_region := Some dev, aesd_device := zero_dev\<rparr>;
               s3 = s2\<lparr>aesd_device := (aesd_device s2)\<lparr>circular_buffer := aesd_circular_buffer_init\<rparr>\<rparr>;
               (result, s4) = aesd_setup_cdev K s3
           in (result, if result \<noteq> 0 then unregister_chrdev_region dev s4 else s4))"

text \<open>The body of the loop of \<open>aesd_cleanup_module\<close>.\<close>

definition free_entry :: "aesd_buffer_entry \<Rightarrow> heap \<Rightarrow> heap option" where
  "free_entry e h = (if buffptr e \<noteq> NULL then free_block h (buffptr e) else Some h)"

definition aesd_cleanup_module :: "kstate \<Rightarrow> kstate option" where
  "aesd_cleanup_module s =
     (let devno = MKDEV (aesd_major s) aesd_minor;
          s1 = s\<lparr>cdev_live := False\<rparr>;
          d = aesd_device s1 in
      do { h \<leftarrow> AESD_CIRCULAR_BUFFER_FOREACH free_entry (circular_buffer d) (kheap s1);
           h \<leftarrow> free_block h (buffptr (current_entry d));
           Some (unregister_chrdev_region devno (s1\<lparr>kheap := h\<rparr>)) })"

end
