(* ===== verification/Connection_Thread.thy ===== *)
theory Connection_Thread
  imports C_String Aesd_Char
begin

text \<open>
  The thread that serves one connection (\<open>server/connection_thread.c\<close>): it receives a message,
  passes it to the character device as a write or as a seek command, and sends the contents of the
  device back.

  The system calls are arguments of the definitions, a record of functions on the state \<open>'w\<close> of
  the world outside the thread. A system call that does not return, or that the thread calls
  with undefined behaviour, gives \<open>None\<close>. The two buffers are the arrays of
  \<open>connection_thread\<close>, threaded through the calls; log output is left out.
\<close>

section \<open>Data\<close>

definition BUFFER_SIZE :: nat where
  "BUFFER_SIZE = 1024"

record sockaddr_in =
  sin_port :: "16 word"
  sin_addr :: uint32_t

record connection_thread_args =
  file_mutex :: addr
  client_fd :: c_int
  client_addr :: sockaddr_in
  client_len :: uint32_t
  thread_complete_success :: bool
  thread_complete :: bool

text \<open>
  The system calls: the result that the C library returns, the bytes that land in the buffer of a
  \<open>recv\<close> or a \<open>read\<close>, and the state of the world after the call.
\<close>

record 'w env =
  sys_recv :: "c_int \<Rightarrow> nat \<Rightarrow> 'w \<Rightarrow> (ssize_t \<times> byte list \<times> 'w) option"
  sys_send :: "c_int \<Rightarrow> byte list \<Rightarrow> 'w \<Rightarrow> (ssize_t \<times> 'w) option"
  sys_open :: "'w \<Rightarrow> (c_int \<times> 'w) option"
  sys_read :: "c_int \<Rightarrow> nat \<Rightarrow> 'w \<Rightarrow> (ssize_t \<times> byte list \<times> 'w) option"
  sys_write :: "c_int \<Rightarrow> byte list \<Rightarrow> 'w \<Rightarrow> (ssize_t \<times> 'w) option"
  sys_ioctl :: "c_int \<Rightarrow> uint32_t \<Rightarrow> aesd_seekto \<Rightarrow> 'w \<Rightarrow> (c_int \<times> 'w) option"
  sys_close :: "c_int \<Rightarrow> 'w \<Rightarrow> 'w option"
  pthread_mutex_lock :: "addr \<Rightarrow> 'w \<Rightarrow> (c_int \<times> 'w) option"
  pthread_mutex_unlock :: "addr \<Rightarrow> 'w \<Rightarrow> (c_int \<times> 'w) option"

text \<open>Bytes that land at the start of an array, and the first bytes of an array.\<close>

definition fill :: "byte list \<Rightarrow> byte list \<Rightarrow> byte list option" where
  "fill buf bs = (if length bs \<le> length buf then Some (bs @ drop (length bs) buf) else None)"

definition first_bytes :: "byte list \<Rightarrow> nat \<Rightarrow> byte list option" where
  "first_bytes buf n = (if n \<le> length buf then Some (take n buf) else None)"

section \<open>Locking\<close>

text \<open>A failure of either call is logged and otherwise ignored.\<close>

definition lock_mutex :: "'w env \<Rightarrow> addr \<Rightarrow> 'w \<Rightarrow> 'w option" where
  "lock_mutex E m w = do { (rc, w) \<leftarrow> pthread_mutex_lock E m w; Some w }"

definition unlock_mutex :: "'w env \<Rightarrow> addr \<Rightarrow> 'w \<Rightarrow> 'w option" where
  "unlock_mutex E m w = do { (rc, w) \<leftarrow> pthread_mutex_unlock E m w; Some w }"

section \<open>Recognising a seek command\<close>

text \<open>The characters \<open>:\<close>, \<open>,\<close> and newline are the bytes 58, 44 and 10.\<close>

definition check_for_ioctl_command ::
    "aesd_seekto \<Rightarrow> byte list \<Rightarrow> ssize_t \<Rightarrow> (c_int \<times> aesd_seekto) option" where
  "check_for_ioctl_command seekto recv_buffer received_size =
     do { r \<leftarrow> strchr recv_buffer 0 58;
          case r of None \<Rightarrow> Some (- 1, seekto)
          | Some first_num_start \<Rightarrow> do {
              r \<leftarrow> strchr recv_buffer first_num_start 44;
              case r of None \<Rightarrow> Some (- 1, seekto)
              | Some first_num_end \<Rightarrow> do {
                  r \<leftarrow> strchr recv_buffer first_num_end newline;
                  case r of None \<Rightarrow> Some (- 1, seekto)
                  | Some second_num_end \<Rightarrow> do {
                      let num_size = first_num_end - first_num_start - 1;
                      first_num_str \<leftarrow>
                        strncpy (replicate 10 0) (drop (first_num_start + 1) recv_buffer) num_size;
                      n \<leftarrow> atoi first_num_str;
                      let seekto = seekto\<lparr>write_cmd := n\<rparr>;
                      let num_size = second_num_end - first_num_end - 1;
                      second_num_str \<leftarrow>
                        strncpy (replicate 10 0) (drop (first_num_end + 1) recv_buffer) num_size;
                      n \<leftarrow> atoi second_num_str;
                      let seekto = seekto\<lparr>write_cmd_offset := n\<rparr>;
                      Some (0, seekto) } } } }"

section \<open>Receiving\<close>

text \<open>
  One round of the loop of \<open>recv_messages\<close>: \<open>Inl\<close> is its \<open>return -1\<close>, \<open>Inr\<close> the size received
  by a round that goes through.
\<close>

definition recv_round ::
    "'w env \<Rightarrow> byte list \<Rightarrow> c_int \<Rightarrow> c_int \<Rightarrow> 'w \<Rightarrow> ((c_int + ssize_t) \<times> byte list \<times> 'w) option" where
  "recv_round E recv_buffer cl_fd output_fd w =
     do { let recv_buffer = replicate BUFFER_SIZE 0 @ drop BUFFER_SIZE recv_buffer;
          (received_size, bs, w) \<leftarrow> sys_recv E cl_fd BUFFER_SIZE w;
          recv_buffer \<leftarrow> fill recv_buffer bs;
          if received_size = 0 then Some (Inl (- 1), recv_buffer, w)
          else if sint received_size < 0 then Some (Inl (- 1), recv_buffer, w)
          else do {
            ptr \<leftarrow> memchr recv_buffer newline (unat received_size);
            let index = (case ptr of Some i \<Rightarrow> (of_nat i :: c_int) | None \<Rightarrow> ucast (received_size - 1));
            (is_ioctl, seekto) \<leftarrow>
              check_for_ioctl_command \<lparr>write_cmd = 0, write_cmd_offset = 0\<rparr> recv_buffer received_size;
            if is_ioctl = 0
            then do {
              (rc, w) \<leftarrow> sys_ioctl E output_fd AESDCHAR_IOCSEEKTO seekto w;
              if sint rc < 0 then Some (Inl (- 1), recv_buffer, w)
              else Some (Inr received_size, recv_buffer, w) }
            else do {
              bs \<leftarrow> first_bytes recv_buffer (unat (scast (index + 1) :: size_t));
              (ret, w) \<leftarrow> sys_write E output_fd bs w;
              let write_return = (ucast ret :: c_int);
              if write_return = - 1 then Some (Inl (- 1), recv_buffer, w)
              else Some (Inr received_size, recv_buffer, w) } } }"

partial_function (option) recv_messages ::
    "'w env \<Rightarrow> byte list \<Rightarrow> c_int \<Rightarrow> c_int \<Rightarrow> 'w \<Rightarrow> (c_int \<times> byte list \<times> 'w) option" where
  "recv_messages E recv_buffer cl_fd output_fd w =
     do { (r, recv_buffer, w) \<leftarrow> recv_round E recv_buffer cl_fd output_fd w;
          case r of
            Inl rc \<Rightarrow> Some (rc, recv_buffer, w)
          | Inr received_size \<Rightarrow>
              (if int BUFFER_SIZE \<le> sint received_size
               then recv_messages E recv_buffer cl_fd output_fd w
               else Some (0, recv_buffer, w)) }"

section \<open>Sending\<close>

text \<open>
  The inner loop of \<open>send_messages\<close>: \<open>Inl\<close> is its \<open>return -1\<close>, \<open>Inr\<close> the number of bytes of the
  read that ended the loop.
\<close>

partial_function (option) send_burst ::
    "'w env \<Rightarrow> byte list \<Rightarrow> c_int \<Rightarrow> c_int \<Rightarrow> 'w \<Rightarrow> ((c_int + c_int) \<times> byte list \<times> 'w) option" where
  "send_burst E send_buffer cl_fd output_fd w =
     do { (ret, bs, w) \<leftarrow> sys_read E output_fd BUFFER_SIZE w;
          send_buffer \<leftarrow> fill send_buffer bs;
          let bytes_read = (ucast ret :: c_int);
          if sint bytes_read < 0 then Some (Inl (- 1), send_buffer, w)
          else do {
            bs \<leftarrow> first_bytes send_buffer (unat bytes_read);
            (ret, w) \<leftarrow> sys_send E cl_fd bs w;
            let sent_bytes = (ucast ret :: c_int);
            if sint sent_bytes < 0 then Some (Inl (- 1), send_buffer, w)
            else if int BUFFER_SIZE \<le> sint bytes_read
            then send_burst E send_buffer cl_fd output_fd w
            else Some (Inr bytes_read, send_buffer, w) } }"

partial_function (option) send_loop ::
    "'w env \<Rightarrow> byte list \<Rightarrow> c_int \<Rightarrow> c_int \<Rightarrow> c_int \<Rightarrow> 'w \<Rightarrow> (c_int \<times> byte list \<times> 'w) option" where
  "send_loop E send_buffer cl_fd output_fd bytes_read w =
     (if 0 < sint bytes_read
      then do { (r, send_buffer, w) \<leftarrow> send_burst E send_buffer cl_fd output_fd w;
                case r of
                  Inl rc \<Rightarrow> Some (rc, send_buffer, w)
                | Inr bytes_read \<Rightarrow> send_loop E send_buffer cl_fd output_fd bytes_read w }
      else Some (0, send_buffer, w))"

definition send_messages ::
    "'w env \<Rightarrow> byte list \<Rightarrow> c_int \<Rightarrow> c_int \<Rightarrow> 'w \<Rightarrow> (c_int \<times> byte list \<times> 'w) option" where
  "send_messages E send_buffer cl_fd output_fd w =
     send_loop E send_buffer cl_fd output_fd (of_nat BUFFER_SIZE) w"

section \<open>The thread\<close>

text \<open>
  The end of the thread after a failed \<open>recv_messages\<close> or \<open>send_messages\<close>.
\<close>

definition connection_failed ::
    "'w env \<Rightarrow> c_int \<Rightarrow> connection_thread_args \<Rightarrow> 'w \<Rightarrow> (connection_thread_args \<times> 'w) option" where
  "connection_failed E output_fd connection_data w =
     do { w \<leftarrow> sys_close E (client_fd connection_data) w;
          let connection_data = connection_data\<lparr>thread_complete_success := False\<rparr>;
          let connection_data = connection_data\<lparr>thread_complete := True\<rparr>;
          w \<leftarrow> sys_close E output_fd w;
          w \<leftarrow> unlock_mutex E (file_mutex connection_data) w;
          Some (connection_data, w) }"

text \<open>The bytes of the two arrays on the stack are arguments: they start uninitialised.\<close>

definition connection_thread ::
    "'w env \<Rightarrow> byte list \<Rightarrow> byte list \<Rightarrow> connection_thread_args \<Rightarrow> 'w \<Rightarrow>
     (connection_thread_args \<times> 'w) option" where
  "connection_thread E recv_buffer send_buffer connection_data w =
     do { let connection_data = connection_data\<lparr>thread_complete := False\<rparr>;
          w \<leftarrow> lock_mutex E (file_mutex connection_data) w;
          (output_fd, w) \<leftarrow> sys_open E w;
          if sint output_fd < 0
          then do { w \<leftarrow> unlock_mutex E (file_mutex connection_data) w; Some (connection_data, w) }
          else do {
            (rc, recv_buffer, w) \<leftarrow> recv_messages E recv_buffer (client_fd connection_data) output_fd w;
            if rc = - 1 then connection_failed E output_fd connection_data w
            else do {
              (rc, send_buffer, w) \<leftarrow> send_messages E send_buffer (client_fd connection_data) output_fd w;
              if rc = - 1 then connection_failed E output_fd connection_data w
              else do {
                w \<leftarrow> sys_close E output_fd w;
                w \<leftarrow> unlock_mutex E (file_mutex connection_data) w;
                w \<leftarrow> sys_close E (client_fd connection_data) w;
                let connection_data = connection_data\<lparr>thread_complete_success := True\<rparr>;
                let connection_data = connection_data\<lparr>thread_complete := True\<rparr>;
                Some (connection_data, w) } } } }"

end
