(* ===== verification/Seek_Command.thy ===== *)
theory Seek_Command
  imports Connection_Thread
begin

text \<open>
  What \<open>check_for_ioctl_command\<close> recognises. The reference definition \<open>seek_fields\<close> cuts a string
  at its first \<open>:\<close>, at the first \<open>,\<close> after it and at the first newline after that; the
  function agrees with it on every terminated string, and each of the two numbers is converted from
  an array of ten bytes, which bounds the length of the fields. An array without a terminator is
  read past its end unless the three marks are in it.
\<close>

section \<open>The reference\<close>

definition seek_fields :: "byte list \<Rightarrow> (byte list \<times> byte list) option" where
  "seek_fields str =
     (case dropWhile (\<lambda>b. b \<noteq> 58) str of [] \<Rightarrow> None
      | _ # r \<Rightarrow>
          (case dropWhile (\<lambda>b. b \<noteq> 44) r of [] \<Rightarrow> None
           | _ # q \<Rightarrow>
               if newline \<in> set q
               then Some (takeWhile (\<lambda>b. b \<noteq> 44) r, takeWhile (\<lambda>b. b \<noteq> newline) q) else None))"

definition field_number :: "byte list \<Rightarrow> c_int option" where
  "field_number f = (if length f \<le> 10 then atoi (f @ replicate (10 - length f) 0) else None)"

definition parse_seek :: "aesd_seekto \<Rightarrow> byte list \<Rightarrow> (c_int \<times> aesd_seekto) option" where
  "parse_seek sk str =
     (case seek_fields str of
        None \<Rightarrow> Some (- 1, sk)
      | Some (x, y) \<Rightarrow> do { n \<leftarrow> field_number x; m \<leftarrow> field_number y;
                            Some (0, sk\<lparr>write_cmd := n, write_cmd_offset := m\<rparr>) })"

text \<open>The command a client sends to move to byte \<open>y\<close> of command \<open>x\<close>.\<close>

definition seek_message :: "nat \<Rightarrow> nat \<Rightarrow> byte list" where
  "seek_message x y =
     map (of_nat \<circ> of_char) ''AESDCHAR_IOCSEEKTO:'' @ decimal x @ [44] @ decimal y @ [newline]"

section \<open>Searching a terminated string\<close>

lemma split_at_first:
  assumes "c \<in> set s"
  obtains pre post where "s = pre @ c # post" and "c \<notin> set pre" and "takeWhile (\<lambda>b. b \<noteq> c) s = pre"
    and "dropWhile (\<lambda>b. b \<noteq> c) s = c # post"
proof -
  obtain pre post where s: "s = pre @ c # post" "c \<notin> set pre" using split_list_first [OF assms] by blast
  have "takeWhile (\<lambda>b. b \<noteq> c) s = pre \<and> dropWhile (\<lambda>b. b \<noteq> c) s = c # post"
    using s(2) unfolding s(1) by (induction pre) auto
  with s show thesis using that by blast
qed

lemma dropWhile_absent: "c \<notin> set s \<Longrightarrow> dropWhile (\<lambda>b. b \<noteq> c) s = []"
  by (auto simp: dropWhile_eq_Nil_conv)

lemma strchr_split:
  assumes "drop i s = pre @ c # post" and "c \<notin> set pre" and "0 \<notin> set pre"
  shows "strchr s i c = Some (Some (i + length pre))"
  using assms by (simp add: strchr_def strchr_from_first)

lemma strchr_missing:
  assumes "drop i s = pre @ 0 # post" and "c \<notin> set pre" and "c \<noteq> 0"
  shows "strchr s i c = Some None"
  using assms by (simp add: strchr_def strchr_from_absent)

text \<open>A field is copied into ten zero bytes.\<close>

lemma strncpy_field:
  assumes "0 \<notin> set f"
  shows "strncpy (replicate 10 0) (f @ s) (length f) =
    (if length f \<le> 10 then Some (f @ replicate (10 - length f) 0) else None)"
  using assms by (simp add: strncpy_fits strncpy_overflow)

section \<open>The function and the reference agree\<close>

lemma check_three_marks:
  assumes buf: "buf = a @ 58 # x @ 44 # y @ newline # z"
    and marks: "58 \<notin> set a" "44 \<notin> set x" "newline \<notin> set y"
    and zero: "0 \<notin> set a" "0 \<notin> set x" "0 \<notin> set y"
  shows "check_for_ioctl_command sk buf n =
    do { n \<leftarrow> field_number x; m \<leftarrow> field_number y;
         Some (0, sk\<lparr>write_cmd := n, write_cmd_offset := m\<rparr>) }"
proof -
  let ?i = "length a" and ?j = "Suc (length a + length x)"
  have 1: "strchr buf 0 58 = Some (Some ?i)"
    using strchr_split [of 0 buf a 58] marks zero buf by simp
  have 2: "strchr buf ?i 44 = Some (Some ?j)"
    using strchr_split [of ?i buf "58 # x" 44] marks zero buf by simp
  have "drop ?j buf = 44 # y @ newline # z"
    using buf by (simp add: append_assoc [symmetric] del: append_assoc)
  then have 3: "strchr buf ?j newline = Some (Some (Suc (?j + length y)))"
    and d2: "drop (Suc ?j) buf = y @ newline # z"
    using strchr_split [of ?j buf "44 # y" newline] marks zero
    by (simp, metis drop_Suc list.sel(3) tl_drop)
  have d1: "drop (Suc ?i) buf = x @ 44 # y @ newline # z" using buf by simp
  have "check_for_ioctl_command sk buf n =
    do { s1 \<leftarrow> strncpy (replicate 10 0) (x @ 44 # y @ newline # z) (length x); n \<leftarrow> atoi s1;
         s2 \<leftarrow> strncpy (replicate 10 0) (y @ newline # z) (length y); m \<leftarrow> atoi s2;
         Some (0, sk\<lparr>write_cmd := n, write_cmd_offset := m\<rparr>) }"
    by (simp add: check_for_ioctl_command_def 1 2 3 d1 d2)
  then show ?thesis using zero by (simp add: strncpy_field field_number_def)
qed

lemma check_terminated:
  assumes "0 \<notin> set str"
  shows "check_for_ioctl_command sk (str @ 0 # z) n = parse_seek sk str"
proof (cases "58 \<in> set str")
  case False
  then show ?thesis
    using strchr_missing [of 0 "str @ 0 # z" str z 58]
    by (simp add: check_for_ioctl_command_def parse_seek_def seek_fields_def dropWhile_absent)
next
  case True
  then obtain a r where s: "str = a @ 58 # r" and a: "58 \<notin> set a"
    and dw: "dropWhile (\<lambda>b. b \<noteq> 58) str = 58 # r" by (rule split_at_first)
  have 1: "strchr (str @ 0 # z) 0 58 = Some (Some (length a))"
    using strchr_split [of 0 "str @ 0 # z" a 58] s a assms by simp
  show ?thesis
  proof (cases "44 \<in> set r")
    case False
    then have "strchr (str @ 0 # z) (length a) 44 = Some None"
      using strchr_missing [of "length a" "str @ 0 # z" "58 # r" z 44] s by simp
    with False show ?thesis
      by (simp add: check_for_ioctl_command_def parse_seek_def seek_fields_def dw 1 dropWhile_absent)
  next
    case True
    then obtain x q where r: "r = x @ 44 # q" and x: "44 \<notin> set x"
      and tw: "takeWhile (\<lambda>b. b \<noteq> 44) r = x" and dw2: "dropWhile (\<lambda>b. b \<noteq> 44) r = 44 # q"
      by (rule split_at_first)
    have 2: "strchr (str @ 0 # z) (length a) 44 = Some (Some (length a + Suc (length x)))"
      using strchr_split [of "length a" "str @ 0 # z" "58 # x" 44] s r x assms by simp
    show ?thesis
    proof (cases "newline \<in> set q")
      case False
      have "drop (length a + Suc (length x)) (str @ 0 # z) = (44 # q) @ 0 # z"
        using s r by (simp add: append_assoc [symmetric] del: append_assoc)
      with False show ?thesis
        using strchr_missing [of "length a + Suc (length x)" "str @ 0 # z" "44 # q" z newline]
        by (simp add: check_for_ioctl_command_def parse_seek_def seek_fields_def dw dw2 1 2)
    next
      case True
      then obtain y t where q: "q = y @ newline # t" and y: "newline \<notin> set y"
        and tw2: "takeWhile (\<lambda>b. b \<noteq> newline) q = y" by (rule split_at_first)
      have "check_for_ioctl_command sk (str @ 0 # z) n =
        do { n \<leftarrow> field_number x; m \<leftarrow> field_number y;
             Some (0, sk\<lparr>write_cmd := n, write_cmd_offset := m\<rparr>) }"
        by (rule check_three_marks [of _ a x y "t @ 0 # z"]) (use s r q a x y assms in auto)
      with True show ?thesis by (simp add: parse_seek_def seek_fields_def dw dw2 tw tw2)
    qed
  qed
qed

section \<open>Consequences\<close>

lemma seek_prefix:
  "(58 :: byte) \<notin> set (map (of_nat \<circ> of_char) ''AESDCHAR_IOCSEEKTO'')"
  "(0 :: byte) \<notin> set (map (of_nat \<circ> of_char) ''AESDCHAR_IOCSEEKTO'')"
  "(of_nat \<circ> of_char) (CHR '':'') = (58 :: byte)"
  by simp_all

lemma seek_message_marks:
  "seek_message x y =
     map (of_nat \<circ> of_char) ''AESDCHAR_IOCSEEKTO'' @ 58 # decimal x @ 44 # decimal y @ [newline]"
  by (simp add: seek_message_def)

lemma field_number_decimal:
  assumes "n < 10 ^ 9"
  shows "field_number (decimal n) = Some (of_nat n)"
proof -
  have len: "length (decimal n) \<le> 9" using length_decimal [OF assms] by simp
  then obtain k where "10 - length (decimal n) = Suc k" by (cases "10 - length (decimal n)") simp_all
  with atoi_decimal [of n "replicate k 0"] assms len show ?thesis by (simp add: field_number_def)
qed

lemma decimal_marks: "0 \<notin> set (decimal n)" "44 \<notin> set (decimal n)" "newline \<notin> set (decimal n)"
  using decimal_bytes(3) [of _ n] by blast+

lemma zero_notin_seek_message: "0 \<notin> set (seek_message x y)"
  using seek_prefix(2) decimal_marks(1) by (simp add: seek_message_marks del: list.map)

lemma seek_message_newline:
  "\<exists>pre. seek_message x y = pre @ [newline] \<and> newline \<notin> set pre"
proof -
  have "seek_message x y = (map (of_nat \<circ> of_char) ''AESDCHAR_IOCSEEKTO'' @ 58 # decimal x @ 44 # decimal y) @ [newline]"
    by (simp add: seek_message_marks del: list.map)
  moreover have "newline \<notin> set (map (of_nat \<circ> of_char) ''AESDCHAR_IOCSEEKTO'' @ 58 # decimal x @ 44 # decimal y)"
    using decimal_marks(3) by simp
  ultimately show ?thesis by blast
qed

lemma length_seek_message:
  assumes "x < 10 ^ 9" and "y < 10 ^ 9"
  shows "length (seek_message x y) < 1024"
  using length_decimal [OF assms(1)] length_decimal [OF assms(2)] by (simp add: seek_message_def)

lemma parse_seek_message:
  assumes "x < 10 ^ 9" and "y < 10 ^ 9"
  shows "parse_seek sk (seek_message x y) =
    Some (0, sk\<lparr>write_cmd := of_nat x, write_cmd_offset := of_nat y\<rparr>)"
proof -
  have "parse_seek sk (seek_message x y) = check_for_ioctl_command sk (seek_message x y @ [0]) 0"
    using check_terminated [OF zero_notin_seek_message] by simp
  also have "\<dots> = do { n \<leftarrow> field_number (decimal x); m \<leftarrow> field_number (decimal y);
         Some (0, sk\<lparr>write_cmd := n, write_cmd_offset := m\<rparr>) }"
    by (rule check_three_marks [of _ "map (of_nat \<circ> of_char) ''AESDCHAR_IOCSEEKTO''" _ _ "[0]"])
      (use seek_prefix decimal_marks in \<open>simp_all add: seek_message_marks del: list.map\<close>)
  finally show ?thesis using assms by (simp add: field_number_decimal)
qed

text \<open>Fields of at most nine bytes are safe, longer ones than ten overflow the array.\<close>

lemma field_number_short: "length f \<le> 9 \<Longrightarrow> \<exists>n. field_number f = Some n"
proof -
  assume len: "length f \<le> 9"
  then obtain k where "10 - length f = Suc k" by (cases "10 - length f") simp_all
  with atoi_total [OF len, of "replicate k 0"] len show ?thesis by (simp add: field_number_def)
qed

lemma field_number_long: "10 < length f \<Longrightarrow> field_number f = None"
  by (simp add: field_number_def)

lemma field_number_ten_digits:
  "length f = 10 \<Longrightarrow> (\<And>b. b \<in> set f \<Longrightarrow> isdigit b) \<Longrightarrow> field_number f = None"
  using atoi_overrun [of f] by (cases f) (auto simp: field_number_def)

section \<open>Arrays without a terminator\<close>

text \<open>
  A search that meets neither its byte nor a terminator runs off the end of the array. So an array
  without a zero byte is safe exactly when all three marks are in it.
\<close>

definition scan_seek :: "aesd_seekto \<Rightarrow> byte list \<Rightarrow> (c_int \<times> aesd_seekto) option" where
  "scan_seek sk buf =
     (let str = takeWhile (\<lambda>b. b \<noteq> 0) buf in
      if 0 \<notin> set buf \<and> seek_fields str = None then None else parse_seek sk str)"

lemma check_unterminated:
  assumes zero: "0 \<notin> set buf"
  shows "check_for_ioctl_command sk buf n = (if seek_fields buf = None then None else parse_seek sk buf)"
proof (cases "58 \<in> set buf")
  case False
  then show ?thesis using zero
    by (simp add: check_for_ioctl_command_def strchr_overrun seek_fields_def dropWhile_absent)
next
  case True
  then obtain a r where s: "buf = a @ 58 # r" and a: "58 \<notin> set a"
    and dw: "dropWhile (\<lambda>b. b \<noteq> 58) buf = 58 # r" by (rule split_at_first)
  have 1: "strchr buf 0 58 = Some (Some (length a))"
    using strchr_split [of 0 buf a 58] s a zero by simp
  show ?thesis
  proof (cases "44 \<in> set r")
    case False
    then have "strchr buf (length a) 44 = None" using s zero by (intro strchr_overrun) simp_all
    with False show ?thesis by (simp add: check_for_ioctl_command_def seek_fields_def dw 1 dropWhile_absent)
  next
    case True
    then obtain x q where r: "r = x @ 44 # q" and x: "44 \<notin> set x"
      and tw: "takeWhile (\<lambda>b. b \<noteq> 44) r = x" and dw2: "dropWhile (\<lambda>b. b \<noteq> 44) r = 44 # q"
      by (rule split_at_first)
    have 2: "strchr buf (length a) 44 = Some (Some (length a + Suc (length x)))"
      using strchr_split [of "length a" buf "58 # x" 44] s r x zero by simp
    show ?thesis
    proof (cases "newline \<in> set q")
      case False
      have "drop (length a + Suc (length x)) buf = 44 # q"
        using s r by (simp add: append_assoc [symmetric] del: append_assoc)
      then have "strchr buf (length a + Suc (length x)) newline = None"
        using False zero s r by (intro strchr_overrun) simp_all
      with False show ?thesis by (simp add: check_for_ioctl_command_def seek_fields_def dw dw2 1 2)
    next
      case True
      then obtain y t where q: "q = y @ newline # t" and y: "newline \<notin> set y"
        and tw2: "takeWhile (\<lambda>b. b \<noteq> newline) q = y" by (rule split_at_first)
      have "check_for_ioctl_command sk buf n =
        do { n \<leftarrow> field_number x; m \<leftarrow> field_number y;
             Some (0, sk\<lparr>write_cmd := n, write_cmd_offset := m\<rparr>) }"
        by (rule check_three_marks [of _ a x y t]) (use s r q a x y zero in auto)
      with True show ?thesis by (simp add: parse_seek_def seek_fields_def dw dw2 tw tw2)
    qed
  qed
qed

lemma takeWhile_absent: "c \<notin> set s \<Longrightarrow> takeWhile (\<lambda>b. b \<noteq> c) s = s"
  by (induction s) auto

text \<open>The function on any array.\<close>

lemma check_scan: "check_for_ioctl_command sk buf n = scan_seek sk buf"
proof (cases "0 \<in> set buf")
  case True
  then obtain pre post where buf: "buf = pre @ 0 # post" and pre: "0 \<notin> set pre"
    and tw: "takeWhile (\<lambda>b. b \<noteq> 0) buf = pre" by (rule split_at_first)
  with True check_terminated [OF pre, of sk post n] show ?thesis by (simp add: scan_seek_def)
next
  case False
  with check_unterminated [OF False] show ?thesis by (simp add: scan_seek_def takeWhile_absent Let_def)
qed

text \<open>
  The two ways in which the function has no result: a search runs off an array without a
  terminator, or one of the two fields that it cuts out does not fit its array of ten bytes or leaves no room in
  it for the terminator that the conversion needs.
\<close>

definition search_runs_off :: "byte list \<Rightarrow> bool" where
  "search_runs_off buf \<longleftrightarrow> 0 \<notin> set buf \<and> seek_fields buf = None"

definition field_runs_off :: "byte list \<Rightarrow> bool" where
  "field_runs_off buf \<longleftrightarrow>
     (case seek_fields (takeWhile (\<lambda>b. b \<noteq> 0) buf) of None \<Rightarrow> False
      | Some (f, g) \<Rightarrow> field_number f = None \<or> field_number g = None)"

lemma scan_seek_None_iff: "scan_seek sk buf = None \<longleftrightarrow> search_runs_off buf \<or> field_runs_off buf"
  by (auto simp: scan_seek_def search_runs_off_def field_runs_off_def parse_seek_def Let_def takeWhile_absent
      bind_eq_None_conv split: option.split)

text \<open>An array that is filled up with zero bytes, and one that is filled to the last byte.\<close>

lemma scan_seek_padded:
  assumes "length bs < n"
  shows "scan_seek sk (bs @ replicate (n - length bs) 0) = parse_seek sk (takeWhile (\<lambda>b. b \<noteq> 0) bs)"
proof -
  have "takeWhile (\<lambda>b. b \<noteq> 0) (bs @ replicate (n - length bs) 0) = takeWhile (\<lambda>b. b \<noteq> 0) bs"
  proof (cases "0 \<in> set bs")
    case True
    then show ?thesis by (auto simp: takeWhile_append1)
  next
    case False
    then have "takeWhile (\<lambda>b. b \<noteq> 0) (bs @ replicate (n - length bs) 0) =
        bs @ takeWhile (\<lambda>b. b \<noteq> 0) (replicate (n - length bs) 0)"
      by (subst takeWhile_append2) auto
    with False show ?thesis by (simp add: takeWhile_replicate takeWhile_absent)
  qed
  with assms show ?thesis by (simp add: scan_seek_def Let_def)
qed

lemma scan_seek_no_colon:
  fixes bs :: "byte list"
  assumes "58 \<notin> set bs"
  shows "scan_seek sk bs = (if 0 \<in> set bs then Some (- 1, sk) else None)"
proof -
  have "58 \<notin> set (takeWhile (\<lambda>b. b \<noteq> 0) bs)" using assms set_takeWhileD by fastforce
  then show ?thesis by (simp add: scan_seek_def parse_seek_def seek_fields_def dropWhile_absent)
qed

end
