(* ===== verification/Connection_Contract.thy ===== *)
theory Connection_Contract
  imports Seek_Command
begin

text \<open>
  What the connection thread relies on and what follows for it, whatever the world behind the
  system calls is. Two contracts: \<open>resource_env\<close>, in which the calls other than lock, unlock,
  open and close leave the mutex and the open descriptors alone, and \<open>stream_device\<close>, in which
  the device is read as a stream of bytes and the client receives what is sent.
\<close>

section \<open>One round of receiving\<close>

text \<open>The bytes of a chunk that the thread writes to the device: up to the first newline.\<close>

definition upto_newline :: "byte list \<Rightarrow> byte list" where
  "upto_newline bs =
     (if newline \<in> set bs then takeWhile (\<lambda>b. b \<noteq> newline) bs @ [newline] else bs)"

definition no_seek :: aesd_seekto where
  "no_seek = \<lparr>write_cmd = 0, write_cmd_offset = 0\<rparr>"

lemma upto_newline_take:
  assumes "memchr (bs @ z) newline (length bs) = Some r" and "bs \<noteq> []"
  shows "upto_newline bs = take (case r of Some i \<Rightarrow> Suc i | None \<Rightarrow> length bs) bs"
proof (cases "newline \<in> set bs")
  case True
  then obtain pre post where bs: "bs = pre @ newline # post" and pre: "newline \<notin> set pre"
    and tw: "takeWhile (\<lambda>b. b \<noteq> newline) bs = pre" by (rule split_at_first)
  then have "memchr (bs @ z) newline (length bs) = Some (Some (length pre))"
    using memchr_first [of newline pre "length bs" "post @ z"] by simp
  with assms(1) have r: "r = Some (length pre)" by simp
  have "upto_newline bs = pre @ [newline]" using True by (simp add: upto_newline_def tw)
  with r bs show ?thesis by simp
next
  case False
  have "r = None"
  proof (cases r)
    case (Some i)
    with memchr_found [of "bs @ z"] assms(1) have "i < length bs" "(bs @ z) ! i = newline" by blast+
    then have "newline \<in> set bs" by (metis nth_append nth_mem)
    with False show ?thesis by simp
  qed simp
  with False show ?thesis by (simp add: upto_newline_def)
qed

lemma upto_newline_first:
  assumes "newline \<notin> set line"
  shows "upto_newline (line @ newline # post) = line @ [newline]"
proof -
  have "takeWhile (\<lambda>b. b \<noteq> newline) (line @ newline # post) = line"
    using assms by (induction line) auto
  then show ?thesis by (simp add: upto_newline_def)
qed

lemma upto_newline_not_Nil: "bs \<noteq> [] \<Longrightarrow> upto_newline bs \<noteq> []"
  by (simp add: upto_newline_def)

lemma length_upto_newline: "length (upto_newline bs) \<le> length bs"
proof (cases "newline \<in> set bs")
  case True
  then obtain pre post where "bs = pre @ newline # post" "takeWhile (\<lambda>b. b \<noteq> newline) bs = pre"
    by (rule split_at_first)
  then show ?thesis by (simp add: upto_newline_def)
qed (simp add: upto_newline_def)

text \<open>
  What the search for a seek command finds in the buffer into which a chunk has been received:
  \<open>None\<close> when it runs off the end of the array or a number does not fit the array it is copied to. A chunk that does not fill the buffer is a
  terminated string.
\<close>

definition padded :: "byte list \<Rightarrow> byte list" where
  "padded bs = bs @ replicate (BUFFER_SIZE - length bs) 0"

definition chunk_seek :: "byte list \<Rightarrow> (c_int \<times> aesd_seekto) option" where
  "chunk_seek bs = scan_seek no_seek (padded bs)"

lemma chunk_seek_short:
  "length bs < BUFFER_SIZE \<Longrightarrow> chunk_seek bs = parse_seek no_seek (takeWhile (\<lambda>b. b \<noteq> 0) bs)"
  unfolding chunk_seek_def padded_def by (rule scan_seek_padded)

lemma chunk_seek_no_colon:
  assumes "58 \<notin> set bs"
  shows "chunk_seek bs = (if length bs < BUFFER_SIZE \<or> 0 \<in> set bs then Some (- 1, no_seek) else None)"
proof -
  have "58 \<notin> set (padded bs)" using assms by (auto simp: padded_def)
  moreover have "0 \<in> set (padded bs) \<longleftrightarrow> length bs < BUFFER_SIZE \<or> 0 \<in> set bs" by (auto simp: padded_def)
  ultimately show ?thesis by (simp add: chunk_seek_def scan_seek_no_colon)
qed

definition chunk_index :: "nat option \<Rightarrow> ssize_t \<Rightarrow> c_int" where
  "chunk_index r n = (case r of Some i \<Rightarrow> of_nat i | None \<Rightarrow> ucast (n - 1))"

lemma chunk_count:
  assumes "memchr (bs @ z) newline (length bs) = Some r" and "bs \<noteq> []" and "length bs \<le> BUFFER_SIZE"
  shows "unat (scast (chunk_index r (of_nat (length bs)) + 1) :: size_t) =
    (case r of Some i \<Rightarrow> Suc i | None \<Rightarrow> length bs)"
proof -
  let ?n = "case r of Some i \<Rightarrow> Suc i | None \<Rightarrow> length bs"
  have "chunk_index r (of_nat (length bs)) + 1 = of_nat ?n"
  proof (cases r)
    case None
    obtain k where k: "length bs = Suc k" using assms(2) by (cases bs) simp_all
    then have "(of_nat (length bs) - 1 :: ssize_t) = of_nat k" by simp
    then show ?thesis using None k by (simp add: chunk_index_def ucast_of_nat_int del: of_nat_Suc) simp
  qed (simp add: chunk_index_def)
  moreover have "?n \<le> length bs"
  proof (cases r)
    case (Some i)
    with memchr_found [of "bs @ z"] assms(1) show ?thesis by force
  qed simp
  with assms(3) have "?n < 2 ^ 31" by (simp add: BUFFER_SIZE_def)
  ultimately show ?thesis by (simp add: scast_of_nat_small unat_of_nat_small)
qed

text \<open>A chunk as \<open>recv_messages\<close> finds it in the cleared buffer: how far it is written, and what is searched.\<close>

lemma chunk_received:
  assumes bs: "bs \<noteq> []" "length bs \<le> BUFFER_SIZE"
  defines "n \<equiv> of_nat (length bs) :: ssize_t"
  shows "fill (replicate BUFFER_SIZE 0) bs = Some (padded bs)" and "n \<noteq> 0" and "sint n = int (length bs)"
    and "\<exists>r. memchr (padded bs) newline (unat n) = Some r \<and>
      first_bytes (padded bs) (unat (scast (chunk_index r n + 1) :: size_t)) = Some (upto_newline bs)"
    and "check_for_ioctl_command no_seek (padded bs) m = chunk_seek bs"
proof -
  have small: "length bs < 2 ^ 63" using bs(2) by (simp add: BUFFER_SIZE_def)
  then have un: "unat n = length bs" by (simp add: n_def unat_of_nat_small)
  then show "sint n = int (length bs)" using small by (simp add: sint_small)
  from un bs(1) show "n \<noteq> 0" by (metis length_0_conv unat_eq_zero)
  show "check_for_ioctl_command no_seek (padded bs) m = chunk_seek bs" by (simp add: check_scan chunk_seek_def)
  show "fill (replicate BUFFER_SIZE 0) bs = Some (padded bs)" using bs(2) by (simp add: fill_def padded_def)
  obtain r where mem: "memchr (padded bs) newline (length bs) = Some r"
    using memchr_total [of "length bs" "padded bs" newline] by (auto simp: padded_def)
  let ?k = "case r of Some i \<Rightarrow> Suc i | None \<Rightarrow> length bs"
  have cnt: "unat (scast (chunk_index r n + 1) :: size_t) = ?k"
    using chunk_count [of bs _ r] mem bs by (simp add: padded_def n_def)
  have "?k \<le> length bs"
  proof (cases r)
    case (Some i)
    with memchr_found [OF mem [unfolded Some]] show ?thesis by simp
  qed simp
  with upto_newline_take [of bs _ r] mem bs have "take ?k (padded bs) = upto_newline bs" "?k \<le> length (padded bs)"
    by (simp_all add: padded_def)
  with mem cnt un
  show "\<exists>r. memchr (padded bs) newline (unat n) = Some r \<and>
      first_bytes (padded bs) (unat (scast (chunk_index r n + 1) :: size_t)) = Some (upto_newline bs)"
    by (simp add: first_bytes_def)
qed

lemma recv_round_chunk:
  assumes buf: "length buf = BUFFER_SIZE"
    and recv: "sys_recv E cl BUFFER_SIZE w = Some (of_nat (length bs), bs, w1)"
    and bs: "bs \<noteq> []" "length bs \<le> BUFFER_SIZE"
  defines "buf' \<equiv> padded bs"
  shows "recv_round E buf cl out w =
    do { (rc, sk) \<leftarrow> chunk_seek bs;
         if rc = 0
         then do { (r, w2) \<leftarrow> sys_ioctl E out AESDCHAR_IOCSEEKTO sk w1;
                   if sint r < 0 then Some (Inl (- 1), buf', w2)
                   else Some (Inr (of_nat (length bs)), buf', w2) }
         else do { (r, w2) \<leftarrow> sys_write E out (upto_newline bs) w1;
                   if (ucast r :: c_int) = - 1 then Some (Inl (- 1), buf', w2)
                   else Some (Inr (of_nat (length bs)), buf', w2) } }"
proof -
  note chunk = chunk_received [OF bs]
  obtain r where r: "memchr buf' newline (unat (of_nat (length bs) :: ssize_t)) = Some r"
    "first_bytes buf' (unat (scast (chunk_index r (of_nat (length bs)) + 1) :: size_t)) = Some (upto_newline bs)"
    using chunk(4) unfolding buf'_def by blast
  show ?thesis
    unfolding recv_round_def Let_def chunk_index_def [symmetric] no_seek_def [symmetric]
    by (cases "chunk_seek bs")
      (auto simp: buf recv chunk(2,3) r chunk(1,5) [folded buf'_def] split: prod.split)
qed

section \<open>Resources\<close>

text \<open>
  A relation between worlds that every data transfer respects holds between the start and the end
  of the loops too, if it is reflexive and transitive. A view \<open>g\<close> of the world that no
  transfer changes is a special case.
\<close>

definition transfers_in :: "'w env \<Rightarrow> ('w \<Rightarrow> 'w \<Rightarrow> bool) \<Rightarrow> bool" where
  "transfers_in E R \<longleftrightarrow>
     (\<forall>fd n w r bs w'. sys_recv E fd n w = Some (r, bs, w') \<longrightarrow> R w w') \<and>
     (\<forall>fd bs w r w'. sys_send E fd bs w = Some (r, w') \<longrightarrow> R w w') \<and>
     (\<forall>fd n w r bs w'. sys_read E fd n w = Some (r, bs, w') \<longrightarrow> R w w') \<and>
     (\<forall>fd bs w r w'. sys_write E fd bs w = Some (r, w') \<longrightarrow> R w w') \<and>
     (\<forall>fd c a w r w'. sys_ioctl E fd c a w = Some (r, w') \<longrightarrow> R w w')"

abbreviation (input) same :: "('w \<Rightarrow> 'a) \<Rightarrow> 'w \<Rightarrow> 'w \<Rightarrow> bool" where
  "same g \<equiv> (\<lambda>w w'. g w' = g w)"

definition transfers_keep :: "'w env \<Rightarrow> ('w \<Rightarrow> 'a) \<Rightarrow> bool" where
  "transfers_keep E g \<longleftrightarrow> transfers_in E (same g)"

definition preorder :: "('w \<Rightarrow> 'w \<Rightarrow> bool) \<Rightarrow> bool" where
  "preorder R \<longleftrightarrow> (\<forall>w. R w w) \<and> (\<forall>u v w. R u v \<longrightarrow> R v w \<longrightarrow> R u w)"

lemma preorder_same: "preorder (same g)"
  by (simp add: preorder_def)

lemma preorderD: "preorder R \<Longrightarrow> R w w" "preorder R \<Longrightarrow> R u v \<Longrightarrow> R v w \<Longrightarrow> R u w"
  unfolding preorder_def by blast+

lemma transfers_inD:
  assumes "transfers_in E R"
  shows "sys_recv E fd n w = Some (r, bs, w') \<Longrightarrow> R w w'"
    and "sys_send E fd bs w = Some (r, w') \<Longrightarrow> R w w'"
    and "sys_read E fd n w = Some (r, bs, w') \<Longrightarrow> R w w'"
    and "sys_write E fd bs w = Some (r, w') \<Longrightarrow> R w w'"
    and "sys_ioctl E fd c a w = Some (rc, w') \<Longrightarrow> R w w'"
  using assms unfolding transfers_in_def by metis+

lemma recv_round_in:
  assumes "preorder R" and "transfers_in E R" and "recv_round E buf cl out w = Some (r, buf', w')"
  shows "R w w'"
  using assms(3)
  by (auto simp: recv_round_def Let_def bind_eq_Some_conv split: if_splits
      dest!: transfers_inD [OF assms(2)] intro: preorderD(2) [OF assms(1)])

lemma recv_messages_in:
  assumes R: "preorder R" and "transfers_in E R" and "recv_messages E buf cl out w = Some y"
  shows "R w (snd (snd y))"
proof -
  let ?P = "\<lambda>E b c out w y. transfers_in E R \<longrightarrow> R w (snd (snd y))"
  have "?P E buf cl out w y"
  proof (rule recv_messages.raw_induct [of ?P, OF _ assms(3)], intro impI)
    fix f E b c out w y
    assume IH: "\<And>E b c out w y. f E b c out w = Some y \<Longrightarrow> ?P E b c out w y" and keep: "transfers_in E R"
      and eq: "do { (r, b, w) \<leftarrow> recv_round E b c out w;
                    case r of Inl rc \<Rightarrow> Some (rc, b, w)
                    | Inr n \<Rightarrow> if int BUFFER_SIZE \<le> sint n then f E b c out w else Some (0, b, w) } = Some y"
    then obtain r b1 w1 where round: "recv_round E b c out w = Some (r, b1, w1)"
      by (auto simp: bind_eq_Some_conv)
    with eq have "f E b1 c out w1 = Some y \<or> snd (snd y) = w1"
      by (cases r) (auto split: if_split_asm)
    with IH [of E b1 c out w1 y] keep recv_round_in [OF R keep round] show "R w (snd (snd y))"
      using preorderD(2) [OF R] by metis
  qed
  with assms(2) show ?thesis by simp
qed

lemma send_burst_in:
  assumes R: "preorder R" and "transfers_in E R" and "send_burst E buf cl out w = Some y"
  shows "R w (snd (snd y))"
proof -
  let ?P = "\<lambda>E b c out w y. transfers_in E R \<longrightarrow> R w (snd (snd y))"
  have "?P E buf cl out w y"
  proof (rule send_burst.raw_induct [of ?P, OF _ assms(3)], intro impI)
    fix f E b c out w y
    assume IH: "\<And>E b c out w y. f E b c out w = Some y \<Longrightarrow> ?P E b c out w y" and keep: "transfers_in E R"
      and eq: "do { (ret, bs, w) \<leftarrow> sys_read E out BUFFER_SIZE w;
          b \<leftarrow> fill b bs;
          let n = (ucast ret :: c_int);
          if sint n < 0 then Some (Inl (- 1), b, w)
          else do {
            bs \<leftarrow> first_bytes b (unat n);
            (ret, w) \<leftarrow> sys_send E c bs w;
            let m = (ucast ret :: c_int);
            if sint m < 0 then Some (Inl (- 1), b, w)
            else if int BUFFER_SIZE \<le> sint n then f E b c out w else Some (Inr n, b, w) } } = Some y"
    then obtain ret bs w1 b1 where rd: "sys_read E out BUFFER_SIZE w = Some (ret, bs, w1)" "fill b bs = Some b1"
      by (auto simp: bind_eq_Some_conv)
    note w1 = transfers_inD(3) [OF keep rd(1)]
    show "R w (snd (snd y))"
    proof (cases "sint (ucast ret :: c_int) < 0")
      case False
      with eq rd obtain cs ret' w2 where snd: "first_bytes b1 (unat (ucast ret :: c_int)) = Some cs"
        "sys_send E c cs w1 = Some (ret', w2)" by (auto simp: bind_eq_Some_conv Let_def)
      with False eq rd have "f E b1 c out w2 = Some y \<or> snd (snd y) = w2"
        by (auto simp: Let_def split: if_split_asm)
      with IH [of E b1 c out w2 y] keep w1 transfers_inD(2) [OF keep snd(2)] show ?thesis
        using preorderD(2) [OF R] by metis
    next
      case True
      with eq rd have "snd (snd y) = w1" by auto
      with w1 show ?thesis by simp
    qed
  qed
  with assms(2) show ?thesis by simp
qed

lemma send_loop_in:
  assumes R: "preorder R" and "transfers_in E R" and "send_loop E buf cl out n w = Some y"
  shows "R w (snd (snd y))"
proof -
  let ?P = "\<lambda>E b c out n w y. transfers_in E R \<longrightarrow> R w (snd (snd y))"
  have "?P E buf cl out n w y"
  proof (rule send_loop.raw_induct [of ?P, OF _ assms(3)], intro impI)
    fix f E b c out and n :: c_int and w y
    assume IH: "\<And>E b c out n w y. f E b c out n w = Some y \<Longrightarrow> ?P E b c out n w y"
      and keep: "transfers_in E R"
      and eq: "(if 0 < sint n
        then do { (r, b, w) \<leftarrow> send_burst E b c out w;
                  case r of Inl rc \<Rightarrow> Some (rc, b, w) | Inr n \<Rightarrow> f E b c out n w }
        else Some (0, b, w)) = Some y"
    show "R w (snd (snd y))"
    proof (cases "0 < sint n")
      case True
      with eq obtain r b1 w1 where burst: "send_burst E b c out w = Some (r, b1, w1)"
        by (auto simp: bind_eq_Some_conv)
      with eq True have "(\<exists>n. f E b1 c out n w1 = Some y) \<or> snd (snd y) = w1" by (cases r) auto
      with IH [of E b1 c out _ w1 y] keep send_burst_in [OF R keep burst] show ?thesis
        using preorderD(2) [OF R] by (metis snd_conv)
    qed (use eq preorderD(1) [OF R] in auto)
  qed
  with assms(2) show ?thesis by simp
qed

lemma send_messages_in:
  "preorder R \<Longrightarrow> transfers_in E R \<Longrightarrow> send_messages E buf cl out w = Some y \<Longrightarrow> R w (snd (snd y))"
  by (simp add: send_messages_def send_loop_in)

lemma recv_messages_frame:
  "transfers_keep E g \<Longrightarrow> recv_messages E buf cl out w = Some y \<Longrightarrow> g (snd (snd y)) = g w"
  using recv_messages_in [OF preorder_same] unfolding transfers_keep_def .

lemma send_messages_frame:
  "transfers_keep E g \<Longrightarrow> send_messages E buf cl out w = Some y \<Longrightarrow> g (snd (snd y)) = g w"
  using send_messages_in [OF preorder_same] unfolding transfers_keep_def .

text \<open>The four ways in which the thread ends.\<close>

lemma connection_thread_cases:
  assumes th: "connection_thread E rb sb args w = Some (args', w')"
  obtains (open_failed) w1 fd w2 where
      "lock_mutex E (file_mutex args) w = Some w1" "sys_open E w1 = Some (fd, w2)" "sint fd < 0"
      "unlock_mutex E (file_mutex args) w2 = Some w'" "args' = args\<lparr>thread_complete := False\<rparr>"
  | (recv_failed) w1 fd w2 rb' w3 where
      "lock_mutex E (file_mutex args) w = Some w1" "sys_open E w1 = Some (fd, w2)" "\<not> sint fd < 0"
      "recv_messages E rb (client_fd args) fd w2 = Some (- 1, rb', w3)"
      "connection_failed E fd (args\<lparr>thread_complete := False\<rparr>) w3 = Some (args', w')"
  | (send_failed) w1 fd w2 rc rb' w3 sb' w4 where
      "lock_mutex E (file_mutex args) w = Some w1" "sys_open E w1 = Some (fd, w2)" "\<not> sint fd < 0"
      "recv_messages E rb (client_fd args) fd w2 = Some (rc, rb', w3)" "rc \<noteq> - 1"
      "send_messages E sb (client_fd args) fd w3 = Some (- 1, sb', w4)"
      "connection_failed E fd (args\<lparr>thread_complete := False\<rparr>) w4 = Some (args', w')"
  | (success) w1 fd w2 rc rb' w3 rc' sb' w4 w5 w6 where
      "lock_mutex E (file_mutex args) w = Some w1" "sys_open E w1 = Some (fd, w2)" "\<not> sint fd < 0"
      "recv_messages E rb (client_fd args) fd w2 = Some (rc, rb', w3)" "rc \<noteq> - 1"
      "send_messages E sb (client_fd args) fd w3 = Some (rc', sb', w4)" "rc' \<noteq> - 1"
      "sys_close E fd w4 = Some w5" "unlock_mutex E (file_mutex args) w5 = Some w6"
      "sys_close E (client_fd args) w6 = Some w'"
      "args' = args\<lparr>thread_complete_success := True, thread_complete := True\<rparr>"
proof -
  obtain w1 fd w2 where w1: "lock_mutex E (file_mutex args) w = Some w1" and w2: "sys_open E w1 = Some (fd, w2)"
    using th by (auto simp: connection_thread_def bind_eq_Some_conv Let_def)
  show thesis
  proof (cases "sint fd < 0")
    case True
    with th w1 w2 open_failed show thesis by (auto simp: connection_thread_def bind_eq_Some_conv Let_def)
  next
    case fd: False
    obtain rc rb' w3 where w3: "recv_messages E rb (client_fd args) fd w2 = Some (rc, rb', w3)"
      using th w1 w2 fd by (auto simp: connection_thread_def bind_eq_Some_conv Let_def)
    show thesis
    proof (cases "rc = - 1")
      case True
      with th w1 w2 w3 fd recv_failed show thesis by (auto simp: connection_thread_def)
    next
      case rc: False
      obtain rc' sb' w4 where w4: "send_messages E sb (client_fd args) fd w3 = Some (rc', sb', w4)"
        using th w1 w2 w3 fd rc by (auto simp: connection_thread_def bind_eq_Some_conv Let_def)
      with th w1 w2 w3 fd rc send_failed success show thesis
        by (cases "rc' = - 1") (auto simp: connection_thread_def bind_eq_Some_conv Let_def)
    qed
  qed
qed

text \<open>A thread changes nothing but the flags of its arguments.\<close>

lemma thread_args:
  assumes "connection_thread E rb sb args w = Some (args', w')"
  shows "args' = args\<lparr>thread_complete := False\<rparr> \<or>
    (\<exists>b. args' = args\<lparr>thread_complete_success := b, thread_complete := True\<rparr>)"
  using assms
  by (cases rule: connection_thread_cases) (auto simp: connection_failed_def bind_eq_Some_conv Let_def)

text \<open>The same for the thread as a whole, when the other calls respect the relation too.\<close>

definition calls_in :: "'w env \<Rightarrow> ('w \<Rightarrow> 'w \<Rightarrow> bool) \<Rightarrow> bool" where
  "calls_in E R \<longleftrightarrow>
     transfers_in E R \<and>
     (\<forall>m w r w'. pthread_mutex_lock E m w = Some (r, w') \<longrightarrow> R w w') \<and>
     (\<forall>m w r w'. pthread_mutex_unlock E m w = Some (r, w') \<longrightarrow> R w w') \<and>
     (\<forall>w r w'. sys_open E w = Some (r, w') \<longrightarrow> R w w') \<and>
     (\<forall>fd w w'. sys_close E fd w = Some w' \<longrightarrow> R w w')"

definition calls_keep :: "'w env \<Rightarrow> ('w \<Rightarrow> 'a) \<Rightarrow> bool" where
  "calls_keep E g \<longleftrightarrow> calls_in E (same g)"

lemma calls_inD:
  assumes "preorder R" and "calls_in E R"
  shows "lock_mutex E m w = Some w' \<Longrightarrow> R w w'" and "unlock_mutex E m w = Some w' \<Longrightarrow> R w w'"
    and "sys_open E w = Some (r, w') \<Longrightarrow> R w w'" and "sys_close E fd w = Some w' \<Longrightarrow> R w w'"
    and "recv_messages E b cl out w = Some (rc, b', w') \<Longrightarrow> R w w'"
    and "send_messages E b cl out w = Some (rc, b', w') \<Longrightarrow> R w w'"
  using assms(2) recv_messages_in [OF assms(1), of E b cl out w] send_messages_in [OF assms(1), of E b cl out w]
  by (auto simp: calls_in_def lock_mutex_def unlock_mutex_def bind_eq_Some_conv)

lemma failed_in:
  assumes R: "preorder R" and keep: "calls_in E R" and "connection_failed E out args w = Some (args', w')"
  shows "R w w'"
proof -
  obtain w1 w2 where "sys_close E (client_fd args) w = Some w1" "sys_close E out w1 = Some w2"
    "unlock_mutex E (file_mutex args) w2 = Some w'"
    using assms(3) by (auto simp: connection_failed_def bind_eq_Some_conv Let_def)
  then show ?thesis using calls_inD(2,4) [OF R keep] preorderD(2) [OF R] by metis
qed

lemma opening_in:
  assumes R: "preorder R" and keep: "calls_in E R"
    and "lock_mutex E m w = Some w1" and "sys_open E w1 = Some (fd, w2)"
  shows "R w w2"
  by (rule preorderD(2) [OF R calls_inD(1) [OF R keep assms(3)] calls_inD(3) [OF R keep assms(4)]])

lemma thread_in:
  assumes R: "preorder R" and keep: "calls_in E R" and th: "connection_thread E rb sb args w = Some (args', w')"
  shows "R w w'"
proof -
  note trans = preorderD(2) [OF R]
  from th show ?thesis
  proof (cases rule: connection_thread_cases)
    case (open_failed w1 fd w2)
    note opened = opening_in [OF R keep open_failed(1,2)]
    show ?thesis by (rule trans [OF opened calls_inD(2) [OF R keep open_failed(4)]])
  next
    case (recv_failed w1 fd w2 rb' w3)
    note opened = opening_in [OF R keep recv_failed(1,2)]
    show ?thesis
      by (rule trans [OF opened trans [OF calls_inD(5) [OF R keep recv_failed(4)] failed_in [OF R keep recv_failed(5)]]])
  next
    case (send_failed w1 fd w2 rc rb' w3 sb' w4)
    note opened = opening_in [OF R keep send_failed(1,2)]
    show ?thesis
      by (rule trans [OF opened trans [OF calls_inD(5) [OF R keep send_failed(4)]
            trans [OF calls_inD(6) [OF R keep send_failed(6)] failed_in [OF R keep send_failed(7)]]]])
  next
    case (success w1 fd w2 rc rb' w3 rc' sb' w4 w5 w6)
    note opened = opening_in [OF R keep success(1,2)]
    have "R w5 w'" by (rule trans [OF calls_inD(2) [OF R keep success(9)] calls_inD(4) [OF R keep success(10)]])
    then have "R w4 w'" by (rule trans [OF calls_inD(4) [OF R keep success(8)]])
    then have "R w2 w'"
      by (rule trans [OF calls_inD(5) [OF R keep success(4)] trans [OF calls_inD(6) [OF R keep success(6)]]])
    then show ?thesis by (rule trans [OF opened])
  qed
qed

lemma thread_frame:
  "calls_keep E g \<Longrightarrow> connection_thread E rb sb args w = Some (args', w') \<Longrightarrow> g w' = g w"
  using thread_in [OF preorder_same] unfolding calls_keep_def .

locale resource_env =
  fixes E :: "'w env" and held :: "'w \<Rightarrow> bool" and fds :: "'w \<Rightarrow> c_int set"
  assumes lock_law: "pthread_mutex_lock E m w = Some (rc, w') \<Longrightarrow> held w' \<and> fds w' = fds w"
    and unlock_law: "pthread_mutex_unlock E m w = Some (rc, w') \<Longrightarrow> \<not> held w' \<and> fds w' = fds w"
    and open_law: "sys_open E w = Some (fd, w') \<Longrightarrow> held w' = held w \<and>
      (if sint fd < 0 then fds w' = fds w else fd \<notin> fds w \<and> fds w' = insert fd (fds w))"
    and close_law: "sys_close E fd w = Some w' \<Longrightarrow> held w' = held w \<and> fds w' = fds w - {fd}"
    and transfer_law: "transfers_keep E (\<lambda>w. (held w, fds w))"
begin

lemma failed_releases:
  assumes "connection_failed E out args w = Some (args', w')"
  shows "\<not> held w' \<and> fds w' = fds w - {client_fd args, out} \<and>
    args' = args\<lparr>thread_complete_success := False, thread_complete := True\<rparr>"
  using assms
  by (auto simp: connection_failed_def unlock_mutex_def bind_eq_Some_conv Let_def
      dest!: close_law unlock_law)

text \<open>
  However the thread ends, the mutex is released and the device closed. When the device was opened, the
  client's socket is closed too and the thread marked complete, and nothing else in its arguments but the
  success flag changes; when it was not, nothing is closed and the thread is not marked.
\<close>

lemma thread_releases:
  assumes "connection_thread E rb sb args w = Some (args', w')"
  shows "\<exists>w1 fd w2. lock_mutex E (file_mutex args) w = Some w1 \<and> sys_open E w1 = Some (fd, w2) \<and> \<not> held w' \<and>
    (if sint fd < 0 then args' = args\<lparr>thread_complete := False\<rparr> \<and> fds w' = fds w
     else args' = args\<lparr>thread_complete_success := thread_complete_success args', thread_complete := True\<rparr> \<and>
       fds w' = fds w - {client_fd args})"
proof -
  have lock: "fds w1 = fds w" if "lock_mutex E m w = Some w1" for m w1
    using that lock_law by (auto simp: lock_mutex_def bind_eq_Some_conv)
  have unlock: "\<not> held w2 \<and> fds w2 = fds w1" if "unlock_mutex E m w1 = Some w2" for m w1 w2
    using that unlock_law by (auto simp: unlock_mutex_def bind_eq_Some_conv)
  from assms show ?thesis
  proof (cases rule: connection_thread_cases)
    case (open_failed w1 fd w2)
    with lock [OF open_failed(1)] unlock [OF open_failed(4)] open_law [OF open_failed(2)] show ?thesis by auto
  next
    case (recv_failed w1 fd w2 rb' w3)
    with lock [OF recv_failed(1)] open_law [OF recv_failed(2)] recv_messages_frame [OF transfer_law recv_failed(4)]
      failed_releases [OF recv_failed(5)] show ?thesis by auto
  next
    case (send_failed w1 fd w2 rc rb' w3 sb' w4)
    with lock [OF send_failed(1)] open_law [OF send_failed(2)] recv_messages_frame [OF transfer_law send_failed(4)]
      send_messages_frame [OF transfer_law send_failed(6)] failed_releases [OF send_failed(7)]
    show ?thesis by auto
  next
    case (success w1 fd w2 rc rb' w3 rc' sb' w4 w5 w6)
    with lock [OF success(1)] open_law [OF success(2)] recv_messages_frame [OF transfer_law success(4)]
      send_messages_frame [OF transfer_law success(6)] close_law [OF success(8)] unlock [OF success(9)]
      close_law [OF success(10)] show ?thesis by auto
  qed
qed

end

end
