(* ===== verification/Connection_Stream.thy ===== *)
theory Connection_Stream
  imports Connection_Contract
begin

text \<open>
  Sending terminates, and what the client receives of it. The contract \<open>stream_device\<close> says that the
  device is a stream of blocks of which each read takes one, and that the socket takes a block
  whole, in part, or refuses it; under it \<open>send_messages\<close> returns, and the client has
  received what \<open>spec_send\<close> says.
\<close>

section \<open>What a socket takes\<close>

text \<open>The answer of the socket to one \<open>send\<close>. A list of them that has come to its end takes everything.\<close>

datatype send_event = Send_all | Send_short nat | Send_error

definition refuses :: "send_event list \<Rightarrow> bool" where
  "refuses es = (case es of Send_error # _ \<Rightarrow> True | _ \<Rightarrow> False)"

definition accepted :: "send_event list \<Rightarrow> byte list \<Rightarrow> byte list" where
  "accepted es bs = (case es of Send_short n # _ \<Rightarrow> take n bs | _ \<Rightarrow> bs)"

text \<open>
  What the client receives of a sequence of blocks and whether the thread gets through: the part of a block
  that is not taken is lost, because the thread only looks at the sign of what \<open>send\<close> returns. After
  the last block there is one more \<open>send\<close>, of nothing.
\<close>

fun spec_send :: "byte list list \<Rightarrow> send_event list \<Rightarrow> byte list \<times> bool" where
  "spec_send [] es = ([], \<not> refuses es)"
| "spec_send (bs # bss) es =
     (if refuses es then ([], False) else apfst (append (accepted es bs)) (spec_send bss (tl es)))"

lemma accepted_simps [simp]: "accepted [] bs = bs" "accepted (Send_all # es) bs = bs"
  "accepted (Send_short n # es) bs = take n bs" "accepted es [] = []"
  by (auto simp: accepted_def split: list.split send_event.split)

lemma refuses_simps [simp]: "\<not> refuses []" "\<not> refuses (Send_all # es)" "\<not> refuses (Send_short n # es)"
  "refuses (Send_error # es)"
  by (simp_all add: refuses_def)

lemma length_accepted: "length (accepted es bs) \<le> length bs"
  by (auto simp: accepted_def split: list.split send_event.split)

text \<open>A socket that takes every block whole delivers everything.\<close>

lemma spec_send_all: "set es \<subseteq> {Send_all} \<Longrightarrow> spec_send bss es = (concat bss, True)"
proof (induction bss arbitrary: es)
  case Nil
  then show ?case by (cases es) auto
next
  case (Cons bs bss)
  from Cons.IH [of "tl es"] Cons.prems show ?case by (cases es) auto
qed

lemma spec_send_refused: "refuses es \<Longrightarrow> spec_send bss es = ([], False)"
  by (cases bss) simp_all

section \<open>The contract\<close>

locale stream_device =
  fixes E :: "'w env" and cl :: c_int and out :: c_int and I :: "'w \<Rightarrow> bool"
    and blocks :: "'w \<Rightarrow> byte list list" and events :: "'w \<Rightarrow> send_event list" and sent :: "'w \<Rightarrow> byte list"
  assumes read_law: "I w \<Longrightarrow>
      \<exists>bs w'. sys_read E out BUFFER_SIZE w = Some (of_nat (length bs), bs, w') \<and> I w' \<and>
        length bs \<le> BUFFER_SIZE \<and> (if bs = [] then blocks w = [] \<and> blocks w' = [] else blocks w = bs # blocks w') \<and>
        events w' = events w \<and> sent w' = sent w"
    and refuse_law: "I w \<Longrightarrow> refuses (events w) \<Longrightarrow>
      \<exists>w'. sys_send E cl bs w = Some (- 1, w') \<and> I w' \<and> sent w' = sent w"
    and send_law: "I w \<Longrightarrow> \<not> refuses (events w) \<Longrightarrow> length bs \<le> BUFFER_SIZE \<Longrightarrow>
      \<exists>w'. sys_send E cl bs w = Some (of_nat (length (accepted (events w) bs)), w') \<and> I w' \<and>
        blocks w' = blocks w \<and> events w' = tl (events w) \<and> sent w' = sent w @ accepted (events w) bs"
begin

text \<open>The loops have ended, with success or without, or are on their way.\<close>

definition delivered :: "bool \<Rightarrow> 'w \<Rightarrow> 'w \<Rightarrow> bool" where
  "delivered ok w w' \<longleftrightarrow> (\<exists>bs. spec_send (blocks w) (events w) = (bs, ok) \<and> sent w' = sent w @ bs)"

definition on_the_way :: "'w \<Rightarrow> 'w \<Rightarrow> bool" where
  "on_the_way w w' \<longleftrightarrow> length (blocks w') < length (blocks w) \<and>
     (\<forall>ok w''. delivered ok w' w'' \<longrightarrow> delivered ok w w'')"

lemma on_the_way_trans: "on_the_way u v \<Longrightarrow> on_the_way v w \<Longrightarrow> on_the_way u w"
  unfolding on_the_way_def by auto

lemma on_the_way_step:
  assumes "blocks w = bs # blocks w'" and "\<not> refuses (events w)" and "events w' = tl (events w)"
    and "sent w' = sent w @ accepted (events w) bs"
  shows "on_the_way w w'"
  using assms by (auto simp: on_the_way_def delivered_def)

text \<open>One read and one send.\<close>

lemma transfer:
  assumes I: "I w" and buf: "length buf = BUFFER_SIZE"
  obtains (refused) buf' w' where "send_burst E buf cl out w = Some (Inl (- 1), buf', w')" "I w'"
      "delivered False w w'"
  | (passed) bs :: "byte list" and buf' w' where
    "send_burst E buf cl out w =
       (if int BUFFER_SIZE \<le> int (length bs) then send_burst E buf' cl out w'
        else Some (Inr (of_nat (length bs)), buf', w'))"
    "I w'" "length buf' = BUFFER_SIZE" "length bs \<le> BUFFER_SIZE"
    "if bs = [] then delivered True w w' else on_the_way w w'"
proof -
  obtain bs w1 where rd: "sys_read E out BUFFER_SIZE w = Some (of_nat (length bs), bs, w1)" "I w1"
    "length bs \<le> BUFFER_SIZE" "events w1 = events w" "sent w1 = sent w"
    and blk: "if bs = [] then blocks w = [] \<and> blocks w1 = [] else blocks w = bs # blocks w1"
    using read_law [OF I] by blast
  have small: "length bs < 2 ^ 31" using rd(3) by (simp add: BUFFER_SIZE_def)
  then have n: "unat (of_nat (length bs) :: c_int) = length bs" "sint (of_nat (length bs) :: c_int) = int (length bs)"
    by (simp_all add: unat_of_nat_small sint_int_of_nat)
  let ?buf = "bs @ drop (length bs) buf" and ?acc = "accepted (events w) bs"
  have fill: "fill buf bs = Some ?buf" "first_bytes ?buf (length bs) = Some bs" "length ?buf = BUFFER_SIZE"
    using rd(3) buf by (simp_all add: fill_def first_bytes_def)
  show thesis
  proof (cases "refuses (events w)")
    case True
    then obtain w2 where sd: "sys_send E cl bs w1 = Some (- 1, w2)" "I w2" "sent w2 = sent w1"
      using refuse_law [OF rd(2)] rd(4) by auto
    have "(ucast (- 1 :: ssize_t) :: c_int) = - 1" by (rule bit_word_eqI) (simp add: bit_simps)
    then have "send_burst E buf cl out w = Some (Inl (- 1), ?buf, w2)"
      by (subst send_burst.simps) (simp add: rd(1) sd(1) fill ucast_of_nat_int n)
    moreover have "delivered False w w2" using True sd(3) rd(5) by (simp add: delivered_def spec_send_refused)
    ultimately show thesis using sd(2) refused by blast
  next
    case False
    then obtain w2 where sd: "sys_send E cl bs w1 = Some (of_nat (length ?acc), w2)" "I w2"
      "blocks w2 = blocks w1" "events w2 = tl (events w)" "sent w2 = sent w @ ?acc"
      using send_law [OF rd(2) _ rd(3)] rd(4,5) by auto
    have "length ?acc < 2 ^ 31" using length_accepted [of "events w" bs] small by simp
    then have "sint (of_nat (length ?acc) :: c_int) = int (length ?acc)" by (simp add: sint_int_of_nat)
    then have "send_burst E buf cl out w =
         (if int BUFFER_SIZE \<le> int (length bs) then send_burst E ?buf cl out w2
          else Some (Inr (of_nat (length bs)), ?buf, w2))"
      by (subst send_burst.simps) (simp add: rd(1) sd(1) fill ucast_of_nat_int n)
    moreover have "if bs = [] then delivered True w w2 else on_the_way w w2"
      using blk sd(3-5) False on_the_way_step [of w bs w2] by (simp add: delivered_def split: if_splits)
    ultimately show thesis using passed [of bs ?buf w2] sd(2) fill(3) rd(3) by blast
  qed
qed

lemma burst:
  assumes "I w" and "length buf = BUFFER_SIZE"
  shows "\<exists>r buf' w'. send_burst E buf cl out w = Some (r, buf', w') \<and> I w' \<and>
    (case r of Inl rc \<Rightarrow> rc = - 1 \<and> delivered False w w'
     | Inr n \<Rightarrow> length buf' = BUFFER_SIZE \<and> (if 0 < sint n then on_the_way w w' else delivered True w w'))"
  using assms
proof (induction "length (blocks w)" arbitrary: w buf rule: less_induct)
  case less
  from less.prems show ?case
  proof (cases rule: transfer)
    case (refused buf' w')
    then show ?thesis by auto
  next
    case (passed bs buf' w')
    have "length bs < 2 ^ 31" using passed(4) by (simp add: BUFFER_SIZE_def)
    then have n: "sint (of_nat (length bs) :: c_int) = int (length bs)" by (simp add: sint_int_of_nat)
    show ?thesis
    proof (cases "int BUFFER_SIZE \<le> int (length bs)")
      case True
      then have "bs \<noteq> []" by (auto simp: BUFFER_SIZE_def)
      with passed(5) have way: "on_the_way w w'" by simp
      then have "length (blocks w') < length (blocks w)" by (simp add: on_the_way_def)
      from less.hyps [OF this passed(2,3)] obtain r buf2 w2 where
        "send_burst E buf' cl out w' = Some (r, buf2, w2)" "I w2"
        "case r of Inl rc \<Rightarrow> rc = - 1 \<and> delivered False w' w2
         | Inr n \<Rightarrow> length buf2 = BUFFER_SIZE \<and> (if 0 < sint n then on_the_way w' w2 else delivered True w' w2)"
        by blast
      with True passed(1) way on_the_way_trans [OF way, of w2] show ?thesis
        by (auto simp: on_the_way_def split: sum.splits if_splits)
    next
      case False
      with passed n show ?thesis by (auto split: if_splits)
    qed
  qed
qed

lemma loop_delivers:
  assumes "I w" and "length buf = BUFFER_SIZE" and "0 < sint n"
  shows "\<exists>ok buf' w'. send_loop E buf cl out n w = Some (if ok then 0 else - 1, buf', w') \<and> I w' \<and>
    delivered ok w w'"
  using assms
proof (induction "length (blocks w)" arbitrary: w buf n rule: less_induct)
  case less
  obtain r buf1 w1 where b: "send_burst E buf cl out w = Some (r, buf1, w1)" "I w1"
    "case r of Inl rc \<Rightarrow> rc = - 1 \<and> delivered False w w1
     | Inr n \<Rightarrow> length buf1 = BUFFER_SIZE \<and> (if 0 < sint n then on_the_way w w1 else delivered True w w1)"
    using burst [OF less.prems(1,2)] by blast
  have eq: "send_loop E buf cl out n w =
      (case r of Inl rc \<Rightarrow> Some (rc, buf1, w1) | Inr m \<Rightarrow> send_loop E buf1 cl out m w1)"
    using b(1) less.prems(3) by (subst send_loop.simps) simp
  show ?case
  proof (cases r)
    case (Inl rc)
    with b eq show ?thesis by (intro exI [of _ False]) auto
  next
    case (Inr m)
    show ?thesis
    proof (cases "0 < sint m")
      case True
      with b(3) Inr have way: "on_the_way w w1" and len: "length buf1 = BUFFER_SIZE" by simp_all
      then have "length (blocks w1) < length (blocks w)" by (simp add: on_the_way_def)
      from less.hyps [OF this b(2) len True] obtain ok buf2 w2 where
        "send_loop E buf1 cl out m w1 = Some (if ok then 0 else - 1, buf2, w2)" "I w2" "delivered ok w1 w2" by blast
      with eq Inr way show ?thesis by (intro exI [of _ ok]) (simp add: on_the_way_def)
    next
      case False
      then have "send_loop E buf1 cl out m w1 = Some (0, buf1, w1)" by (subst send_loop.simps) simp
      with False b eq Inr show ?thesis by (intro exI [of _ True]) auto
    qed
  qed
qed

lemma send_messages_delivers:
  assumes "I w" and "length buf = BUFFER_SIZE"
  shows "\<exists>bs ok buf' w'. spec_send (blocks w) (events w) = (bs, ok) \<and>
    send_messages E buf cl out w = Some (if ok then 0 else - 1, buf', w') \<and> I w' \<and> sent w' = sent w @ bs"
proof -
  have "0 < sint (of_nat BUFFER_SIZE :: c_int)" by (simp add: BUFFER_SIZE_def)
  from loop_delivers [OF assms this] show ?thesis unfolding send_messages_def delivered_def by blast
qed

end

end
