(* ===== verification/Driver_Spec.thy ===== *)
theory Driver_Spec
  imports Aesd_Char
begin

text \<open>
  What the driver promises. A device is a log of the last ten finished commands and the bytes of
  the command not finished yet (\<open>alog\<close>); \<open>dev_abs\<close> reads a driver state that way, and
  \<open>dev_inv\<close> is the invariant of the driver: the buffer is well formed, the mutex is free, every
  finished command is an allocated block of the recorded size that ends in a newline, no two
  pointers share a block, and the blocks the driver has allocated are exactly the ones it points
  to, so that nothing leaks. The theory proves that \<open>aesd_write\<close> keeps the invariant on every
  path and refines the abstract write.
\<close>

section \<open>The abstract device\<close>

record alog =
  lines :: "byte list list"
  pending :: "byte list"

definition spec_write :: "byte list \<Rightarrow> alog \<Rightarrow> alog" where
  "spec_write bs l =
     (let p = pending l @ bs in
      if last p = newline
      then \<lparr>lines = keep_last 10 (lines l @ [p]), pending = []\<rparr> else l\<lparr>pending := p\<rparr>)"

definition contents :: "alog \<Rightarrow> byte list" where
  "contents l = concat (lines l)"

section \<open>Abstraction and invariant\<close>

definition entry_bytes :: "heap \<Rightarrow> aesd_buffer_entry \<Rightarrow> byte list" where
  "entry_bytes h e =
     (case buffptr e of None \<Rightarrow> []
      | Some a \<Rightarrow> (case h a of None \<Rightarrow> [] | Some bs \<Rightarrow> take (unat (entry_size e)) bs))"

definition dev_abs :: "kstate \<Rightarrow> alog" where
  "dev_abs s =
     \<lparr>lines = map (entry_bytes (kheap s)) (cb_entries (circular_buffer (aesd_device s))),
      pending = entry_bytes (kheap s) (current_entry (aesd_device s))\<rparr>"

definition line_ok :: "heap \<Rightarrow> aesd_buffer_entry \<Rightarrow> bool" where
  "line_ok h e \<longleftrightarrow>
     (case buffptr e of None \<Rightarrow> True
      | Some a \<Rightarrow> (case h a of None \<Rightarrow> False
         | Some bs \<Rightarrow> length bs = unat (entry_size e) \<and> length bs \<le> KMALLOC_MAX_SIZE \<and>
             bs \<noteq> [] \<and> last bs = newline))"

definition pending_ok :: "heap \<Rightarrow> aesd_buffer_entry \<Rightarrow> bool" where
  "pending_ok h e \<longleftrightarrow>
     (case buffptr e of None \<Rightarrow> entry_size e = 0
      | Some a \<Rightarrow> (case h a of None \<Rightarrow> False
         | Some bs \<Rightarrow> unat (entry_size e) \<le> length bs \<and> length bs \<le> KMALLOC_MAX_SIZE))"

definition ptrs :: "aesd_buffer_entry list \<Rightarrow> addr list" where
  "ptrs es = List.map_filter buffptr es"

definition owned :: "aesd_dev \<Rightarrow> addr list" where
  "owned d = ptrs (entry (circular_buffer d)) @ ptrs [current_entry d]"

text \<open>\<open>B\<close> is the set of the blocks that belong to the rest of the kernel.\<close>

definition dev_wf :: "addr set \<Rightarrow> kstate \<Rightarrow> bool" where
  "dev_wf B s \<longleftrightarrow>
     (let d = aesd_device s in
      cb_inv (circular_buffer d) \<and>
      (\<forall>e \<in> set (entry (circular_buffer d)). line_ok (kheap s) e) \<and>
      pending_ok (kheap s) (current_entry d) \<and>
      distinct (owned d) \<and> dom (kheap s) = B \<union> set (owned d) \<and> B \<inter> set (owned d) = {})"

definition dev_inv :: "addr set \<Rightarrow> kstate \<Rightarrow> bool" where
  "dev_inv B s \<longleftrightarrow> dev_wf B s \<and> \<not> device_mutex (aesd_device s)"

definition release_block :: "heap \<Rightarrow> ptr \<Rightarrow> heap" where
  "release_block h p = (case p of None \<Rightarrow> h | Some a \<Rightarrow> h(a := None))"

section \<open>Pointers of a list of entries\<close>

lemma ptrs_Nil [simp]: "ptrs [] = []"
  by (simp add: ptrs_def List.map_filter_simps)

lemma ptrs_Cons [simp]:
  "ptrs (e # es) = (case buffptr e of None \<Rightarrow> ptrs es | Some a \<Rightarrow> a # ptrs es)"
  by (simp add: ptrs_def List.map_filter_simps split: option.split)

lemma ptrs_append [simp]: "ptrs (es @ fs) = ptrs es @ ptrs fs"
  by (induction es) (auto split: option.splits)

lemma set_ptrs: "set (ptrs es) = {a. \<exists>e \<in> set es. buffptr e = Some a}"
  by (induction es) (auto split: option.splits)

lemma ptrs_update:
  assumes "i < length es"
  shows "ptrs (es[i := e]) = ptrs (take i es) @ ptrs [e] @ ptrs (drop (Suc i) es)"
    and "ptrs es = ptrs (take i es) @ ptrs [es ! i] @ ptrs (drop (Suc i) es)"
proof -
  show "ptrs (es[i := e]) = ptrs (take i es) @ ptrs [e] @ ptrs (drop (Suc i) es)"
    using assms by (simp only: upd_conv_take_nth_drop ptrs_append append_Cons append_Nil flip: ptrs_append)
  have "es = take i es @ [es ! i] @ drop (Suc i) es"
    using assms by (simp add: id_take_nth_drop [symmetric])
  then show "ptrs es = ptrs (take i es) @ ptrs [es ! i] @ ptrs (drop (Suc i) es)"
    by (metis ptrs_append)
qed

lemma entry_bytes_cong:
  "(\<And>a. buffptr e = Some a \<Longrightarrow> h' a = h a) \<Longrightarrow> entry_bytes h' e = entry_bytes h e"
  by (auto simp: entry_bytes_def split: option.splits)

lemma line_ok_cong:
  "(\<And>a. buffptr e = Some a \<Longrightarrow> h' a = h a) \<Longrightarrow> line_ok h' e = line_ok h e"
  by (auto simp: line_ok_def split: option.splits)

lemma cb_entries_subset: "cb_inv b \<Longrightarrow> set (cb_entries b) \<subseteq> set (entry b)"
  by (auto simp: cb_entries_def slot_def cb_inv_def)

lemma length_line: "line_ok h e \<Longrightarrow> buffptr e \<noteq> NULL \<Longrightarrow> length (entry_bytes h e) = unat (entry_size e)"
  by (auto simp: line_ok_def entry_bytes_def split: option.splits)

section \<open>The steps of the write handler\<close>

text \<open>The unfinished command moves to a new block, with more bytes after it.\<close>

lemma dev_wf_replace_pending:
  assumes wf: "dev_wf B s" and fresh: "kheap s temp = None"
    and size: "unat sz \<le> length bs" "length bs \<le> KMALLOC_MAX_SIZE"
  defines "s' \<equiv> s\<lparr>kheap := (release_block (kheap s) (buffptr (current_entry (aesd_device s))))(temp \<mapsto> bs),
                  aesd_device := (aesd_device s)\<lparr>current_entry := \<lparr>buffptr = Some temp, entry_size = sz\<rparr>\<rparr>\<rparr>"
  shows "dev_wf B s'" and "dev_abs s' = (dev_abs s)\<lparr>pending := take (unat sz) bs\<rparr>"
proof -
  let ?d = "aesd_device s" and ?h = "kheap s"
  let ?cb = "circular_buffer ?d"
  from wf have inv: "cb_inv ?cb" and lines: "\<And>e. e \<in> set (entry ?cb) \<Longrightarrow> line_ok ?h e"
    and dist: "distinct (owned ?d)" and dom: "dom ?h = B \<union> set (owned ?d)"
    and disj: "B \<inter> set (owned ?d) = {}"
    by (simp_all add: dev_wf_def Let_def)
  from fresh have "temp \<notin> dom ?h" by (simp add: domIff)
  with dom have notin: "temp \<notin> B" "temp \<notin> set (owned ?d)" by simp_all
  have same: "kheap s' a = ?h a" if "e \<in> set (entry ?cb)" "buffptr e = Some a" for e a
  proof -
    from that have "a \<in> set (ptrs (entry ?cb))" by (auto simp: set_ptrs)
    with dist notin show ?thesis
      by (auto simp: s'_def release_block_def owned_def split: option.splits)
  qed
  have lines': "line_ok (kheap s') e" if "e \<in> set (entry ?cb)" for e
    using lines [OF that] same [OF that] line_ok_cong [of e "kheap s'" ?h] by simp
  have owned': "owned (aesd_device s') = ptrs (entry ?cb) @ [temp]"
    by (simp add: s'_def owned_def)
  have dom': "dom (kheap s') = B \<union> set (owned (aesd_device s'))"
    using dom disj dist unfolding owned'
    by (auto simp: s'_def release_block_def owned_def split: option.splits)
  show "dev_wf B s'"
    using inv lines' dist disj notin size dom'
    by (auto simp: dev_wf_def Let_def owned' pending_ok_def owned_def) (auto simp: s'_def)
  have "entry_bytes (kheap s') e = entry_bytes ?h e" if "e \<in> set (cb_entries ?cb)" for e
    using same [of e] that cb_entries_subset [OF inv] by (intro entry_bytes_cong) auto
  then have "map (entry_bytes (kheap s')) (cb_entries ?cb) = map (entry_bytes ?h) (cb_entries ?cb)"
    by simp
  then show "dev_abs s' = (dev_abs s)\<lparr>pending := take (unat sz) bs\<rparr>"
    by (simp add: dev_abs_def s'_def) (simp add: entry_bytes_def)
qed

text \<open>
  The finished command goes into the buffer; the block it overwrites is freed, and with it
  nothing else.
\<close>

lemma write_commit_eq:
  assumes wf: "dev_wf B s" and cur: "buffptr (current_entry (aesd_device s)) = Some temp"
  defines "cb \<equiv> circular_buffer (aesd_device s)"
  shows "\<exists>cb'. aesd_circular_buffer_add_entry cb (current_entry (aesd_device s)) = Some cb' \<and>
    write_commit s = Some (s\<lparr>kheap := release_block (kheap s) (buffptr (entry cb ! unat (in_offs cb))),
      aesd_device := (aesd_device s)\<lparr>circular_buffer := cb', current_entry := zero_entry\<rparr>\<rparr>)"
proof -
  from wf have inv: "cb_inv cb" and lines: "\<And>e. e \<in> set (entry cb) \<Longrightarrow> line_ok (kheap s) e"
    by (simp_all add: dev_wf_def Let_def cb_def)
  let ?i = "unat (in_offs cb)"
  have i: "?i < 10" and len: "length (entry cb) = 10" using cb_inv_bounds [OF inv] by simp_all
  then have at: "entry_at cb (ucast (in_offs cb)) = Some (entry cb ! ?i)"
    by (simp add: entry_at_def unat_ucast_up)
  obtain cb' where cb': "aesd_circular_buffer_add_entry cb (current_entry (aesd_device s)) = Some cb'"
    using add_entry_eq [OF inv] by blast
  have ok: "line_ok (kheap s) (entry cb ! ?i)" using lines i len by simp
  have evict: "buffptr (entry cb ! ?i) \<noteq> NULL \<longleftrightarrow> full cb" using inv i by (simp add: cb_inv_def)
  show ?thesis
  proof (cases "full cb")
    case True
    with evict ok obtain a bs where "buffptr (entry cb ! ?i) = Some a" and "kheap s a = Some bs"
      by (auto simp: line_ok_def split: option.splits)
    with True at cb' show ?thesis
      by (simp add: write_commit_def Let_def cb_def [symmetric] heap_simps release_block_def)
  next
    case False
    with evict at cb' show ?thesis
      by (simp add: write_commit_def Let_def cb_def [symmetric] release_block_def)
  qed
qed

lemma write_commit_refines:
  assumes wf: "dev_wf B s"
    and cur: "buffptr (current_entry (aesd_device s)) = Some temp"
    and block: "kheap s temp = Some bs" "length bs = unat (entry_size (current_entry (aesd_device s)))"
      "bs \<noteq> []" "last bs = newline"
  shows "\<exists>s'. write_commit s = Some s' \<and> dev_wf B s' \<and>
    device_mutex (aesd_device s') = device_mutex (aesd_device s) \<and>
    dev_abs s' = \<lparr>lines = keep_last 10 (lines (dev_abs s) @ [bs]), pending = []\<rparr>"
proof -
  let ?d = "aesd_device s" and ?h = "kheap s"
  let ?cb = "circular_buffer ?d" and ?cur = "current_entry ?d"
  let ?i = "unat (in_offs ?cb)"
  let ?h' = "release_block ?h (buffptr (entry ?cb ! ?i))"
  from wf have inv: "cb_inv ?cb" and lines: "\<And>e. e \<in> set (entry ?cb) \<Longrightarrow> line_ok ?h e"
    and pend: "pending_ok ?h ?cur"
    and dist: "distinct (owned ?d)" and dom: "dom ?h = B \<union> set (owned ?d)"
    and disj: "B \<inter> set (owned ?d) = {}"
    by (simp_all add: dev_wf_def Let_def)
  from write_commit_eq [OF wf cur] obtain cb' where
    add: "aesd_circular_buffer_add_entry ?cb ?cur = Some cb'" and
    res: "write_commit s = Some (s\<lparr>kheap := ?h', aesd_device := ?d\<lparr>circular_buffer := cb', current_entry := zero_entry\<rparr>\<rparr>)"
    by blast
  have i: "?i < length (entry ?cb)" using cb_inv_bounds [OF inv] by simp
  have entry': "entry cb' = (entry ?cb)[?i := ?cur]"
    using add_entry_eq [OF inv, of ?cur] add by simp
  note ups = ptrs_update(1) [OF i, of ?cur] ptrs_update(2) [OF i]
  have owned: "owned ?d = ptrs (entry ?cb) @ [temp]" by (simp add: owned_def cur)
  have same: "?h' a = ?h a" if "a \<in> set (ptrs (entry cb'))" for a
    using that dist unfolding owned entry' ups
    by (auto simp: release_block_def cur split: option.splits)
  have lines': "line_ok ?h' e" if "e \<in> set (entry cb')" for e
  proof -
    from that have "line_ok ?h e"
      using lines set_update_subset_insert [of "entry ?cb" ?i ?cur] cur block pend
      by (auto simp: entry' line_ok_def pending_ok_def)
    moreover from that have "?h' a = ?h a" if "buffptr e = Some a" for a
      using that same by (auto simp: set_ptrs)
    ultimately show ?thesis using line_ok_cong [of e ?h' ?h] by blast
  qed
  have inv': "cb_inv cb'" using add_entry_inv [OF inv _ add] cur by simp
  have owned': "distinct (ptrs (entry cb'))" "dom ?h' = B \<union> set (ptrs (entry cb'))"
    "B \<inter> set (ptrs (entry cb')) = {}"
    using dist dom disj unfolding owned entry' ups
    by (auto simp: release_block_def cur split: option.splits)
  have bytes: "entry_bytes ?h' e = entry_bytes ?h e" if "e \<in> set (cb_entries cb')" for e
    using that same cb_entries_subset [OF inv']
    by (intro entry_bytes_cong) (auto simp: set_ptrs)
  have "map (entry_bytes ?h') (cb_entries cb') = map (entry_bytes ?h) (keep_last 10 (cb_entries ?cb @ [?cur]))"
    using bytes by (simp add: add_entry_entries [OF inv add])
  also have "\<dots> = keep_last 10 (lines (dev_abs s) @ [bs])"
    using cur block by (simp add: dev_abs_def keep_last_map [symmetric]) (simp add: entry_bytes_def)
  finally show ?thesis
    using res inv' lines' owned'
    by (simp add: dev_wf_def Let_def dev_abs_def owned_def zero_entry_def pending_ok_def)
      (simp add: entry_bytes_def)
qed

end
