(* ===== verification/Driver_Write.thy ===== *)
theory Driver_Write
  imports Driver_Spec
begin

text \<open>
  \<open>aesd_write\<close> of \<open>aesd-char-driver/main.c\<close>: every path of the handler, from the lock to the
  insertion into the circular buffer, against the abstract write of the theory Driver_Spec.
\<close>

text \<open>The largest count the kernel passes to a handler: \<open>MAX_RW_COUNT\<close> for pages of 4 KiB.\<close>

definition MAX_RW_COUNT :: nat where
  "MAX_RW_COUNT = 0x7ffff000"

definition locked :: "kstate \<Rightarrow> kstate" where
  "locked s = s\<lparr>aesd_device := (aesd_device s)\<lparr>device_mutex := True\<rparr>\<rparr>"

definition unlocked :: "kstate \<Rightarrow> kstate" where
  "unlocked s = s\<lparr>aesd_device := (aesd_device s)\<lparr>device_mutex := False\<rparr>\<rparr>"

section \<open>Locking\<close>

lemma record_normal_forms:
  "s\<lparr>aesd_device := d, kheap := h\<rparr> = s\<lparr>kheap := h, aesd_device := d\<rparr>"
  "e\<lparr>buffptr := p\<rparr> = \<lparr>buffptr = p, entry_size = entry_size e\<rparr>"
  "e\<lparr>entry_size := z\<rparr> = \<lparr>buffptr = buffptr e, entry_size = z\<rparr>"
  by simp_all

lemma dev_wf_locked [simp]: "dev_wf B (locked s) = dev_wf B s"
  by (simp add: dev_wf_def Let_def locked_def owned_def)

lemma dev_abs_locked [simp]: "dev_abs (locked s) = dev_abs s"
  by (simp add: dev_abs_def locked_def)

lemma dev_inv_unlocked: "dev_wf B s \<Longrightarrow> dev_inv B (unlocked s)"
  by (simp add: dev_inv_def dev_wf_def Let_def unlocked_def owned_def)

lemma dev_abs_unlocked [simp]: "dev_abs (unlocked s) = dev_abs s"
  by (simp add: dev_abs_def unlocked_def)

lemma unlocked_locked: "\<not> device_mutex (aesd_device s) \<Longrightarrow> unlocked (locked s) = s"
  by (simp add: unlocked_def locked_def)

lemma locked_mutex [simp]: "device_mutex (aesd_device (locked s))"
  by (simp add: locked_def)

lemma locked_sel [simp]:
  "kheap (locked s) = kheap s"
  "circular_buffer (aesd_device (locked s)) = circular_buffer (aesd_device s)"
  "current_entry (aesd_device (locked s)) = current_entry (aesd_device s)"
  by (simp_all add: locked_def)

lemma lock_free:
  "\<not> device_mutex (aesd_device s) \<Longrightarrow>
   mutex_lock_interruptible K s = Some (lock_rc K, if lock_rc K = 0 then locked s else s)"
  by (simp add: mutex_lock_interruptible_def locked_def)

lemma unlock_held: "device_mutex (aesd_device s) \<Longrightarrow> mutex_unlock s = Some (unlocked s)"
  by (simp add: mutex_unlock_def unlocked_def)

lemmas locking = lock_free unlock_held unlocked_locked

section \<open>The bytes of the unfinished command\<close>

lemma pending_bytes:
  assumes "pending_ok h e"
  shows "length (entry_bytes h e) = unat (entry_size e)" and "unat (entry_size e) \<le> KMALLOC_MAX_SIZE"
  using assms by (auto simp: pending_ok_def entry_bytes_def split: option.splits)

lemma write_extend_eq:
  assumes pend: "pending_ok (kheap s) (current_entry (aesd_device s))"
    and fresh: "kheap s temp = None"
    and len: "unat (entry_size (current_entry (aesd_device s))) \<le> length junk"
  shows "write_extend (s\<lparr>kheap := (kheap s)(temp \<mapsto> junk)\<rparr>) temp =
    Some (s\<lparr>kheap := (release_block (kheap s) (buffptr (current_entry (aesd_device s))))
              (temp \<mapsto> entry_bytes (kheap s) (current_entry (aesd_device s)) @
                     drop (unat (entry_size (current_entry (aesd_device s)))) junk),
            aesd_device := (aesd_device s)
              \<lparr>current_entry := (current_entry (aesd_device s))\<lparr>buffptr := Some temp\<rparr>\<rparr>\<rparr>)"
proof (cases "buffptr (current_entry (aesd_device s))")
  case None
  with pend have "entry_size (current_entry (aesd_device s)) = 0" by (simp add: pending_ok_def)
  with None show ?thesis
    by (simp add: write_extend_def Let_def release_block_def entry_bytes_def)
next
  case (Some old)
  with pend obtain bs where bs: "kheap s old = Some bs"
    "unat (entry_size (current_entry (aesd_device s))) \<le> length bs"
    by (auto simp: pending_ok_def split: option.splits)
  with fresh have "old \<noteq> temp" by auto
  with Some bs len show ?thesis
    by (simp add: write_extend_def Let_def heap_simps release_block_def entry_bytes_def
        fun_upd_twist)
qed

text \<open>The handler up to the copy from user space, with the block it leaves behind.\<close>

definition extended :: "kstate \<Rightarrow> addr \<Rightarrow> byte list \<Rightarrow> size_t \<Rightarrow> kstate" where
  "extended s temp bs sz =
     s\<lparr>kheap := (release_block (kheap s) (buffptr (current_entry (aesd_device s))))(temp \<mapsto> bs),
       aesd_device := (aesd_device s)\<lparr>current_entry := \<lparr>buffptr = Some temp, entry_size = sz\<rparr>\<rparr>\<rparr>"

lemma extended_wf:
  assumes "dev_wf B s" and "kheap s temp = None"
    and "unat sz \<le> length bs" and "length bs \<le> KMALLOC_MAX_SIZE"
  shows "dev_wf B (extended s temp bs sz)"
    and "dev_abs (extended s temp bs sz) = (dev_abs s)\<lparr>pending := take (unat sz) bs\<rparr>"
  using dev_wf_replace_pending [OF assms] by (simp_all add: extended_def)

lemma extended_sel [simp]:
  "device_mutex (aesd_device (extended s temp bs sz)) = device_mutex (aesd_device s)"
  "current_entry (aesd_device (extended s temp bs sz)) = \<lparr>buffptr = Some temp, entry_size = sz\<rparr>"
  "kheap (extended s temp bs sz) temp = Some bs"
  by (simp_all add: extended_def)

lemma aesd_write_locked:
  assumes inv: "dev_inv B s" and f: "private_data f \<noteq> None" and lock: "lock_rc K = 0"
    and cur: "cur = current_entry (aesd_device s)"
    and alloc: "kmalloc K (kheap s) (entry_size cur + count) = Some (temp, junk)"
    and fresh: "kheap s temp = None"
    and len: "length junk = unat (entry_size cur) + unat count"
    and copy: "copy_from_user K buf count = (landed, left)" "length landed = unat count"
  shows "aesd_write K f buf count s =
    (let bs = entry_bytes (kheap s) cur @ landed; err = (ucast left :: c_int) in
     if err \<noteq> 0 then Some (scast err, unlocked (extended (locked s) temp bs (entry_size cur)))
     else do { c \<leftarrow> load_byte (kheap (extended (locked s) temp bs (entry_size cur + count))) temp
                     (unat (entry_size cur + count - 1));
               s' \<leftarrow> (if c = newline then write_commit (extended (locked s) temp bs (entry_size cur + count))
                      else Some (extended (locked s) temp bs (entry_size cur + count)));
               s' \<leftarrow> mutex_unlock s';
               Some (count, s') })"
proof -
  from inv have pend: "pending_ok (kheap s) cur" and free: "\<not> device_mutex (aesd_device s)"
    by (simp_all add: dev_inv_def dev_wf_def Let_def cur)
  obtain dp where dp: "private_data f = Some dp" using f by blast
  note ext = write_extend_eq [of "locked s" temp junk]
  have store: "store_bytes (h(temp \<mapsto> entry_bytes (kheap s) cur @ drop (unat (entry_size cur)) junk))
      temp (unat (entry_size cur)) landed = Some (h(temp \<mapsto> entry_bytes (kheap s) cur @ landed))" for h
    using len copy(2) by (simp add: heap_simps pending_bytes(1) [OF pend])
  show ?thesis
    using dp free lock alloc fresh len copy pend ext store
    by (simp add: aesd_write_def locking cur [symmetric] Let_def extended_def record_normal_forms
        cong: if_cong)
qed

section \<open>Every path of the handler\<close>

lemma write_size_sum:
  assumes "unat (sz :: size_t) \<le> KMALLOC_MAX_SIZE" and "unat count \<le> MAX_RW_COUNT"
  shows "unat (sz + count) = unat sz + unat count"
  using assms by (simp add: unat_simps KMALLOC_MAX_SIZE_def MAX_RW_COUNT_def)

lemma left_zero_iff:
  assumes "left \<le> (count :: size_t)" and "unat count \<le> MAX_RW_COUNT"
  shows "(ucast left :: c_int) = 0 \<longleftrightarrow> left = 0"
proof -
  have "unat left < 2 ^ 32" using assms by (simp add: word_le_nat_alt MAX_RW_COUNT_def)
  then have "unat (ucast left :: c_int) = unat left"
    by (simp add: unsigned_ucast_eq take_bit_nat_eq_self)
  then show ?thesis by (metis unat_eq_zero)
qed

lemma kmalloc_result:
  assumes "kernel_ok K" and "kmalloc K h n = Some (a, bs)"
  shows "length bs = unat n" and "unat n \<le> KMALLOC_MAX_SIZE" and "n \<noteq> 0 \<Longrightarrow> h a = None"
  using assms unfolding kernel_ok_def kmalloc_ok_def by blast+

text \<open>What the kernel's answers mean for one call, under the documented behaviour.\<close>

lemma write_alloc:
  assumes inv: "dev_inv B s" and K: "kernel_ok K" and count: "unat count \<le> MAX_RW_COUNT"
    and ne: "pending (dev_abs s) \<noteq> [] \<or> count \<noteq> 0"
    and alloc: "kmalloc K (kheap s) (entry_size (current_entry (aesd_device s)) + count) = Some (temp, junk)"
  defines "sz \<equiv> entry_size (current_entry (aesd_device s))"
  shows "unat (sz + count) = unat sz + unat count" and "0 < unat sz + unat count"
    and "kheap s temp = None" and "length junk = unat sz + unat count"
    and "unat sz + unat count \<le> KMALLOC_MAX_SIZE"
proof -
  from inv have pend: "pending_ok (kheap s) (current_entry (aesd_device s))"
    by (simp add: dev_inv_def dev_wf_def Let_def)
  note pb = pending_bytes [OF pend]
  show sum: "unat (sz + count) = unat sz + unat count"
    using write_size_sum pb(2) count by (simp add: sz_def)
  have "length (pending (dev_abs s)) = unat sz" by (simp add: dev_abs_def sz_def pb(1))
  with ne show pos: "0 < unat sz + unat count"
    by (metis add_is_0 length_0_conv neq0_conv unat_eq_zero)
  with sum have "sz + count \<noteq> 0" by (auto simp: unat_eq_zero [symmetric])
  then show "kheap s temp = None" and "length junk = unat sz + unat count"
    and "unat sz + unat count \<le> KMALLOC_MAX_SIZE"
    using kmalloc_result [OF K alloc] sum by (simp_all add: sz_def)
qed

lemma write_success:
  assumes inv: "dev_inv B s" and K: "kernel_ok K" and f: "private_data f \<noteq> None"
    and lock: "lock_rc K = 0" and count: "unat count \<le> MAX_RW_COUNT" "length buf = unat count"
    and ne: "pending (dev_abs s) \<noteq> [] \<or> count \<noteq> 0"
    and alloc: "kmalloc K (kheap s) (entry_size (current_entry (aesd_device s)) + count) \<noteq> None"
    and copied: "snd (copy_from_user K buf count) = 0"
  shows "\<exists>s'. aesd_write K f buf count s = Some (count, s') \<and> dev_inv B s' \<and>
    dev_abs s' = spec_write buf (dev_abs s)"
proof -
  let ?cur = "current_entry (aesd_device s)"
  obtain temp junk where a: "kmalloc K (kheap s) (entry_size ?cur + count) = Some (temp, junk)"
    using alloc by auto
  note al = write_alloc [OF inv K count(1) ne a]
  from K copied count have copy: "copy_from_user K buf count = (buf, 0)"
    by (simp add: kernel_ok_def copy_ok_def prod_eq_iff)
  let ?bs = "entry_bytes (kheap s) ?cur @ buf" and ?n = "entry_size ?cur + count"
  let ?s1 = "extended (locked s) temp ?bs ?n"
  from inv have wf: "dev_wf B s" and pend: "pending_ok (kheap s) ?cur"
    by (simp_all add: dev_inv_def dev_wf_def Let_def)
  have len: "length ?bs = unat ?n" using al(1) count(2) pending_bytes(1) [OF pend] by simp
  have "unat (?n - 1) = length ?bs - 1"
    using al(1,2) len by (simp add: unat_minus_one unat_eq_zero [symmetric])
  with len al(1,2) have last: "load_byte (kheap ?s1) temp (unat (?n - 1)) = Some (last ?bs)"
    by (simp add: heap_simps last_conv_nth length_0_conv [symmetric] del: length_0_conv)
  have wf1: "dev_wf B ?s1" and abs1: "dev_abs ?s1 = (dev_abs s)\<lparr>pending := ?bs\<rparr>"
    using extended_wf [of B "locked s" temp ?n ?bs] wf al len by simp_all
  note step = aesd_write_locked [OF inv f lock refl a al(3,4) copy count(2), unfolded Let_def, simplified last, simplified]
  have pend_abs: "entry_bytes (kheap s) ?cur = pending (dev_abs s)" by (simp add: dev_abs_def)
  show ?thesis
  proof (cases "last ?bs = newline")
    case True
    have ne_bs: "?bs \<noteq> []" using len al(1,2) by (metis length_greater_0_conv)
    from write_commit_refines [OF wf1, of temp ?bs] len ne_bs True obtain s2 where
      "write_commit ?s1 = Some s2" "dev_wf B s2" "device_mutex (aesd_device s2)"
      "dev_abs s2 = \<lparr>lines = keep_last 10 (lines (dev_abs ?s1) @ [?bs]), pending = []\<rparr>"
      by auto
    with True step abs1 pend_abs show ?thesis
      by (auto simp: unlock_held dev_inv_unlocked spec_write_def Let_def)
  next
    case False
    with step wf1 abs1 pend_abs show ?thesis
      by (auto simp: unlock_held dev_inv_unlocked spec_write_def Let_def)
  qed
qed

lemma write_interrupted:
  assumes "dev_inv B s" and "private_data f \<noteq> None" and "lock_rc K \<noteq> 0"
  shows "aesd_write K f buf count s = Some (scast (lock_rc K), s)"
  using assms by (auto simp: aesd_write_def dev_inv_def locking)

lemma write_no_memory:
  assumes "dev_inv B s" and "private_data f \<noteq> None" and "lock_rc K = 0"
    and "kmalloc K (kheap s) (entry_size (current_entry (aesd_device s)) + count) = None"
  shows "aesd_write K f buf count s = Some (- ENOMEM, s)"
  using assms by (auto simp: aesd_write_def dev_inv_def locking Let_def)

lemma write_copy_fault:
  assumes inv: "dev_inv B s" and K: "kernel_ok K" and f: "private_data f \<noteq> None"
    and lock: "lock_rc K = 0" and count: "unat count \<le> MAX_RW_COUNT"
    and alloc: "kmalloc K (kheap s) (entry_size (current_entry (aesd_device s)) + count) \<noteq> None"
    and left: "snd (copy_from_user K buf count) \<noteq> 0"
  shows "\<exists>s'. aesd_write K f buf count s = Some (snd (copy_from_user K buf count), s') \<and>
    dev_inv B s' \<and> dev_abs s' = dev_abs s"
proof -
  let ?cur = "current_entry (aesd_device s)"
  obtain temp junk where a: "kmalloc K (kheap s) (entry_size ?cur + count) = Some (temp, junk)"
    using alloc by auto
  obtain landed rest where copy: "copy_from_user K buf count = (landed, rest)" by fastforce
  with K have landed: "length landed = unat count" and rest: "rest \<le> count"
    unfolding kernel_ok_def copy_ok_def by (metis fst_conv, metis snd_conv)
  with left copy have "count \<noteq> 0" by auto
  then have "pending (dev_abs s) \<noteq> [] \<or> count \<noteq> 0" by simp
  note al = write_alloc [OF inv K count this a]
  from left copy left_zero_iff [OF rest count] have err: "(ucast rest :: c_int) \<noteq> 0" by simp
  have val: "(scast (ucast rest :: c_int) :: ssize_t) = rest"
    using rest count by (intro scast_ucast_small) (simp add: word_le_nat_alt MAX_RW_COUNT_def)
  let ?bs = "entry_bytes (kheap s) ?cur @ landed"
  from inv have wf: "dev_wf B s" and pend: "pending_ok (kheap s) ?cur"
    by (simp_all add: dev_inv_def dev_wf_def Let_def)
  have wf1: "dev_wf B (extended (locked s) temp ?bs (entry_size ?cur))"
    and abs1: "dev_abs (extended (locked s) temp ?bs (entry_size ?cur)) = dev_abs s"
    using extended_wf [of B "locked s" temp "entry_size ?cur" ?bs] wf al landed pending_bytes [OF pend]
    by (simp_all add: dev_abs_def)
  from aesd_write_locked [OF inv f lock refl a al(3,4) copy landed] err val wf1 abs1 copy
  show ?thesis by (simp add: Let_def dev_inv_unlocked)
qed

text \<open>
  A write of zero bytes when no command is unfinished reads the byte before the block it has
  just allocated.
\<close>

lemma write_zero_undefined:
  assumes "dev_inv B s" and "kernel_ok K" and "private_data f \<noteq> None" and "lock_rc K = 0"
    and "entry_size (current_entry (aesd_device s)) = 0"
    and "kmalloc K (kheap s) 0 \<noteq> None"
  shows "aesd_write K f [] 0 s = None"
proof -
  obtain temp junk where a: "kmalloc K (kheap s) 0 = Some (temp, junk)" using assms(6) by auto
  have junk: "junk = []" using kmalloc_result(1) [OF assms(2) a] by simp
  have none: "load_byte h temp (unat (- 1 :: size_t)) = None" if "h temp = Some []" for h
    using that by (simp add: load_byte_def)
  obtain landed left where copy: "copy_from_user K [] 0 = (landed, left)" by fastforce
  with assms(2) have "landed = []" and "left = 0"
    unfolding kernel_ok_def copy_ok_def by (metis fst_conv length_0_conv unsigned_0, metis snd_conv word_le_0_iff)
  with assms a junk copy none show ?thesis
    by (auto simp: aesd_write_def dev_inv_def locking Let_def write_extend_def memcpy_def
        load_bytes_def store_bytes_def free_block_def split: option.splits bind_splits if_splits)
qed

lemma write_total:
  assumes inv: "dev_inv B s" and K: "kernel_ok K" and f: "private_data f \<noteq> None"
    and count: "unat count \<le> MAX_RW_COUNT" "length buf = unat count"
    and ne: "pending (dev_abs s) \<noteq> [] \<or> count \<noteq> 0"
  shows "\<exists>r s'. aesd_write K f buf count s = Some (r, s') \<and> dev_inv B s' \<and>
    (dev_abs s' = dev_abs s \<or> r = count \<and> dev_abs s' = spec_write buf (dev_abs s))"
proof -
  let ?alloc = "kmalloc K (kheap s) (entry_size (current_entry (aesd_device s)) + count)"
  consider "lock_rc K \<noteq> 0" | "lock_rc K = 0" "?alloc = None"
    | "lock_rc K = 0" "?alloc \<noteq> None" "snd (copy_from_user K buf count) \<noteq> 0"
    | "lock_rc K = 0" "?alloc \<noteq> None" "snd (copy_from_user K buf count) = 0" by blast
  then show ?thesis
  proof cases
    case 1
    with inv f show ?thesis by (auto simp: write_interrupted)
  next
    case 2
    with inv f show ?thesis by (auto simp: write_no_memory)
  next
    case 3
    from write_copy_fault [OF inv K f 3(1) count(1) 3(2,3)] show ?thesis by blast
  next
    case 4
    from write_success [OF inv K f 4(1) count ne 4(2,3)] show ?thesis by blast
  qed
qed

end
