(* ===== verification/Driver_Read.thy ===== *)
theory Driver_Read
  imports Driver_Write
begin

text \<open>
  The handlers that do not change the device: \<open>aesd_read\<close>, \<open>aesd_llseek\<close> and
  \<open>aesd_unlocked_ioctl\<close> of \<open>aesd-char-driver/main.c\<close>. Each is reduced to the abstract device:
  the bytes a read delivers, and the positions the two seeks accept and compute.
\<close>

section \<open>The contents of a device\<close>

lemma dev_wf_lines:
  assumes "dev_wf B s" and "e \<in> set (cb_entries (circular_buffer (aesd_device s)))"
  shows "length (entry_bytes (kheap s) e) = unat (entry_size e)"
    and "\<exists>a. buffptr e = Some a \<and> kheap s a = Some (entry_bytes (kheap s) e)"
    and "length (entry_bytes (kheap s) e) \<le> KMALLOC_MAX_SIZE"
    and "entry_bytes (kheap s) e \<noteq> []" and "last (entry_bytes (kheap s) e) = newline"
proof -
  let ?cb = "circular_buffer (aesd_device s)"
  from assms(1) have inv: "cb_inv ?cb" and "\<And>e. e \<in> set (entry ?cb) \<Longrightarrow> line_ok (kheap s) e"
    by (simp_all add: dev_wf_def Let_def)
  with assms(2) cb_entries_subset [OF inv] have ok: "line_ok (kheap s) e" by auto
  obtain a where a: "buffptr e = Some a" using cb_entries_not_NULL [OF inv assms(2)] by auto
  with ok obtain bs where "kheap s a = Some bs" and bs: "length bs = unat (entry_size e)"
    "length bs \<le> KMALLOC_MAX_SIZE" "bs \<noteq> []" "last bs = newline"
    by (auto simp: line_ok_def split: option.splits)
  with a have "entry_bytes (kheap s) e = bs" by (simp add: entry_bytes_def)
  with a bs \<open>kheap s a = Some bs\<close> show "length (entry_bytes (kheap s) e) = unat (entry_size e)"
    and "\<exists>a. buffptr e = Some a \<and> kheap s a = Some (entry_bytes (kheap s) e)"
    and "length (entry_bytes (kheap s) e) \<le> KMALLOC_MAX_SIZE"
    and "entry_bytes (kheap s) e \<noteq> []" and "last (entry_bytes (kheap s) e) = newline"
    by simp_all
qed

lemma dev_wf_line:
  assumes "dev_wf B s" and "l \<in> set (lines (dev_abs s))"
  shows "l \<noteq> [] \<and> last l = newline \<and> length l \<le> KMALLOC_MAX_SIZE"
proof -
  from assms(2) obtain e where "e \<in> set (cb_entries (circular_buffer (aesd_device s)))"
    and "l = entry_bytes (kheap s) e" by (auto simp: dev_abs_def)
  then show ?thesis using dev_wf_lines(3-5) [OF assms(1)] by simp
qed

lemma dev_lines_sizes:
  assumes "dev_wf B s"
  shows "map length (lines (dev_abs s)) = cb_sizes (circular_buffer (aesd_device s))"
  using dev_wf_lines(1) [OF assms] by (simp add: dev_abs_def cb_sizes_def)

lemma length_lines: "length (lines (dev_abs s)) = cb_count (circular_buffer (aesd_device s))"
  by (simp add: dev_abs_def)

lemma length_line_nth:
  assumes "dev_wf B s" and "j < length (lines (dev_abs s))"
  shows "length (lines (dev_abs s) ! j) = unat (entry_size (slot (circular_buffer (aesd_device s)) j))"
proof -
  have "map length (lines (dev_abs s)) ! j = cb_sizes (circular_buffer (aesd_device s)) ! j"
    by (simp only: dev_lines_sizes [OF assms(1)])
  with assms(2) show ?thesis by (simp add: length_lines cb_sizes_def cb_entries_nth)
qed

lemma sum_list_bound: "(\<And>x. x \<in> set xs \<Longrightarrow> x \<le> (b :: nat)) \<Longrightarrow> sum_list xs \<le> length xs * b"
  by (induction xs) (auto intro: add_mono)

lemma contents_bound:
  assumes "dev_wf B s"
  shows "length (contents (dev_abs s)) \<le> 10 * KMALLOC_MAX_SIZE"
proof -
  let ?L = "lines (dev_abs s)"
  have "\<And>x. x \<in> set (map length ?L) \<Longrightarrow> x \<le> KMALLOC_MAX_SIZE"
    using dev_wf_lines(3) [OF assms] by (auto simp: dev_abs_def)
  then have "sum_list (map length ?L) \<le> length ?L * KMALLOC_MAX_SIZE"
    using sum_list_bound [of "map length ?L"] by simp
  also have "\<dots> \<le> 10 * KMALLOC_MAX_SIZE"
    by (simp add: length_lines cb_count_le)
  finally show ?thesis by (simp add: contents_def sum_list_lengths)
qed

section \<open>Reading\<close>

text \<open>Inside the contents a read delivers the rest of one line, cut to the count.\<close>

lemma read_inside:
  assumes inv: "dev_inv B s" and f: "private_data f \<noteq> None" and lock: "lock_rc K = 0"
    and pos: "unat pos < length (contents (dev_abs s))"
  obtains k off where "locate (map length (lines (dev_abs s))) (unat pos) = Some (k, off)"
    and "aesd_read K f count pos s =
      (let src = take (unat count) (drop off (lines (dev_abs s) ! k));
           (landed, left) = copy_to_user K src; err = (ucast left :: c_int) in
       if err \<noteq> 0 then Some (scast err, pos, landed, s)
       else Some (of_nat (length src), pos + of_nat (length src), landed, s))"
proof -
  let ?cb = "circular_buffer (aesd_device s)" and ?h = "kheap s"
  from inv have wf: "dev_wf B s" and free: "\<not> device_mutex (aesd_device s)" and cb: "cb_inv ?cb"
    by (simp_all add: dev_inv_def dev_wf_def Let_def)
  have sizes: "map (\<lambda>e. unat (entry_size e)) (cb_entries ?cb) = map length (lines (dev_abs s))"
    using dev_lines_sizes [OF wf] by (simp add: cb_sizes_def)
  from pos have "\<not> sum_list (map length (lines (dev_abs s))) \<le> unat pos"
    by (simp add: contents_def sum_list_lengths)
  then obtain i off where found: "aesd_circular_buffer_find_entry_offset_for_fpos ?cb pos = Some (Some (i, off))"
    using cb.find_total [OF cb, of pos] cb.find_None_iff [OF cb, of pos] unfolding sizes by blast
  with cb.find_found [OF cb found] obtain k where
    loc: "locate (map length (lines (dev_abs s))) (unat pos) = Some (k, unat off)" and
    at: "entry_at ?cb i = Some (cb_entries ?cb ! k)" unfolding sizes by blast
  from locate_concat(1,2) [OF loc] have k: "k < cb_count ?cb" and off: "unat off < length (lines (dev_abs s) ! k)"
    by (simp_all add: length_lines)
  let ?e = "cb_entries ?cb ! k" and ?line = "lines (dev_abs s) ! k"
  have e: "?e \<in> set (cb_entries ?cb)" and line: "?line = entry_bytes ?h ?e"
    using k by (simp_all add: dev_abs_def)
  obtain a where a: "buffptr ?e = Some a" "?h a = Some ?line" using dev_wf_lines(2) [OF wf e] line by auto
  have size: "unat (entry_size ?e) = length ?line" using dev_wf_lines(1) [OF wf e] line by simp
  define n where "n = (if count < entry_size ?e - off then count else entry_size ?e - off)"
  have n: "unat n = min (length ?line - unat off) (unat count)"
    using off size by (simp add: n_def word_less_nat_alt unat_minus_le word_le_nat_alt)
  have src: "load_bytes ?h a (unat off) (unat n) = Some (take (unat count) (drop (unat off) ?line))"
    using a off n by (simp add: heap_simps min_def)
  have len: "of_nat (min (length ?line - unat off) (unat count)) = n"
    unfolding n [symmetric] by simp
  show ?thesis
    using f free lock found at a src len n_def
    by (intro that [OF loc], cases "count < entry_size ?e - off")
      (auto simp: aesd_read_def locking Let_def case_prod_unfold)
qed

lemma read_at_end:
  assumes inv: "dev_inv B s" and f: "private_data f \<noteq> None" and lock: "lock_rc K = 0"
    and pos: "length (contents (dev_abs s)) \<le> unat pos"
  shows "aesd_read K f count pos s = Some (0, pos, [], s)"
proof -
  let ?cb = "circular_buffer (aesd_device s)"
  from inv have wf: "dev_wf B s" and free: "\<not> device_mutex (aesd_device s)" and cb: "cb_inv ?cb"
    by (simp_all add: dev_inv_def dev_wf_def Let_def)
  have "sum_list (map (\<lambda>e. unat (entry_size e)) (cb_entries ?cb)) \<le> unat pos"
    using pos dev_lines_sizes [OF wf] by (simp add: cb_sizes_def contents_def flip: sum_list_lengths)
  then have "aesd_circular_buffer_find_entry_offset_for_fpos ?cb pos = Some None"
    using cb.find_None_iff [OF cb] by simp
  with f free lock show ?thesis by (auto simp: aesd_read_def locking)
qed

text \<open>
  What a read gives: the rest of the line in which the position lies, cut to the count, and
  nothing from the end of the contents on.
\<close>

definition spec_read :: "nat \<Rightarrow> nat \<Rightarrow> alog \<Rightarrow> byte list" where
  "spec_read n p l =
     (case locate (map length (lines l)) p of
        None \<Rightarrow> []
      | Some (k, off) \<Rightarrow> take n (drop off (lines l ! k)))"

lemma spec_read_prefix:
  "spec_read n p l = take (length (spec_read n p l)) (drop p (contents l))"
proof (cases "locate (map length (lines l)) p")
  case (Some y)
  then obtain k off where loc: "locate (map length (lines l)) p = Some (k, off)" by (cases y) simp
  then show ?thesis
    by (simp only: spec_read_def contents_def locate_concat(3) [OF loc] take_length_take_append
        option.case prod.case)
qed (simp add: spec_read_def)

lemma length_spec_read: "length (spec_read n p l) \<le> n"
  by (auto simp: spec_read_def split: option.split)

lemma spec_read_Nil_iff: "0 < n \<Longrightarrow> spec_read n p l = [] \<longleftrightarrow> length (contents l) \<le> p"
proof (cases "locate (map length (lines l)) p")
  case None
  then have "length (contents l) \<le> p" using locate_None_iff [of "map length (lines l)" p]
    by (simp add: contents_def sum_list_lengths)
  with None show ?thesis by (simp add: spec_read_def)
next
  case (Some y)
  then obtain k off where loc: "locate (map length (lines l)) p = Some (k, off)" by (cases y) simp
  then have "\<not> length (contents l) \<le> p" using locate_None_iff [of "map length (lines l)" p]
    by (simp add: contents_def sum_list_lengths)
  moreover assume "0 < n"
  ultimately show ?thesis using loc locate_concat(2) [OF loc] by (simp add: spec_read_def)
qed

text \<open>
  A read that the copy to user space completes gives exactly that, and the position advances past it.
\<close>

lemma read_exact:
  assumes inv: "dev_inv B s" and f: "private_data f \<noteq> None" and lock: "lock_rc K = 0"
    and K: "kernel_ok K" and copied: "\<And>bs. snd (copy_to_user K bs) = 0"
    and bs: "bs = spec_read (unat count) (unat pos) (dev_abs s)"
  shows "aesd_read K f count pos s = Some (of_nat (length bs), pos + of_nat (length bs), bs, s)"
proof (cases "unat pos < length (contents (dev_abs s))")
  case True
  obtain k off where loc: "locate (map length (lines (dev_abs s))) (unat pos) = Some (k, off)"
    and eq: "aesd_read K f count pos s =
      (let src = take (unat count) (drop off (lines (dev_abs s) ! k));
           (landed, left) = copy_to_user K src; err = (ucast left :: c_int) in
       if err \<noteq> 0 then Some (scast err, pos, landed, s)
       else Some (of_nat (length src), pos + of_nat (length src), landed, s))"
    by (rule read_inside [OF inv f lock True])
  have "copy_to_user K bs = (bs, 0)"
    using K copied by (simp add: kernel_ok_def copy_ok_def prod_eq_iff)
  moreover have "bs = take (unat count) (drop off (lines (dev_abs s) ! k))" by (simp add: bs spec_read_def loc)
  ultimately show ?thesis by (simp add: eq Let_def)
next
  case False
  then have "bs = []"
    by (simp add: bs spec_read_def locate_None_iff [THEN iffD2] contents_def sum_list_lengths)
  with False read_at_end [OF inv f lock] show ?thesis by simp
qed

text \<open>When the copy fails, the return value is the number of bytes that were not copied.\<close>

lemma read_copy_fault:
  assumes inv: "dev_inv B s" and f: "private_data f \<noteq> None" and lock: "lock_rc K = 0"
    and K: "kernel_ok K" and fault: "\<And>bs. bs \<noteq> [] \<Longrightarrow> snd (copy_to_user K bs) \<noteq> 0"
    and pos: "unat pos < length (contents (dev_abs s))" and count: "0 < unat count"
  shows "\<exists>r landed. aesd_read K f count pos s = Some (r, pos, landed, s) \<and> 0 < sint r \<and>
    sint r \<le> int (unat count)"
proof -
  obtain k off where loc: "locate (map length (lines (dev_abs s))) (unat pos) = Some (k, off)"
    and eq: "aesd_read K f count pos s =
      (let src = take (unat count) (drop off (lines (dev_abs s) ! k));
           (landed, left) = copy_to_user K src; err = (ucast left :: c_int) in
       if err \<noteq> 0 then Some (scast err, pos, landed, s)
       else Some (of_nat (length src), pos + of_nat (length src), landed, s))"
    by (rule read_inside [OF inv f lock pos])
  let ?src = "take (unat count) (drop off (lines (dev_abs s) ! k))"
  obtain landed left where copy: "copy_to_user K ?src = (landed, left)" by fastforce
  have "?src \<noteq> []" using locate_concat(2) [OF loc] count by simp
  with fault copy have left: "left \<noteq> 0" by (metis snd_conv)
  have "unat left \<le> length ?src"
    using K copy unfolding kernel_ok_def copy_ok_def by (metis snd_conv)
  moreover have "length ?src \<le> length (lines (dev_abs s) ! k)" by simp
  moreover have "length (lines (dev_abs s) ! k) \<le> KMALLOC_MAX_SIZE"
    using dev_wf_lines(3) [of B s] inv locate_concat(1) [OF loc]
    by (simp add: dev_inv_def dev_abs_def length_lines)
  ultimately have small: "unat left < 2 ^ 31" "unat left \<le> unat count"
    by (auto simp: KMALLOC_MAX_SIZE_def)
  then have "unat (ucast left :: c_int) = unat left"
    by (simp add: unsigned_ucast_eq take_bit_nat_eq_self)
  with left have err: "(ucast left :: c_int) \<noteq> 0" by (metis unat_eq_zero)
  have "aesd_read K f count pos s = Some (left, pos, landed, s)"
    using eq copy err scast_ucast_small [OF small(1)] by (simp add: Let_def)
  moreover have "sint left = int (unat left)" using small by (intro sint_small) simp
  ultimately show ?thesis using left small(2) by (auto simp: unat_gt_0 simp del: of_nat_unat)
qed

section \<open>Adding up sizes\<close>

lemma num_entries_count: "cb_inv cb \<Longrightarrow> num_entries cb = of_nat (cb_count cb)"
proof -
  assume inv: "cb_inv cb"
  have "sint (ucast (in_offs cb) :: ssize_t) = int (unat (in_offs cb))"
    using cb_inv_bounds(2) [OF inv]
    by (subst sint_small) (simp_all add: unat_ucast_up)
  with inv show ?thesis
    by (cases "full cb")
      (simp_all add: num_entries_def cb_inv_not_full cb_count_not_full Let_def, simp add: cb_count_def)
qed

lemma sint_num_entries: "cb_inv cb \<Longrightarrow> sint (num_entries cb) = int (cb_count cb)"
  using cb_count_le [of cb] by (simp add: num_entries_count sint_small unat_of_nat_small)

text \<open>The loop of the two seek handlers visits the entries in their order, around the end.\<close>

lemma add_sizes_slots:
  assumes "cb_inv cb"
  shows "add_sizes cb n (of_nat ((unat (out_offs cb) + k) mod 10)) acc =
    Some (of_nat ((unat (out_offs cb) + k + n) mod 10),
          acc + of_nat (\<Sum>j<n. unat (entry_size (slot cb (k + j)))))"
proof (induction n arbitrary: k acc)
  case 0
  show ?case by simp
next
  case (Suc n)
  let ?i = "(unat (out_offs cb) + k) mod 10"
  have at: "entry_at cb (of_nat ?i) = Some (slot cb k)"
    using cb_inv_bounds(1) [OF assms] by (simp add: entry_at_def unat_of_nat_small slot_def)
  have u: "unat (of_nat ?i + 1 :: ssize_t) = ?i + 1"
    by (simp add: unat_plus_small unat_of_nat_small)
  then have "sint (of_nat ?i + 1 :: ssize_t) = int (?i + 1)" by (subst sint_small) simp_all
  then have "(if 10 \<le> sint (of_nat ?i + 1 :: ssize_t) then 0 else of_nat ?i + 1 :: ssize_t) =
      of_nat ((unat (out_offs cb) + Suc k) mod 10)"
    by (auto simp: mod_Suc add.commute)
  with at Suc.IH [of "Suc k" "acc + entry_size (slot cb k)"] show ?case
    by (simp add: Let_def sum.lessThan_Suc_shift add.assoc del: sum.lessThan_Suc)
qed

lemma add_sizes_lines:
  assumes wf: "dev_wf B s" and n: "n \<le> length (lines (dev_abs s))"
  defines "cb \<equiv> circular_buffer (aesd_device s)"
  shows "add_sizes cb n (ucast (out_offs cb)) 0 =
    Some (of_nat ((unat (out_offs cb) + n) mod 10),
          of_nat (length (concat (take n (lines (dev_abs s))))))"
proof -
  from wf have inv: "cb_inv cb" by (simp add: dev_wf_def Let_def cb_def)
  let ?L = "lines (dev_abs s)"
  have len: "length (?L ! j) = unat (entry_size (slot cb j))" if "j < n" for j
    using that n length_line_nth [OF wf, of j] by (simp add: cb_def)
  have "(\<Sum>j<n. unat (entry_size (slot cb (0 + j)))) = (\<Sum>j<n. length (?L ! j))"
    by (simp add: len)
  also have "\<dots> = sum_list (map length (take n ?L))"
    using n by (simp add: sum_list_sum_nth atLeast0LessThan min_def)
  finally have "(\<Sum>j<n. unat (entry_size (slot cb (0 + j)))) = length (concat (take n ?L))"
    by (simp add: sum_list_lengths)
  moreover have "(of_nat ((unat (out_offs cb) + 0) mod 10) :: ssize_t) = ucast (out_offs cb)"
    using cb_inv_bounds(3) [OF inv] by simp
  ultimately show ?thesis using add_sizes_slots [OF inv, of n 0 0] by simp
qed

section \<open>Seeking\<close>

definition seek_base :: "alog \<Rightarrow> loff_t \<Rightarrow> c_int \<Rightarrow> int option" where
  "seek_base l pos whence =
     (if whence = SEEK_SET then Some 0
      else if whence = SEEK_CUR then Some (sint pos)
      else if whence = SEEK_END then Some (int (length (contents l))) else None)"

lemma add_sizes_all:
  assumes "dev_wf B s"
  defines "cb \<equiv> circular_buffer (aesd_device s)"
  shows "add_sizes cb (nat (sint (num_entries cb))) (ucast (out_offs cb)) 0 =
      Some (of_nat ((unat (out_offs cb) + cb_count cb) mod 10), of_nat (length (contents (dev_abs s))))"
proof -
  have "cb_inv cb" using assms by (simp add: dev_wf_def Let_def)
  then show ?thesis
    using add_sizes_lines [OF assms(1), of "cb_count cb"]
    by (simp add: sint_num_entries length_lines contents_def cb_def)
qed

text \<open>The position a seek sets is exact where the sum fits into 64 bits.\<close>

lemma llseek_result:
  assumes inv: "dev_inv B s" and f: "private_data f \<noteq> None" and lock: "lock_rc K = 0"
    and range: "\<And>b. seek_base (dev_abs s) (f_pos f) whence = Some b \<Longrightarrow>
      - (2 ^ 63) \<le> b + sint offset \<and> b + sint offset < 2 ^ 63"
  shows "aesd_llseek K f offset whence s =
    Some (case seek_base (dev_abs s) (f_pos f) whence of
            None \<Rightarrow> (- EINVAL, f, s)
          | Some b \<Rightarrow> let p = b + sint offset in
              if p < 0 then (- EINVAL, f, s) else (word_of_int p, f\<lparr>f_pos := word_of_int p\<rparr>, s))"
proof -
  let ?cb = "circular_buffer (aesd_device s)" and ?L = "lines (dev_abs s)"
  let ?n = "length (contents (dev_abs s))"
  from inv have wf: "dev_wf B s" and free: "\<not> device_mutex (aesd_device s)"
    by (simp_all add: dev_inv_def)
  note total = add_sizes_all [OF wf]
  have "?n < 2 ^ 63" using contents_bound [OF wf] by (simp add: KMALLOC_MAX_SIZE_def)
  then have n: "sint (of_nat ?n :: loff_t) = int ?n"
    by (simp add: sint_small unat_of_nat_small)
  have sum: "sint (a + offset) = sint a + sint offset"
    if "seek_base (dev_abs s) (f_pos f) whence = Some (sint a)" for a
    using range [OF that] by (simp add: sint_plus_small)
  show ?thesis
    using f free lock total n sum [of "f_pos f"] sum [of "of_nat ?n"] sum [of 0]
    by (auto simp: aesd_llseek_def locking Let_def seek_base_def SEEK_SET_def SEEK_CUR_def SEEK_END_def)
qed

definition seek_ok :: "alog \<Rightarrow> aesd_seekto \<Rightarrow> bool" where
  "seek_ok l sk \<longleftrightarrow>
     unat (write_cmd sk) < length (lines l) \<and>
     unat (write_cmd_offset sk) < length (lines l ! unat (write_cmd sk))"

definition seek_pos :: "alog \<Rightarrow> aesd_seekto \<Rightarrow> nat" where
  "seek_pos l sk =
     length (concat (take (unat (write_cmd sk)) (lines l))) + unat (write_cmd_offset sk)"

lemma ioctl_result:
  assumes inv: "dev_inv B s" and f: "private_data f \<noteq> None" and lock: "lock_rc K = 0"
    and copied: "copy_seekto_from_user K arg = (sk, 0)"
  shows "aesd_unlocked_ioctl K f AESDCHAR_IOCSEEKTO arg s =
    Some (if seek_ok (dev_abs s) sk
          then (of_nat (seek_pos (dev_abs s) sk), f\<lparr>f_pos := of_nat (seek_pos (dev_abs s) sk)\<rparr>, s)
          else (- EINVAL, f, s))"
proof -
  let ?cb = "circular_buffer (aesd_device s)" and ?L = "lines (dev_abs s)"
  let ?i = "unat (write_cmd sk)"
  from inv have wf: "dev_wf B s" and free: "\<not> device_mutex (aesd_device s)" and cb: "cb_inv ?cb"
    by (simp_all add: dev_inv_def dev_wf_def Let_def)
  obtain dp where dp: "private_data f = Some dp" using f by blast
  have u: "uint (write_cmd sk) = int ?i" by simp
  have bound: "sint (num_entries ?cb) \<le> uint (write_cmd sk) \<longleftrightarrow> \<not> ?i < length ?L"
    by (simp only: sint_num_entries [OF cb] u length_lines not_less of_nat_le_iff)
  show ?thesis
  proof (cases "?i < length ?L")
    case False
    with dp free lock copied bound show ?thesis
      by (simp add: aesd_unlocked_ioctl_def locking Let_def seek_ok_def)
  next
    case True
    then have i: "?i < 10" using cb_count_le [of ?cb] by (simp add: length_lines)
    have sum: "add_sizes ?cb ?i (ucast (out_offs ?cb)) 0 =
        Some (of_nat ((unat (out_offs ?cb) + ?i) mod 10), of_nat (length (concat (take ?i ?L))))"
      using add_sizes_lines [OF wf, of ?i] True by simp
    have at: "entry_at ?cb (of_nat ((unat (out_offs ?cb) + ?i) mod 10)) = Some (slot ?cb ?i)"
      using entry_at_slot [OF cb i] loop_offset_index [OF cb i] by simp
    have "length (?L ! ?i) = unat (entry_size (slot ?cb ?i))"
      using True by (rule length_line_nth [OF wf])
    then have off: "entry_size (slot ?cb ?i) \<le> ucast (write_cmd_offset sk) \<longleftrightarrow>
        \<not> unat (write_cmd_offset sk) < length (?L ! ?i)"
      by (simp add: word_le_nat_alt unat_ucast_up not_less)
    from dp free lock copied bound True sum at off show ?thesis
      by (simp add: aesd_unlocked_ioctl_def locking Let_def seek_ok_def seek_pos_def)
  qed
qed

text \<open>An accepted seek goes to a byte of the contents.\<close>

lemma seek_locates:
  "seek_ok l sk \<Longrightarrow>
   locate (map length (lines l)) (seek_pos l sk) = Some (unat (write_cmd sk), unat (write_cmd_offset sk))"
  using locate_at [of "unat (write_cmd sk)" "map length (lines l)"]
  by (simp add: seek_ok_def seek_pos_def take_map sum_list_lengths)

lemma seek_pos_inside: "seek_ok l sk \<Longrightarrow> seek_pos l sk < length (contents l)"
  using seek_locates [of l sk] locate_None_iff [of "map length (lines l)" "seek_pos l sk"]
  by (simp add: contents_def sum_list_lengths)

lemma ioctl_rejects:
  assumes "dev_inv B s" and "private_data f \<noteq> None"
    and "lock_rc K \<noteq> 0 \<or> cmd \<noteq> AESDCHAR_IOCSEEKTO \<or> snd (copy_seekto_from_user K sk) \<noteq> 0"
  shows "aesd_unlocked_ioctl K f cmd sk s = Some (- EINVAL, f, s)"
  using assms by (auto simp: aesd_unlocked_ioctl_def dev_inv_def locking Let_def case_prod_unfold)

section \<open>The three handlers always return and leave the device as it was\<close>

lemma read_total:
  assumes inv: "dev_inv B s" and f: "private_data f \<noteq> None"
  shows "\<exists>r pos' bs. aesd_read K f count pos s = Some (r, pos', bs, s)"
proof (cases "lock_rc K = 0")
  case True
  show ?thesis
  proof (cases "unat pos < length (contents (dev_abs s))")
    case inside: True
    show ?thesis
      by (rule read_inside [OF inv f True inside, of count]) (auto simp: Let_def case_prod_unfold)
  next
    case False
    with read_at_end [OF inv f True] show ?thesis by simp
  qed
next
  case False
  with inv f show ?thesis by (auto simp: aesd_read_def dev_inv_def locking)
qed

lemma llseek_total:
  assumes inv: "dev_inv B s" and f: "private_data f \<noteq> None"
  shows "\<exists>r f'. aesd_llseek K f offset whence s = Some (r, f', s) \<and> private_data f' = private_data f"
proof -
  from inv have wf: "dev_wf B s" and free: "\<not> device_mutex (aesd_device s)"
    by (simp_all add: dev_inv_def)
  with f add_sizes_all [OF wf] show ?thesis
    by (auto simp: aesd_llseek_def locking Let_def)
qed

lemma ioctl_total:
  assumes inv: "dev_inv B s" and f: "private_data f \<noteq> None"
  shows "\<exists>r f'. aesd_unlocked_ioctl K f cmd arg s = Some (r, f', s) \<and> private_data f' = private_data f"
proof (cases "lock_rc K \<noteq> 0 \<or> cmd \<noteq> AESDCHAR_IOCSEEKTO \<or> snd (copy_seekto_from_user K arg) \<noteq> 0")
  case True
  from ioctl_rejects [OF inv f this] show ?thesis by simp
next
  case False
  then obtain sk where "copy_seekto_from_user K arg = (sk, 0)" by (metis prod.collapse)
  with False ioctl_result [OF inv f] show ?thesis by auto
qed

end
