(* ===== verification/Transition_System.thy ===== *)
theory Transition_System
  imports Main
begin

text \<open>
  The interface between a step relation and the safety arguments about it: a transition system
  with a predicate that holds initially and that every step keeps. The reachable states are
  those of the reflexive transitive closure.
\<close>

locale invariant_system =
  fixes init :: "'s \<Rightarrow> bool"
    and step :: "'s \<Rightarrow> 's \<Rightarrow> bool"
    and inv :: "'s \<Rightarrow> bool"
  assumes init_inv: "init s \<Longrightarrow> inv s"
    and step_inv: "inv s \<Longrightarrow> step s t \<Longrightarrow> inv t"
begin

lemma steps_inv: "step\<^sup>*\<^sup>* s t \<Longrightarrow> inv s \<Longrightarrow> inv t"
  by (induction rule: rtranclp_induct) (auto intro: step_inv)

lemma reachable_inv: "init s \<Longrightarrow> step\<^sup>*\<^sup>* s t \<Longrightarrow> inv t"
  using steps_inv init_inv by blast

end

text \<open>
  A system whose steps are matched by a relation on abstract states: an abstract run follows
  every concrete run.
\<close>

locale simulation = invariant_system init step inv
  for init :: "'s \<Rightarrow> bool"
    and step :: "'s \<Rightarrow> 's \<Rightarrow> bool"
    and inv :: "'s \<Rightarrow> bool" +
  fixes abstr :: "'s \<Rightarrow> 'a"
    and astep :: "'a \<Rightarrow> 'a \<Rightarrow> bool"
  assumes step_sim: "inv s \<Longrightarrow> step s t \<Longrightarrow> astep\<^sup>*\<^sup>* (abstr s) (abstr t)"
begin

lemma steps_sim: "step\<^sup>*\<^sup>* s t \<Longrightarrow> inv s \<Longrightarrow> astep\<^sup>*\<^sup>* (abstr s) (abstr t)"
proof (induction rule: rtranclp_induct)
  case base
  show ?case by simp
next
  case (step t u)
  then show ?case using step_sim [of t u] steps_inv by (meson rtranclp_trans)
qed

lemma reachable_sim: "init s \<Longrightarrow> step\<^sup>*\<^sup>* s t \<Longrightarrow> astep\<^sup>*\<^sup>* (abstr s) (abstr t)"
  using steps_sim init_inv by blast

end

text \<open>
  A run with a record of what its steps have done: every step adds a list of labels, which may be
  empty.
\<close>

inductive recorded :: "('s \<Rightarrow> 'l list \<Rightarrow> 's \<Rightarrow> bool) \<Rightarrow> 's \<Rightarrow> 'l list \<Rightarrow> 's \<Rightarrow> bool" for act where
  recorded_nil: "recorded act s [] s"
| recorded_snoc: "recorded act s ls t \<Longrightarrow> act t ms u \<Longrightarrow> recorded act s (ls @ ms) u"

text \<open>
  A system whose state is, seen abstractly, the effect of the recorded labels one after the other; every
  run of it has a record.
\<close>

locale recorded_system = invariant_system init step inv
  for init :: "'s \<Rightarrow> bool"
    and step :: "'s \<Rightarrow> 's \<Rightarrow> bool"
    and inv :: "'s \<Rightarrow> bool" +
  fixes act :: "'s \<Rightarrow> 'l list \<Rightarrow> 's \<Rightarrow> bool"
    and abstr :: "'s \<Rightarrow> 'a"
    and effect :: "'l \<Rightarrow> 'a \<Rightarrow> 'a"
  assumes act_step: "act s ls t \<Longrightarrow> step s t"
    and step_act: "step s t \<Longrightarrow> \<exists>ls. act s ls t"
    and act_effect: "inv s \<Longrightarrow> act s ls t \<Longrightarrow> abstr t = fold effect ls (abstr s)"
begin

lemma recorded_effect: "recorded act s ls t \<Longrightarrow> inv s \<Longrightarrow> inv t \<and> abstr t = fold effect ls (abstr s)"
  by (induction rule: recorded.induct) (auto dest: act_effect act_step intro: step_inv)

lemma run_recorded: "step\<^sup>*\<^sup>* s t \<Longrightarrow> \<exists>ls. recorded act s ls t"
  by (induction rule: rtranclp_induct) (auto dest!: step_act intro: recorded_nil recorded_snoc)

lemma recorded_run: "recorded act s ls t \<Longrightarrow> step\<^sup>*\<^sup>* s t"
  by (induction rule: recorded.induct) (auto dest: act_step intro: rtranclp.rtrancl_into_rtrancl)

end

text \<open>
  A system that gets somewhere: once it is live it stays so, every step that changes the state goes
  down in a well-founded order, and short of the goal there is always such a step. An
  infinite run that takes some step that changes the state whenever there is one reaches the goal;
  steps that change nothing may come in between.
\<close>

locale progress_system = invariant_system init step inv
  for init :: "'s \<Rightarrow> bool"
    and step :: "'s \<Rightarrow> 's \<Rightarrow> bool"
    and inv :: "'s \<Rightarrow> bool" +
  fixes live :: "'s \<Rightarrow> bool"
    and goal :: "'s \<Rightarrow> bool"
    and decr :: "('s \<times> 's) set"
  assumes wf_decr: "wf decr"
    and live_step: "inv s \<Longrightarrow> live s \<Longrightarrow> step s t \<Longrightarrow> live t"
    and decreases: "inv s \<Longrightarrow> live s \<Longrightarrow> \<not> goal s \<Longrightarrow> step s t \<Longrightarrow> t = s \<or> (t, s) \<in> decr"
    and not_stuck: "inv s \<Longrightarrow> live s \<Longrightarrow> \<not> goal s \<Longrightarrow> \<exists>t. step s t \<and> t \<noteq> s"
begin

text \<open>The first change of the state after the moment \<open>n\<close>.\<close>

lemma first_change:
  assumes "m \<ge> n" and "f (Suc m) \<noteq> f m"
  shows "\<exists>k \<ge> n. f k = f n \<and> f (Suc k) \<noteq> f k"
proof (rule ccontr)
  assume none: "\<not> (\<exists>k \<ge> n. f k = f n \<and> f (Suc k) \<noteq> f k)"
  have "f k = f n" if "n \<le> k" for k
    using that by (induction k rule: dec_induct) (use none in auto)
  with assms show False by (metis le_SucI)
qed

lemma inevitable:
  assumes run: "\<And>n. step (f n) (f (Suc n))"
    and fair: "\<And>n. \<exists>t. step (f n) t \<and> t \<noteq> f n \<Longrightarrow> \<exists>m \<ge> n. f (Suc m) \<noteq> f m"
    and "inv (f n)" and "live (f n)"
  shows "\<exists>m \<ge> n. goal (f m)"
  using assms(3,4)
proof (induction "f n" arbitrary: n rule: wf_induct_rule [OF wf_decr])
  case 1
  show ?case
  proof (cases "goal (f n)")
    case False
    then have "\<exists>t. step (f n) t \<and> t \<noteq> f n" using not_stuck 1 by blast
    then obtain m where "m \<ge> n" "f (Suc m) \<noteq> f m" using fair by blast
    then obtain k where k: "k \<ge> n" "f k = f n" "f (Suc k) \<noteq> f k" using first_change by blast
    have st: "step (f n) (f (Suc k))" using run [of k] k(2) by simp
    then have "(f (Suc k), f n) \<in> decr" using decreases [OF 1(2,3) False st] k by simp
    moreover have "inv (f (Suc k))" "live (f (Suc k))"
      using step_inv [OF 1(2) st] live_step [OF 1(2,3) st] by simp_all
    ultimately obtain m where "m \<ge> Suc k" "goal (f m)" using 1(1) by blast
    with k(1) show ?thesis by (intro exI [of _ m]) simp
  qed auto
qed

end

end
