(* ===== verification/Driver_Module.thy ===== *)
theory Driver_Module
  imports Driver_Read Transition_System
begin

text \<open>
  The life of the module: \<open>aesd_init_module\<close>, \<open>aesd_cleanup_module\<close>, and in between any
  sequence of the file operations on any number of open files. Every operation takes the mutex of
  the device for its whole body, so one operation is one step of the system.
\<close>

section \<open>The system\<close>

record driver =
  ks :: kstate
  files :: "nat \<rightharpoonup> kfile"

definition new_file :: kfile where
  "new_file = \<lparr>f_pos = 0, private_data = None\<rparr>"

text \<open>
  One system call on an open file. The kernel passes the position of the file to a read and
  stores the new one, and calls the other handlers with the file itself.
\<close>

inductive drv_step :: "driver \<Rightarrow> driver \<Rightarrow> bool" where
  drv_open: "files s fd = None \<Longrightarrow> aesd_open \<lparr>i_cdev = Aesd_device\<rparr> new_file = (0, f) \<Longrightarrow>
     drv_step s (s\<lparr>files := (files s)(fd \<mapsto> f)\<rparr>)"
| drv_release: "files s fd = Some f \<Longrightarrow> aesd_release \<lparr>i_cdev = Aesd_device\<rparr> f = (0, f') \<Longrightarrow>
     drv_step s (s\<lparr>files := (files s)(fd := None)\<rparr>)"
| drv_read: "files s fd = Some f \<Longrightarrow> kernel_ok K \<Longrightarrow> unat count \<le> MAX_RW_COUNT \<Longrightarrow>
     aesd_read K f count (f_pos f) (ks s) = Some (r, pos, bs, k) \<Longrightarrow>
     drv_step s (s\<lparr>ks := k, files := (files s)(fd \<mapsto> f\<lparr>f_pos := pos\<rparr>)\<rparr>)"
| drv_write: "files s fd = Some f \<Longrightarrow> kernel_ok K \<Longrightarrow> unat count \<le> MAX_RW_COUNT \<Longrightarrow>
     length buf = unat count \<Longrightarrow> aesd_write K f buf count (ks s) = Some (r, k) \<Longrightarrow>
     drv_step s (s\<lparr>ks := k\<rparr>)"
| drv_llseek: "files s fd = Some f \<Longrightarrow> kernel_ok K \<Longrightarrow>
     aesd_llseek K f offset whence (ks s) = Some (r, f', k) \<Longrightarrow>
     drv_step s (s\<lparr>ks := k, files := (files s)(fd \<mapsto> f')\<rparr>)"
| drv_ioctl: "files s fd = Some f \<Longrightarrow> kernel_ok K \<Longrightarrow>
     aesd_unlocked_ioctl K f cmd arg (ks s) = Some (r, f', k) \<Longrightarrow>
     drv_step s (s\<lparr>ks := k, files := (files s)(fd \<mapsto> f')\<rparr>)"

text \<open>The state after a successful \<open>aesd_init_module\<close>; \<open>B\<close> are the blocks allocated before it.\<close>

definition drv_init :: "addr set \<Rightarrow> driver \<Rightarrow> bool" where
  "drv_init B s \<longleftrightarrow>
     files s = Map.empty \<and>
     (\<exists>K k. dom (kheap k) = B \<and> 0 \<le> sint (chrdev_rc K) \<and> aesd_init_module K k = (0, ks s))"

definition drv_inv :: "addr set \<Rightarrow> driver \<Rightarrow> bool" where
  "drv_inv B s \<longleftrightarrow> dev_inv B (ks s) \<and> (\<forall>fd f. files s fd = Some f \<longrightarrow> private_data f = Some Aesd_device)"

text \<open>The abstract system: the only change is an abstract write.\<close>

inductive log_step :: "alog \<Rightarrow> alog \<Rightarrow> bool" where
  log_write: "pending l @ bs \<noteq> [] \<Longrightarrow> log_step l (spec_write bs l)"

definition empty_log :: alog where
  "empty_log = \<lparr>lines = [], pending = []\<rparr>"

section \<open>Initialisation and removal\<close>

lemma zero_entry_sel [simp]: "buffptr zero_entry = NULL" "entry_size zero_entry = 0"
  by (simp_all add: zero_entry_def)

lemma ptrs_replicate_zero [simp]: "ptrs (replicate n zero_entry) = []"
  by (induction n) simp_all

lemma entry_init: "entry aesd_circular_buffer_init = replicate 10 zero_entry"
  by (simp add: aesd_circular_buffer_init_def)

lemma dev_inv_zero:
  "aesd_device s = zero_dev \<Longrightarrow> dev_inv (dom (kheap s)) s"
  by (auto simp: dev_inv_def dev_wf_def Let_def zero_dev_def cb_inv_init entry_init owned_def
      pending_ok_def line_ok_def)

lemma dev_abs_zero: "aesd_device s = zero_dev \<Longrightarrow> dev_abs s = empty_log"
  by (simp add: dev_abs_def zero_dev_def cb_entries_init entry_bytes_def empty_log_def)

lemma init_success:
  assumes "0 \<le> sint (chrdev_rc K)" and "cdev_add_rc K = 0"
  shows "\<exists>s'. aesd_init_module K s = (0, s') \<and> aesd_device s' = zero_dev \<and> kheap s' = kheap s \<and>
    chrdev_region s' = Some (chrdev_dev K) \<and> aesd_major s' = MAJOR (chrdev_dev K) \<and> cdev_live s'"
  using assms by (simp add: aesd_init_module_def Let_def aesd_setup_cdev_def zero_dev_def)

lemma init_failure:
  assumes "sint (chrdev_rc K) < 0 \<or> cdev_add_rc K \<noteq> 0" and "chrdev_region s = None" and "\<not> cdev_live s"
  shows "\<exists>r s'. aesd_init_module K s = (r, s') \<and> r \<noteq> 0 \<and> chrdev_region s' = None \<and> \<not> cdev_live s' \<and>
    kheap s' = kheap s"
  using assms
  by (auto simp: aesd_init_module_def Let_def aesd_setup_cdev_def unregister_chrdev_region_def)

lemma init_device:
  assumes "aesd_init_module K s = (0, s')" and "0 \<le> sint (chrdev_rc K)"
  shows "aesd_device s' = zero_dev" and "kheap s' = kheap s"
  using assms
  by (auto simp: aesd_init_module_def Let_def aesd_setup_cdev_def zero_dev_def split: if_splits)

text \<open>The loop over the buffer frees every block once, in any order of the entries.\<close>

lemma free_all:
  assumes "distinct (ptrs es)" and "set (ptrs es) \<subseteq> dom h"
  shows "fold_option free_entry es h =
    Some (h |` (- set (ptrs es)))"
  using assms
proof (induction es arbitrary: h)
  case Nil
  show ?case by simp
next
  case (Cons e es)
  show ?case
  proof (cases "buffptr e")
    case None
    with Cons show ?thesis by (simp add: free_entry_def)
  next
    case (Some a)
    with Cons.prems obtain bs where a: "h a = Some bs" by auto
    have sub: "set (ptrs es) \<subseteq> dom (h(a := None))" and dist: "distinct (ptrs es)"
      using Cons.prems Some by auto
    have "free_entry e h = Some (h(a := None))" using Some a by (simp add: free_entry_def heap_simps)
    then have "fold_option free_entry (e # es) h = fold_option free_entry es (h(a := None))" by simp
    also have "\<dots> = Some ((h(a := None)) |` (- set (ptrs es)))" by (rule Cons.IH [OF dist sub])
    also have "(h(a := None)) |` (- set (ptrs es)) = h |` (- set (ptrs (e # es)))"
      using Some by (auto simp: restrict_map_def fun_eq_iff)
    finally show ?thesis .
  qed
qed

lemma MKDEV_MAJOR:
  assumes "take_bit 20 dev = 0"
  shows "MKDEV (MAJOR dev) aesd_minor = dev"
proof -
  have "dev = push_bit 20 (drop_bit 20 dev) + take_bit 20 dev" by (simp add: bits_ident)
  then show ?thesis using assms by (simp add: MKDEV_def MAJOR_def aesd_minor_def)
qed

lemma cleanup_frees:
  assumes inv: "dev_inv B s"
  shows "\<exists>s'. aesd_cleanup_module s = Some s' \<and> kheap s' = kheap s |` B \<and> \<not> cdev_live s' \<and>
    (chrdev_region s = Some dev \<longrightarrow> aesd_major s = MAJOR dev \<longrightarrow> take_bit 20 dev = 0 \<longrightarrow>
     chrdev_region s' = None)"
proof -
  let ?d = "aesd_device s"
  let ?es = "entry (circular_buffer ?d)"
  from inv have cb: "cb_inv (circular_buffer ?d)" and dist: "distinct (owned ?d)"
    and dom: "dom (kheap s) = B \<union> set (owned ?d)" and disj: "B \<inter> set (owned ?d) = {}"
    by (simp_all add: dev_inv_def dev_wf_def Let_def)
  have loop: "AESD_CIRCULAR_BUFFER_FOREACH free_entry (circular_buffer ?d) (kheap s) = Some (kheap s |` (- set (ptrs ?es)))"
    using dist dom unfolding foreach_fold [OF cb_inv_bounds(1) [OF cb]]
    by (intro free_all) (auto simp: owned_def)
  have "free_block (kheap s |` (- set (ptrs ?es))) (buffptr (current_entry ?d)) = Some (kheap s |` B)"
  proof (cases "buffptr (current_entry ?d)")
    case None
    with dom disj have "kheap s |` (- set (ptrs ?es)) = kheap s |` B"
      by (auto simp: restrict_map_def fun_eq_iff owned_def domIff)
    with None show ?thesis by simp
  next
    case (Some a)
    with dist dom obtain bs where "(kheap s |` (- set (ptrs ?es))) a = Some bs"
      by (auto simp: owned_def restrict_map_def)
    moreover have "(kheap s |` (- set (ptrs ?es)))(a := None) = kheap s |` B"
      using Some dom disj by (auto simp: restrict_map_def fun_eq_iff owned_def domIff)
    ultimately show ?thesis using Some by (simp add: heap_simps)
  qed
  with loop show ?thesis
    using MKDEV_MAJOR [of dev]
    by (simp add: aesd_cleanup_module_def Let_def unregister_chrdev_region_def)
qed

section \<open>Every reachable state\<close>

lemma drv_init_inv: "drv_init B s \<Longrightarrow> drv_inv B s"
  using dev_inv_zero init_device by (fastforce simp: drv_init_def drv_inv_def)

text \<open>
  The one undefined write: no bytes while no command is unfinished, when neither the lock nor the
  allocation stops it.
\<close>

lemma write_undefined_iff:
  assumes inv: "dev_inv B s" and K: "kernel_ok K" and f: "private_data f \<noteq> None"
    and count: "unat count \<le> MAX_RW_COUNT" "length buf = unat count"
  shows "aesd_write K f buf count s = None \<longleftrightarrow>
    pending (dev_abs s) = [] \<and> count = 0 \<and> lock_rc K = 0 \<and> kmalloc K (kheap s) 0 \<noteq> None"
proof (cases "pending (dev_abs s) \<noteq> [] \<or> count \<noteq> 0")
  case True
  with write_total [OF assms] show ?thesis by auto
next
  case False
  then have zero: "buf = []" "count = 0" "pending (dev_abs s) = []" using count by auto
  have "pending_ok (kheap s) (current_entry (aesd_device s))"
    using inv by (simp add: dev_inv_def dev_wf_def Let_def)
  from pending_bytes(1) [OF this] zero(3) have sz: "entry_size (current_entry (aesd_device s)) = 0"
    by (simp add: dev_abs_def unat_eq_zero [symmetric])
  consider "lock_rc K \<noteq> 0" | "lock_rc K = 0" "kmalloc K (kheap s) 0 = None"
    | "lock_rc K = 0" "kmalloc K (kheap s) 0 \<noteq> None" by blast
  then show ?thesis
  proof cases
    case 1
    with inv f show ?thesis by (simp add: write_interrupted)
  next
    case 2
    with inv f zero sz show ?thesis by (simp add: write_no_memory)
  next
    case 3
    with write_zero_undefined [OF inv K f 3(1) sz] zero show ?thesis by simp
  qed
qed

lemma write_undefined_or_ok:
  assumes "dev_inv B s" and "kernel_ok K" and "private_data f \<noteq> None" and "unat count \<le> MAX_RW_COUNT"
    and "length buf = unat count" and "aesd_write K f buf count s = Some (r, s')"
  shows "dev_inv B s' \<and> (dev_abs s' = dev_abs s \<or>
    pending (dev_abs s) @ buf \<noteq> [] \<and> dev_abs s' = spec_write buf (dev_abs s))"
proof (cases "pending (dev_abs s) \<noteq> [] \<or> count \<noteq> 0")
  case True
  with write_total [OF assms(1-5)] assms(5,6) show ?thesis by (auto simp: unat_eq_zero)
next
  case False
  then have zero: "buf = []" "count = 0" "pending (dev_abs s) = []" using assms(5) by auto
  have "pending_ok (kheap s) (current_entry (aesd_device s))"
    using assms(1) by (simp add: dev_inv_def dev_wf_def Let_def)
  from pending_bytes(1) [OF this] zero(3) have sz: "entry_size (current_entry (aesd_device s)) = 0"
    by (simp add: dev_abs_def unat_eq_zero [symmetric])
  from write_undefined_iff [OF assms(1-5)] assms(6) zero
  have "kmalloc K (kheap s) 0 = None" if "lock_rc K = 0" using that by (auto simp del: not_None_eq)
  then have "s' = s" using assms(1,3,6) zero sz
    by (cases "lock_rc K = 0") (simp_all add: write_interrupted write_no_memory)
  with assms(1) show ?thesis by simp
qed

lemma drv_step_cases:
  assumes "drv_inv B s" and "drv_step s t"
  shows "drv_inv B t \<and> (dev_abs (ks t) = dev_abs (ks s) \<or> log_step (dev_abs (ks s)) (dev_abs (ks t)))"
  using assms(2,1)
proof (cases rule: drv_step.cases)
  case (drv_open fd f)
  with assms(1) show ?thesis by (auto simp: drv_inv_def aesd_open_def)
next
  case (drv_release fd f f')
  with assms(1) show ?thesis by (auto simp: drv_inv_def)
next
  case (drv_read fd f K count r pos bs k)
  with assms(1) have "dev_inv B (ks s)" and f: "private_data f = Some Aesd_device"
    by (auto simp: drv_inv_def)
  with read_total [of B "ks s" f K count "f_pos f"] drv_read have "k = ks s" by auto
  with assms(1) drv_read f show ?thesis by (auto simp: drv_inv_def)
next
  case (drv_write fd f K count buf r k)
  with assms(1) have "dev_inv B (ks s)" and "private_data f \<noteq> None" by (auto simp: drv_inv_def)
  from write_undefined_or_ok [OF this(1) drv_write(3) this(2) drv_write(4-6)] drv_write assms(1)
  show ?thesis by (auto simp: drv_inv_def intro: log_write)
next
  case (drv_llseek fd f K offset whence r f' k)
  with assms(1) have "dev_inv B (ks s)" and f: "private_data f = Some Aesd_device"
    by (auto simp: drv_inv_def)
  with llseek_total [of B "ks s" f K offset whence] drv_llseek
  have "k = ks s" and "private_data f' = Some Aesd_device" by auto
  with assms(1) drv_llseek show ?thesis by (auto simp: drv_inv_def)
next
  case (drv_ioctl fd f K cmd arg r f' k)
  with assms(1) have "dev_inv B (ks s)" and f: "private_data f = Some Aesd_device"
    by (auto simp: drv_inv_def)
  with ioctl_total [of B "ks s" f K cmd arg] drv_ioctl
  have "k = ks s" and "private_data f' = Some Aesd_device" by auto
  with assms(1) drv_ioctl show ?thesis by (auto simp: drv_inv_def)
qed

interpretation drv: simulation "drv_init B" drv_step "drv_inv B" "\<lambda>s. dev_abs (ks s)" log_step for B
proof (unfold_locales, goal_cases)
  case (1 s)
  then show ?case by (rule drv_init_inv)
next
  case (2 s t)
  then show ?case using drv_step_cases by blast
next
  case (3 s t)
  then show ?case using drv_step_cases [OF 3] by auto
qed

end
