(* ===== verification/Session.thy ===== *)
theory Session
  imports Connection_Stream Driver_Module
begin

text \<open>
  The connection thread on the character device: the system calls of the thread on the device are
  the handlers of the driver, called the way the kernel calls them, and the client is a sequence of
  chunks that the socket delivers and the bytes that it has received. The two contracts of the
  thread hold for these calls, and the thread as a whole refines \<open>spec_serve\<close>.
\<close>

section \<open>The world of a connection\<close>

datatype recv_event = Chunk "byte list" | Closed | Recv_error

text \<open>
  The driver with its open files, the answers of the kernel, the descriptor that \<open>open\<close> would
  return, what the socket delivers of the client and takes for it, the open sockets and the mutex
  shared by the threads.
\<close>

record session =
  machine :: driver
  kern :: kernel
  open_rc :: c_int
  inbox :: "recv_event list"
  outbox :: "byte list"
  sends :: "send_event list"
  sockets :: "c_int set"
  mutex_held :: bool

text \<open>The C library turns the error codes of a system call into \<open>-1\<close>.\<close>

definition libc_ret :: "c_long \<Rightarrow> c_long" where
  "libc_ret r = (if - 4095 \<le> sint r \<and> sint r < 0 then - 1 else r)"

text \<open>
  A receive or a send on a descriptor that is not an open socket fails. \<open>recv\<close> waits on an empty
  inbox, and a chunk that is too long is received in parts.
\<close>

definition session_recv :: "c_int \<Rightarrow> nat \<Rightarrow> session \<Rightarrow> (ssize_t \<times> byte list \<times> session) option" where
  "session_recv fd n w =
     (if fd \<notin> sockets w then Some (- 1, [], w)
      else case inbox w of
        [] \<Rightarrow> None
      | Chunk bs # es \<Rightarrow>
          (let got = take n bs in
           Some (of_nat (length got), got,
                 w\<lparr>inbox := (if length bs \<le> n then es else Chunk (drop n bs) # es)\<rparr>))
      | Closed # es \<Rightarrow> Some (0, [], w)
      | Recv_error # es \<Rightarrow> Some (- 1, [], w\<lparr>inbox := es\<rparr>))"

definition session_send :: "c_int \<Rightarrow> byte list \<Rightarrow> session \<Rightarrow> (ssize_t \<times> session) option" where
  "session_send fd bs w =
     (if fd \<notin> sockets w then Some (- 1, w)
      else if refuses (sends w) then Some (- 1, w\<lparr>sends := tl (sends w)\<rparr>)
      else let taken = accepted (sends w) bs in
        Some (of_nat (length taken), w\<lparr>outbox := outbox w @ taken, sends := tl (sends w)\<rparr>))"

definition session_open :: "session \<Rightarrow> (c_int \<times> session) option" where
  "session_open w =
     (let fd = open_rc w in
      if sint fd < 0 then Some (fd, w)
      else if files (machine w) (unat fd) \<noteq> None \<or> fd \<in> sockets w then None
      else let (rc, f) = aesd_open \<lparr>i_cdev = Aesd_device\<rparr> new_file in
        if rc \<noteq> 0 then Some (- 1, w)
        else Some (fd, w\<lparr>machine := (machine w)\<lparr>files := (files (machine w))(unat fd \<mapsto> f)\<rparr>\<rparr>))"

text \<open>The kernel cuts the count of a read or a write off at \<open>MAX_RW_COUNT\<close>.\<close>

definition session_read :: "c_int \<Rightarrow> nat \<Rightarrow> session \<Rightarrow> (ssize_t \<times> byte list \<times> session) option" where
  "session_read fd n w =
     (case files (machine w) (unat fd) of
        None \<Rightarrow> Some (- 1, [], w)
      | Some f \<Rightarrow> do {
          (r, pos, bs, k) \<leftarrow> aesd_read (kern w) f (of_nat (min n MAX_RW_COUNT)) (f_pos f) (ks (machine w));
          Some (libc_ret r, bs,
                w\<lparr>machine := (machine w)\<lparr>ks := k, files := (files (machine w))(unat fd \<mapsto> f\<lparr>f_pos := pos\<rparr>)\<rparr>\<rparr>) })"

definition session_write :: "c_int \<Rightarrow> byte list \<Rightarrow> session \<Rightarrow> (ssize_t \<times> session) option" where
  "session_write fd bs w =
     (case files (machine w) (unat fd) of
        None \<Rightarrow> Some (- 1, w)
      | Some f \<Rightarrow> do {
          let bs = take MAX_RW_COUNT bs;
          (r, k) \<leftarrow> aesd_write (kern w) f bs (of_nat (length bs)) (ks (machine w));
          Some (libc_ret r, w\<lparr>machine := (machine w)\<lparr>ks := k\<rparr>\<rparr>) })"

text \<open>The kernel keeps the result of the handler in an \<open>int\<close>.\<close>

definition session_ioctl :: "c_int \<Rightarrow> uint32_t \<Rightarrow> aesd_seekto \<Rightarrow> session \<Rightarrow> (c_int \<times> session) option" where
  "session_ioctl fd cmd arg w =
     (case files (machine w) (unat fd) of
        None \<Rightarrow> Some (- 1, w)
      | Some f \<Rightarrow> do {
          (r, f', k) \<leftarrow> aesd_unlocked_ioctl (kern w) f cmd arg (ks (machine w));
          let rc = (ucast r :: c_int);
          Some (ucast (libc_ret (scast rc)),
                w\<lparr>machine := (machine w)\<lparr>ks := k, files := (files (machine w))(unat fd \<mapsto> f')\<rparr>\<rparr>) })"

definition session_close :: "c_int \<Rightarrow> session \<Rightarrow> session option" where
  "session_close fd w =
     (case files (machine w) (unat fd) of
        None \<Rightarrow> Some (w\<lparr>sockets := sockets w - {fd}\<rparr>)
      | Some f \<Rightarrow>
          (case aesd_release \<lparr>i_cdev = Aesd_device\<rparr> f of
             (rc, f') \<Rightarrow> Some (w\<lparr>machine := (machine w)\<lparr>files := (files (machine w))(unat fd := None)\<rparr>,
                                sockets := sockets w - {fd}\<rparr>)))"

text \<open>A thread that locks the mutex it holds waits for itself.\<close>

definition session_lock :: "addr \<Rightarrow> session \<Rightarrow> (c_int \<times> session) option" where
  "session_lock m w = (if mutex_held w then None else Some (0, w\<lparr>mutex_held := True\<rparr>))"

definition session_unlock :: "addr \<Rightarrow> session \<Rightarrow> (c_int \<times> session) option" where
  "session_unlock m w = (if mutex_held w then Some (0, w\<lparr>mutex_held := False\<rparr>) else None)"

definition session_env :: "session env" where
  "session_env =
     \<lparr>sys_recv = session_recv, sys_send = session_send, sys_open = session_open,
      sys_read = session_read, sys_write = session_write, sys_ioctl = session_ioctl,
      sys_close = session_close, pthread_mutex_lock = session_lock,
      pthread_mutex_unlock = session_unlock\<rparr>"

section \<open>Resources\<close>

definition open_fds :: "session \<Rightarrow> c_int set" where
  "open_fds w = {fd. files (machine w) (unat fd) \<noteq> None} \<union> sockets w"

lemma session_env_sel [simp]:
  "sys_recv session_env = session_recv" "sys_send session_env = session_send"
  "sys_open session_env = session_open" "sys_read session_env = session_read"
  "sys_write session_env = session_write" "sys_ioctl session_env = session_ioctl"
  "sys_close session_env = session_close" "pthread_mutex_lock session_env = session_lock"
  "pthread_mutex_unlock session_env = session_unlock"
  by (simp_all add: session_env_def)

lemma open_fds_machine:
  "(\<And>i. files m i = None \<longleftrightarrow> files (machine w) i = None) \<Longrightarrow> open_fds (w\<lparr>machine := m\<rparr>) = open_fds w"
  by (simp add: open_fds_def del: not_None_eq)

text \<open>A device call replaces the kernel state and the file it was called on.\<close>

lemma session_read_frame:
  "session_read fd n w = Some (r, bs, w') \<Longrightarrow> mutex_held w' = mutex_held w \<and> open_fds w' = open_fds w"
  by (auto simp: session_read_def bind_eq_Some_conv split: option.split_asm if_split_asm
      intro!: open_fds_machine)

lemma session_write_frame:
  "session_write fd bs w = Some (r, w') \<Longrightarrow> mutex_held w' = mutex_held w \<and> open_fds w' = open_fds w"
  by (auto simp: session_write_def bind_eq_Some_conv Let_def split: option.split_asm intro!: open_fds_machine)

lemma session_ioctl_frame:
  "session_ioctl fd c a w = Some (r, w') \<Longrightarrow> mutex_held w' = mutex_held w \<and> open_fds w' = open_fds w"
  by (auto simp: session_ioctl_def bind_eq_Some_conv Let_def split: option.split_asm if_split_asm
      intro!: open_fds_machine)

lemma session_recv_frame:
  "session_recv fd n w = Some (r, bs, w') \<Longrightarrow> mutex_held w' = mutex_held w \<and> open_fds w' = open_fds w"
  by (auto simp: session_recv_def open_fds_def Let_def split: if_split_asm list.split_asm recv_event.split_asm)

lemma session_send_frame:
  "session_send fd bs w = Some (r, w') \<Longrightarrow> mutex_held w' = mutex_held w \<and> open_fds w' = open_fds w"
  by (auto simp: session_send_def open_fds_def Let_def split: if_split_asm)

lemma session_transfers: "transfers_keep session_env (\<lambda>w. (mutex_held w, open_fds w))"
  unfolding transfers_keep_def transfers_in_def session_env_sel prod.inject
  using session_recv_frame session_send_frame session_read_frame session_write_frame session_ioctl_frame
  by blast

interpretation ses: resource_env session_env mutex_held open_fds
proof
  show "transfers_keep session_env (\<lambda>w. (mutex_held w, open_fds w))" by (rule session_transfers)
qed (auto simp: session_lock_def session_unlock_def session_open_def session_close_def open_fds_def
    aesd_open_def aesd_release_def Let_def word_unat_eq_iff [symmetric] split: if_splits option.splits)

section \<open>The device as a stream\<close>

text \<open>
  The descriptor is an open file of the device, the device holds \<open>l\<close>, and the copies to user
  space work.
\<close>

definition device_ok :: "addr set \<Rightarrow> c_int \<Rightarrow> alog \<Rightarrow> session \<Rightarrow> bool" where
  "device_ok B fd l w \<longleftrightarrow>
     dev_inv B (ks (machine w)) \<and> dev_abs (ks (machine w)) = l \<and>
     (\<exists>f. files (machine w) (unat fd) = Some f \<and> private_data f \<noteq> None) \<and>
     kernel_ok (kern w) \<and> lock_rc (kern w) = 0 \<and> (\<forall>bs. snd (copy_to_user (kern w) bs) = 0)"

definition file_pos :: "c_int \<Rightarrow> session \<Rightarrow> nat" where
  "file_pos fd w = (case files (machine w) (unat fd) of None \<Rightarrow> 0 | Some f \<Rightarrow> unat (f_pos f))"

text \<open>The blocks that the reads of the thread give, one line or a piece of a line each.\<close>

function reply_blocks :: "alog \<Rightarrow> nat \<Rightarrow> byte list list" where
  "reply_blocks l p =
     (let bs = spec_read BUFFER_SIZE p l in if bs = [] then [] else bs # reply_blocks l (p + length bs))"
  by pat_completeness auto
termination
proof (relation "measure (\<lambda>(l, p). length (contents l) - p)")
  fix l p and bs :: "byte list"
  assume "bs = spec_read BUFFER_SIZE p l" and ne: "bs \<noteq> []"
  then have "p < length (contents l)"
    using spec_read_Nil_iff [of BUFFER_SIZE p l] by (simp add: BUFFER_SIZE_def)
  moreover have "0 < length bs" using ne by simp
  ultimately show "((l, p + length bs), (l, p)) \<in> measure (\<lambda>(l, p). length (contents l) - p)"
    by (simp del: length_greater_0_conv)
qed simp

declare reply_blocks.simps [simp del]

lemma concat_reply_blocks: "concat (reply_blocks l p) = drop p (contents l)"
proof (induction l p rule: reply_blocks.induct)
  case (1 l p)
  let ?bs = "spec_read BUFFER_SIZE p l"
  show ?case
  proof (cases "?bs = []")
    case True
    then have "length (contents l) \<le> p" using spec_read_Nil_iff [of BUFFER_SIZE p l] by (simp add: BUFFER_SIZE_def)
    with True show ?thesis by (subst reply_blocks.simps) simp
  next
    case False
    with 1 have "concat (reply_blocks l p) = ?bs @ drop (length ?bs) (drop p (contents l))"
      by (subst reply_blocks.simps) (simp add: Let_def add.commute)
    also have "\<dots> = drop p (contents l)" using spec_read_prefix [of BUFFER_SIZE p l] by (metis append_take_drop_id)
    finally show ?thesis .
  qed
qed

definition unread_blocks :: "c_int \<Rightarrow> session \<Rightarrow> byte list list" where
  "unread_blocks fd w = reply_blocks (dev_abs (ks (machine w))) (file_pos fd w)"

text \<open>A socket that is not open takes nothing.\<close>

definition answers :: "c_int \<Rightarrow> session \<Rightarrow> send_event list" where
  "answers cl w = (if cl \<in> sockets w then sends w else [Send_error])"

lemma libc_ret_count: "n < 2 ^ 63 \<Longrightarrow> libc_ret (of_nat n) = of_nat n"
  by (simp add: libc_ret_def sint_small unat_of_nat_small)

lemma session_read_exact:
  assumes ok: "device_ok B fd l w" and bs: "bs = spec_read BUFFER_SIZE (file_pos fd w) l"
  shows "\<exists>w'. session_read fd BUFFER_SIZE w = Some (of_nat (length bs), bs, w') \<and> device_ok B fd l w' \<and>
    file_pos fd w' = file_pos fd w + length bs \<and>
    outbox w' = outbox w \<and> sockets w' = sockets w \<and> sends w' = sends w"
proof -
  obtain f where f: "files (machine w) (unat fd) = Some f" "private_data f \<noteq> None"
    and inv: "dev_inv B (ks (machine w))" and l: "dev_abs (ks (machine w)) = l"
    and K: "lock_rc (kern w) = 0" "kernel_ok (kern w)" "\<And>bs. snd (copy_to_user (kern w) bs) = 0"
    using ok by (auto simp: device_ok_def)
  let ?p = "f_pos f"
  have B: "unat (of_nat BUFFER_SIZE :: size_t) = BUFFER_SIZE" by (simp add: BUFFER_SIZE_def)
  have pos: "file_pos fd w = unat ?p" using f(1) by (simp add: file_pos_def)
  have rd: "aesd_read (kern w) f (of_nat BUFFER_SIZE) ?p (ks (machine w)) =
      Some (of_nat (length bs), ?p + of_nat (length bs), bs, ks (machine w))"
    by (rule read_exact [OF inv f(2) K]) (simp add: bs B pos l)
  have len: "length bs \<le> BUFFER_SIZE" using length_spec_read bs by simp
  have fin: "unat (?p + of_nat (length bs)) = unat ?p + length bs"
  proof (cases "unat ?p < length (contents l)")
    case True
    have "length (contents l) \<le> 10 * KMALLOC_MAX_SIZE" using inv contents_bound l by (auto simp: dev_inv_def)
    with True len have "unat ?p + length bs < 2 ^ 64" "length bs < 2 ^ 64"
      by (simp_all add: KMALLOC_MAX_SIZE_def BUFFER_SIZE_def)
    then show ?thesis by (simp add: unat_simps)
  next
    case False
    then have "bs = []" using spec_read_Nil_iff [of BUFFER_SIZE "unat ?p" l] bs pos by (simp add: BUFFER_SIZE_def)
    then show ?thesis by simp
  qed
  let ?w = "w\<lparr>machine := (machine w)\<lparr>files := (files (machine w))(unat fd \<mapsto> f\<lparr>f_pos := ?p + of_nat (length bs)\<rparr>)\<rparr>\<rparr>"
  have "session_read fd BUFFER_SIZE w = Some (of_nat (length bs), bs, ?w)"
    using f rd len by (simp add: session_read_def libc_ret_count BUFFER_SIZE_def MAX_RW_COUNT_def)
  moreover have "device_ok B fd l ?w" using ok f(2) by (simp add: device_ok_def)
  moreover have "file_pos fd ?w = file_pos fd w + length bs" using fin pos by (simp add: file_pos_def)
  ultimately show ?thesis by simp
qed

lemma session_read_law:
  assumes ok: "device_ok B fd l w"
  shows "\<exists>bs w'. session_read fd BUFFER_SIZE w = Some (of_nat (length bs), bs, w') \<and> device_ok B fd l w' \<and>
    length bs \<le> BUFFER_SIZE \<and>
    (if bs = [] then unread_blocks fd w = [] \<and> unread_blocks fd w' = [] else unread_blocks fd w = bs # unread_blocks fd w') \<and>
    answers cl w' = answers cl w \<and> outbox w' = outbox w"
proof -
  let ?bs = "spec_read BUFFER_SIZE (file_pos fd w) l"
  obtain w' where w': "session_read fd BUFFER_SIZE w = Some (of_nat (length ?bs), ?bs, w')" "device_ok B fd l w'"
    "file_pos fd w' = file_pos fd w + length ?bs" "outbox w' = outbox w" "sockets w' = sockets w" "sends w' = sends w"
    using session_read_exact [OF ok refl] by blast
  have "unread_blocks fd w = (if ?bs = [] then [] else ?bs # unread_blocks fd w')"
    using ok w'(2,3) reply_blocks.simps [of l "file_pos fd w"] by (simp add: unread_blocks_def device_ok_def Let_def)
  moreover have "unread_blocks fd w' = unread_blocks fd w" if "?bs = []"
    using ok w'(2,3) that by (simp add: unread_blocks_def device_ok_def)
  ultimately show ?thesis using w' length_spec_read
    by (intro exI [of _ ?bs] exI [of _ w']) (auto simp: answers_def)
qed

lemma session_refuse_law:
  assumes "device_ok B fd l w" and "refuses (answers cl w)"
  shows "\<exists>w'. session_send cl bs w = Some (- 1, w') \<and> device_ok B fd l w' \<and> outbox w' = outbox w"
  using assms by (auto simp: session_send_def device_ok_def answers_def split: if_splits)

lemma session_send_law:
  assumes "device_ok B fd l w" and "\<not> refuses (answers cl w)"
  shows "\<exists>w'. session_send cl bs w = Some (of_nat (length (accepted (answers cl w) bs)), w') \<and> device_ok B fd l w' \<and>
    unread_blocks fd w' = unread_blocks fd w \<and> answers cl w' = tl (answers cl w) \<and>
    outbox w' = outbox w @ accepted (answers cl w) bs"
  using assms
  by (auto simp: session_send_def device_ok_def answers_def unread_blocks_def file_pos_def Let_def split: if_splits)

interpretation str: stream_device session_env cl out "device_ok B out l" "unread_blocks out" "answers cl" outbox
  for B cl out l
  by unfold_locales (use session_read_law session_refuse_law session_send_law in auto)

end
