(* ===== verification/Session_Refinement.thy ===== *)
theory Session_Refinement
  imports Session
begin

text \<open>
  A connection as a whole. \<open>spec_connection\<close> says what becomes of the log of the device and what
  the client gets back, whatever arrives on the socket and whatever the socket takes; the
  connection thread on the driver does exactly that, and on every failure it gives up its
  resources.
\<close>

section \<open>What a connection does\<close>

text \<open>
  Receiving waits for a message that does not come, runs into undefined behaviour, fails, or ends
  with a log and a position in its contents from which the reply is read.
\<close>

datatype outcome = Waits | Undefined | Fails alog | Received alog nat

text \<open>One chunk, as it lands in the buffer.\<close>

definition spec_chunk :: "byte list \<Rightarrow> alog \<Rightarrow> nat \<Rightarrow> outcome" where
  "spec_chunk bs l p =
     (case chunk_seek bs of
        None \<Rightarrow> Undefined
      | Some (rc, sk) \<Rightarrow>
          if rc = 0 then (if seek_ok l sk then Received l (seek_pos l sk) else Fails l)
          else Received (spec_write (upto_newline bs) l) p)"

text \<open>What is still to be received when a chunk, or its first part, has been received.\<close>

definition after_chunk :: "byte list \<Rightarrow> recv_event list \<Rightarrow> recv_event list" where
  "after_chunk msg es = (if length msg \<le> BUFFER_SIZE then es else Chunk (drop BUFFER_SIZE msg) # es)"

fun inbox_bytes :: "recv_event list \<Rightarrow> nat" where
  "inbox_bytes [] = 0"
| "inbox_bytes (Chunk msg # es) = length msg + inbox_bytes es"
| "inbox_bytes (e # es) = inbox_bytes es"

lemma inbox_bytes_after: "inbox_bytes (after_chunk msg es) + length (take BUFFER_SIZE msg) = length msg + inbox_bytes es"
  by (auto simp: after_chunk_def)

lemma after_chunk_shorter:
  "BUFFER_SIZE \<le> length msg \<Longrightarrow> inbox_bytes (after_chunk msg es) < length msg + inbox_bytes es"
  by (auto simp: after_chunk_def BUFFER_SIZE_def)

text \<open>A chunk that fills the buffer is followed by another round.\<close>

function spec_recv :: "recv_event list \<Rightarrow> alog \<Rightarrow> nat \<Rightarrow> outcome" where
  "spec_recv [] l p = Waits"
| "spec_recv (Closed # es) l p = Fails l"
| "spec_recv (Recv_error # es) l p = Fails l"
| "spec_recv (Chunk msg # es) l p =
     (if msg = [] then Fails l
      else case spec_chunk (take BUFFER_SIZE msg) l p of
          Received l' p' \<Rightarrow>
            (if length msg < BUFFER_SIZE then Received l' p' else spec_recv (after_chunk msg es) l' p')
        | y \<Rightarrow> y)"
  by pat_completeness auto
termination
  by (relation "measure (\<lambda>(es, l, p). inbox_bytes es)") (use after_chunk_shorter in auto)

text \<open>
  The reply is sent from the position on, and what the client gets of it depends on the socket:
  the log, the bytes received and whether the thread reports success. \<open>None\<close> is a thread that does not return.
\<close>

definition spec_reply :: "send_event list \<Rightarrow> outcome \<Rightarrow> (alog \<times> byte list \<times> bool) option" where
  "spec_reply es y =
     (case y of
        Waits \<Rightarrow> None
      | Undefined \<Rightarrow> None
      | Fails l \<Rightarrow> Some (l, [], False)
      | Received l p \<Rightarrow> Some (l, spec_send (reply_blocks l p) es))"

definition spec_connection ::
    "recv_event list \<Rightarrow> send_event list \<Rightarrow> alog \<Rightarrow> (alog \<times> byte list \<times> bool) option" where
  "spec_connection arrivals es l = spec_reply es (spec_recv arrivals l 0)"

text \<open>A single message that fits the buffer, of a client to whom everything gets through.\<close>

definition spec_serve :: "byte list \<Rightarrow> alog \<Rightarrow> alog \<times> byte list \<times> bool" where
  "spec_serve msg l =
     (case parse_seek no_seek (takeWhile (\<lambda>b. b \<noteq> 0) msg) of
        None \<Rightarrow> (l, [], False)
      | Some (rc, sk) \<Rightarrow>
          if rc = 0
          then (if seek_ok l sk then (l, drop (seek_pos l sk) (contents l), True) else (l, [], False))
          else let l' = spec_write (upto_newline msg) l in (l', contents l', True))"

lemma spec_serve_chunk:
  assumes "length msg < BUFFER_SIZE" and "parse_seek no_seek (takeWhile (\<lambda>b. b \<noteq> 0) msg) \<noteq> None"
    and "set es \<subseteq> {Send_all}"
  shows "spec_reply es (spec_chunk msg l 0) = Some (spec_serve msg l)"
  using assms
  by (auto simp: spec_reply_def spec_chunk_def spec_serve_def chunk_seek_short spec_send_all concat_reply_blocks Let_def)

text \<open>The world in which a connection starts: nobody holds the mutex, and the device can be opened.\<close>

definition session_ready :: "addr set \<Rightarrow> session \<Rightarrow> bool" where
  "session_ready B w \<longleftrightarrow>
     dev_inv B (ks (machine w)) \<and> \<not> mutex_held w \<and>
     0 \<le> sint (open_rc w) \<and> files (machine w) (unat (open_rc w)) = None \<and> open_rc w \<notin> sockets w \<and>
     kernel_ok (kern w)"

text \<open>The kernel's locks and copies succeed during the connection.\<close>

definition kernel_up :: "kernel \<Rightarrow> bool" where
  "kernel_up K \<longleftrightarrow>
     lock_rc K = 0 \<and> (\<forall>bs. snd (copy_to_user K bs) = 0) \<and>
     (\<forall>bs. length bs \<le> BUFFER_SIZE \<longrightarrow> snd (copy_from_user K bs (of_nat (length bs))) = 0) \<and>
     (\<forall>v. snd (copy_seekto_from_user K v) = 0)"

definition has_memory :: "kernel \<Rightarrow> kstate \<Rightarrow> byte list \<Rightarrow> bool" where
  "has_memory K s bs \<longleftrightarrow>
     kmalloc K (kheap s) (entry_size (current_entry (aesd_device s)) + of_nat (length bs)) \<noteq> None"

definition dev_file :: kfile where
  "dev_file = \<lparr>f_pos = 0, private_data = Some Aesd_device\<rparr>"

definition opened :: "session \<Rightarrow> session" where
  "opened w =
     w\<lparr>mutex_held := True,
       machine := (machine w)\<lparr>files := (files (machine w))(unat (open_rc w) \<mapsto> dev_file)\<rparr>\<rparr>"

lemma opened_sel [simp]:
  "mutex_held (opened w)" "ks (machine (opened w)) = ks (machine w)" "outbox (opened w) = outbox w"
  "inbox (opened w) = inbox w" "kern (opened w) = kern w" "sends (opened w) = sends w"
  "files (machine (opened w)) (unat (open_rc w)) = Some dev_file" "sockets (opened w) = sockets w"
  by (simp_all add: opened_def)

section \<open>Opening and closing\<close>

lemma session_close_total:
  "\<exists>w'. session_close fd w = Some w' \<and> mutex_held w' = mutex_held w \<and>
    ks (machine w') = ks (machine w) \<and> outbox w' = outbox w"
  by (auto simp: session_close_def aesd_release_def split: option.split)

lemma session_unlock_held:
  "mutex_held w \<Longrightarrow> unlock_mutex session_env m w = Some (w\<lparr>mutex_held := False\<rparr>)"
  by (simp add: unlock_mutex_def session_unlock_def)

lemma session_opens:
  assumes "session_ready B w"
  shows "lock_mutex session_env m w = Some (w\<lparr>mutex_held := True\<rparr>)"
    and "session_open (w\<lparr>mutex_held := True\<rparr>) = Some (open_rc w, opened w)"
  using assms
  by (auto simp: session_ready_def lock_mutex_def session_lock_def session_open_def aesd_open_def
      opened_def Let_def new_file_def dev_file_def)

lemma session_fails:
  assumes "mutex_held w"
  shows "\<exists>w'. connection_failed session_env out args w =
      Some (args\<lparr>thread_complete_success := False, thread_complete := True\<rparr>, w') \<and>
    ks (machine w') = ks (machine w) \<and> outbox w' = outbox w"
proof -
  obtain w1 where w1: "session_close (client_fd args) w = Some w1" "mutex_held w1 = mutex_held w"
    "ks (machine w1) = ks (machine w)" "outbox w1 = outbox w"
    using session_close_total by blast
  obtain w2 where "session_close out w1 = Some w2" "mutex_held w2 = mutex_held w1"
    "ks (machine w2) = ks (machine w1)" "outbox w2 = outbox w1"
    using session_close_total by blast
  with w1 assms show ?thesis
    by (simp add: connection_failed_def session_unlock_held Let_def)
qed

section \<open>The thread after the message is received\<close>

lemma thread_recv_fails:
  assumes "session_ready B w"
    and "recv_messages session_env rb (client_fd args) (open_rc w) (opened w) = Some (- 1, rb', w3)"
  shows "\<exists>args' w'. connection_thread session_env rb sb args w = Some (args', w') \<and>
    ks (machine w') = ks (machine w3) \<and> outbox w' = outbox w3 \<and>
    \<not> thread_complete_success args' \<and> thread_complete args'"
proof -
  have "mutex_held w3" using recv_messages_frame [OF session_transfers assms(2)] by simp
  from session_fails [OF this, of "open_rc w" "args\<lparr>thread_complete := False\<rparr>"] show ?thesis
    using assms session_opens [OF assms(1)]
    by (auto simp: connection_thread_def session_ready_def)
qed

lemma thread_received:
  assumes ready: "session_ready B w"
    and recv: "recv_messages session_env rb (client_fd args) (open_rc w) (opened w) = Some (0, rb', w3)"
    and ok: "device_ok B (open_rc w) l w3" and sb: "length sb = BUFFER_SIZE"
    and reply: "spec_send (unread_blocks (open_rc w) w3) (answers (client_fd args) w3) = (bs, success)"
  shows "\<exists>args' w'. connection_thread session_env rb sb args w = Some (args', w') \<and>
    dev_inv B (ks (machine w')) \<and> dev_abs (ks (machine w')) = l \<and> outbox w' = outbox w3 @ bs \<and>
    thread_complete_success args' = success \<and> thread_complete args'"
proof -
  obtain sb' w4 where
    send: "send_messages session_env sb (client_fd args) (open_rc w) w3 = Some (if success then 0 else - 1, sb', w4)"
    and w4: "device_ok B (open_rc w) l w4" "outbox w4 = outbox w3 @ bs"
    using str.send_messages_delivers [OF ok sb, of "client_fd args"] reply by auto
  have held4: "mutex_held w4"
    using recv_messages_frame [OF session_transfers recv] send_messages_frame [OF session_transfers send] by simp
  show ?thesis
  proof (cases success)
    case False
    from session_fails [OF held4, of "open_rc w" "args\<lparr>thread_complete := False\<rparr>"] w4 False show ?thesis
      using ready recv send session_opens [OF ready]
      by (auto simp: connection_thread_def session_ready_def device_ok_def)
  next
    case True
    obtain w5 where w5: "session_close (open_rc w) w4 = Some w5" "mutex_held w5" "ks (machine w5) = ks (machine w4)"
      "outbox w5 = outbox w4"
      using session_close_total held4 by metis
    obtain w6 where w6: "session_close (client_fd args) (w5\<lparr>mutex_held := False\<rparr>) = Some w6"
      "ks (machine w6) = ks (machine w5)" "outbox w6 = outbox w5"
      using session_close_total [of "client_fd args" "w5\<lparr>mutex_held := False\<rparr>"] by auto
    have "connection_thread session_env rb sb args w =
        Some (args\<lparr>thread_complete := False, thread_complete_success := True, thread_complete := True\<rparr>, w6)"
      using ready session_opens [OF ready] recv send w5 w6 True
      by (simp add: connection_thread_def session_ready_def session_unlock_held Let_def)
    with w4 w5 w6 True show ?thesis by (auto simp: device_ok_def)
  qed
qed

section \<open>The calls on the device\<close>

lemma small_int_not_minus_one: "n \<le> BUFFER_SIZE \<Longrightarrow> (of_nat n :: c_int) \<noteq> - 1"
  using sint_int_of_nat [of n] by (auto simp: BUFFER_SIZE_def)

lemma session_write_success:
  assumes "dev_inv B (ks (machine w))" and "files (machine w) (unat fd) = Some f" and "private_data f \<noteq> None"
    and "kernel_ok (kern w)" and "kernel_up (kern w)" and "has_memory (kern w) (ks (machine w)) bs"
    and "bs \<noteq> []" and "length bs \<le> BUFFER_SIZE"
  shows "\<exists>k. session_write fd bs w = Some (of_nat (length bs), w\<lparr>machine := (machine w)\<lparr>ks := k\<rparr>\<rparr>) \<and>
    dev_inv B k \<and> dev_abs k = spec_write bs (dev_abs (ks (machine w)))"
proof -
  have u: "unat (of_nat (length bs) :: size_t) = length bs"
    using assms(8) by (simp add: unat_of_nat_small BUFFER_SIZE_def)
  then have nz: "(of_nat (length bs) :: size_t) \<noteq> 0" using assms(7) by (metis length_0_conv unat_eq_zero)
  obtain k where "aesd_write (kern w) f bs (of_nat (length bs)) (ks (machine w)) = Some (of_nat (length bs), k)"
    "dev_inv B k" "dev_abs k = spec_write bs (dev_abs (ks (machine w)))"
    using write_success [OF assms(1,4,3), of "of_nat (length bs)" bs] assms(5,6,8) u nz
    by (auto simp: kernel_up_def has_memory_def MAX_RW_COUNT_def BUFFER_SIZE_def)
  with assms(2,8) show ?thesis by (auto simp: session_write_def libc_ret_count BUFFER_SIZE_def MAX_RW_COUNT_def)
qed

text \<open>A write that the driver refuses: no memory, or a signal while waiting for its mutex.\<close>

lemma session_write_refused:
  assumes "dev_inv B (ks (machine w))" and "files (machine w) (unat fd) = Some f" and "private_data f \<noteq> None"
    and "lock_rc (kern w) = 0 \<and> \<not> has_memory (kern w) (ks (machine w)) bs \<or>
      - 4095 \<le> sint (lock_rc (kern w)) \<and> sint (lock_rc (kern w)) < 0"
    and "length bs \<le> MAX_RW_COUNT"
  shows "session_write fd bs w = Some (- 1, w)"
proof (cases "lock_rc (kern w) = 0")
  case True
  with assms have "aesd_write (kern w) f bs (of_nat (length bs)) (ks (machine w)) = Some (- ENOMEM, ks (machine w))"
    by (intro write_no_memory) (auto simp: has_memory_def simp del: not_None_eq)
  then show ?thesis using assms(2,5) by (simp add: session_write_def libc_ret_def ENOMEM_def)
next
  case False
  with assms have "aesd_write (kern w) f bs (of_nat (length bs)) (ks (machine w)) =
      Some (scast (lock_rc (kern w)), ks (machine w))"
    by (intro write_interrupted) auto
  moreover have "sint (scast (lock_rc (kern w)) :: c_long) = sint (lock_rc (kern w))"
    by (simp add: sint_up_scast is_up)
  ultimately show ?thesis using assms(2,4,5) False by (auto simp: session_write_def libc_ret_def)
qed

lemma ucast_minus_one: "(ucast (- 1 :: 64 word) :: c_int) = - 1"
  by (rule bit_word_eqI) (simp add: bit_simps)

lemma session_ioctl_result:
  assumes inv: "dev_inv B (ks (machine w))" and f: "files (machine w) (unat fd) = Some f" "private_data f \<noteq> None"
    and K: "kernel_ok (kern w)" "kernel_up (kern w)" and l: "l = dev_abs (ks (machine w))"
  shows "session_ioctl fd AESDCHAR_IOCSEEKTO sk w =
    Some (if seek_ok l sk
          then (of_nat (seek_pos l sk), w\<lparr>machine := (machine w)\<lparr>files := (files (machine w))
                 (unat fd \<mapsto> f\<lparr>f_pos := of_nat (seek_pos l sk)\<rparr>)\<rparr>\<rparr>)
          else (- 1, w))"
proof -
  have copy: "copy_seekto_from_user (kern w) sk = (sk, 0)"
    using K by (simp add: kernel_ok_def copy_ok_def kernel_up_def prod_eq_iff)
  have lock: "lock_rc (kern w) = 0" using K(2) by (simp add: kernel_up_def)
  note res = ioctl_result [OF inv f(2) lock copy]
  show ?thesis
  proof (cases "seek_ok l sk")
    case True
    have "seek_pos l sk < 10 * KMALLOC_MAX_SIZE"
      using seek_pos_inside [OF True] contents_bound inv l by (fastforce simp: dev_inv_def)
    then have p: "seek_pos l sk < 2 ^ 31" by (simp add: KMALLOC_MAX_SIZE_def)
    then have "libc_ret (of_nat (seek_pos l sk)) = of_nat (seek_pos l sk)" by (intro libc_ret_count) simp
    with True res f l p show ?thesis
      by (simp add: session_ioctl_def ucast_of_nat_int scast_of_nat_small)
  next
    case False
    have same: "(files (machine w))(unat fd \<mapsto> f) = files (machine w)" using f(1) by (simp add: fun_upd_idem)
    from False res f l show ?thesis
      by (simp add: session_ioctl_def EINVAL_def libc_ret_def same ucast_minus_one)
  qed
qed

text \<open>
  While the thread receives, the device holds the log that the specification says, its file
  stands at the position that the specification says, and nothing has been sent.
\<close>

definition receiving :: "addr set \<Rightarrow> c_int \<Rightarrow> session \<Rightarrow> alog \<Rightarrow> nat \<Rightarrow> session \<Rightarrow> bool" where
  "receiving B out w0 l p w \<longleftrightarrow>
     device_ok B out l w \<and> file_pos out w = p \<and> kern w = kern w0 \<and>
     outbox w = outbox w0 \<and> sockets w = sockets w0 \<and> sends w = sends w0"

lemma receiving_inbox [simp]: "receiving B out w0 l p (w\<lparr>inbox := es\<rparr>) = receiving B out w0 l p w"
  by (simp add: receiving_def device_ok_def file_pos_def)

lemma receiving_opened: "session_ready B w \<Longrightarrow> kernel_up (kern w) \<Longrightarrow>
    receiving B (open_rc w) w (dev_abs (ks (machine w))) 0 (opened w)"
  by (simp add: receiving_def device_ok_def file_pos_def session_ready_def kernel_up_def dev_file_def)

lemma receiving_write:
  assumes rcv: "receiving B out w0 l p w" and up: "kernel_up (kern w0)"
    and bs: "bs \<noteq> []" "length bs \<le> BUFFER_SIZE" and mem: "has_memory (kern w) (ks (machine w)) bs"
  shows "\<exists>w'. session_write out bs w = Some (of_nat (length bs), w') \<and> inbox w' = inbox w \<and>
    receiving B out w0 (spec_write bs l) p w'"
proof -
  obtain f where f: "files (machine w) (unat out) = Some f" "private_data f \<noteq> None"
    and inv: "dev_inv B (ks (machine w))" "dev_abs (ks (machine w)) = l" and K: "kernel_ok (kern w)" "kernel_up (kern w)"
    using rcv up by (auto simp: receiving_def device_ok_def)
  obtain k where "session_write out bs w = Some (of_nat (length bs), w\<lparr>machine := (machine w)\<lparr>ks := k\<rparr>\<rparr>)"
    "dev_inv B k" "dev_abs k = spec_write bs l"
    using session_write_success [OF inv(1) f K mem bs] inv(2) by auto
  with rcv f show ?thesis by (auto simp: receiving_def device_ok_def file_pos_def)
qed

lemma receiving_seek:
  assumes rcv: "receiving B out w0 l p w" and up: "kernel_up (kern w0)"
  shows "\<exists>r w'. session_ioctl out AESDCHAR_IOCSEEKTO sk w = Some (r, w') \<and> inbox w' = inbox w \<and>
    (if seek_ok l sk then 0 \<le> sint r \<and> receiving B out w0 l (seek_pos l sk) w'
     else sint r < 0 \<and> receiving B out w0 l p w')"
proof -
  obtain f where f: "files (machine w) (unat out) = Some f" "private_data f \<noteq> None"
    and inv: "dev_inv B (ks (machine w))" "l = dev_abs (ks (machine w))" and K: "kernel_ok (kern w)" "kernel_up (kern w)"
    using rcv up by (auto simp: receiving_def device_ok_def)
  note res = session_ioctl_result [OF inv(1) f K inv(2), of sk]
  show ?thesis
  proof (cases "seek_ok l sk")
    case True
    have "seek_pos l sk < 10 * KMALLOC_MAX_SIZE"
      using seek_pos_inside [OF True] contents_bound inv by (fastforce simp: dev_inv_def)
    then have p: "seek_pos l sk < 2 ^ 31" by (simp add: KMALLOC_MAX_SIZE_def)
    with True res rcv f show ?thesis
      by (auto simp: receiving_def device_ok_def file_pos_def sint_int_of_nat unat_of_nat_small)
  next
    case False
    with res rcv show ?thesis by simp
  qed
qed

lemma session_recv_chunk:
  assumes "cl \<in> sockets w" and "inbox w = Chunk msg # es" and "bs = take BUFFER_SIZE msg"
  shows "session_recv cl BUFFER_SIZE w = Some (of_nat (length bs), bs, w\<lparr>inbox := after_chunk msg es\<rparr>)"
  using assms by (simp add: session_recv_def after_chunk_def Let_def)

definition is_write :: "byte list \<Rightarrow> bool" where
  "is_write bs = (case chunk_seek bs of None \<Rightarrow> False | Some (rc, sk) \<Rightarrow> rc \<noteq> 0)"

text \<open>One round does what the specification of a chunk says.\<close>

lemma session_round:
  assumes rcv: "receiving B out w0 l p w" and up: "kernel_up (kern w0)" and sock: "cl \<in> sockets w0"
    and rb: "length rb = BUFFER_SIZE" and inbox: "inbox w = Chunk msg # es" and msg: "msg \<noteq> []"
    and bs: "bs = take BUFFER_SIZE msg"
    and mem: "is_write bs \<Longrightarrow> has_memory (kern w) (ks (machine w)) (upto_newline bs)"
  shows "case spec_chunk bs l p of
      Waits \<Rightarrow> False
    | Undefined \<Rightarrow> recv_round session_env rb cl out w = None
    | Fails l' \<Rightarrow> \<exists>rb' w'. recv_round session_env rb cl out w = Some (Inl (- 1), rb', w') \<and>
        receiving B out w0 l' p w'
    | Received l' p' \<Rightarrow> \<exists>rb' w'. recv_round session_env rb cl out w = Some (Inr (of_nat (length bs)), rb', w') \<and>
        length rb' = BUFFER_SIZE \<and> inbox w' = after_chunk msg es \<and> receiving B out w0 l' p' w'"
proof -
  let ?w = "w\<lparr>inbox := after_chunk msg es\<rparr>"
  have len: "length bs \<le> BUFFER_SIZE" and ne: "bs \<noteq> []" using bs msg by (simp_all add: BUFFER_SIZE_def)
  have len': "length (padded bs) = BUFFER_SIZE" using len by (simp add: padded_def)
  have "cl \<in> sockets w" using rcv sock by (simp add: receiving_def)
  then have "sys_recv session_env cl BUFFER_SIZE w = Some (of_nat (length bs), bs, ?w)"
    using session_recv_chunk [OF _ inbox bs] by simp
  note round = recv_round_chunk [OF rb this ne len, of out]
  have rcv': "receiving B out w0 l p ?w" using rcv by simp
  show ?thesis
  proof (cases "chunk_seek bs")
    case None
    with round show ?thesis by (simp add: spec_chunk_def)
  next
    case (Some y)
    then obtain rc sk where y: "chunk_seek bs = Some (rc, sk)" by (cases y) simp
    show ?thesis
    proof (cases "rc = 0")
      case True
      from receiving_seek [OF rcv' up, of sk] round y True len' show ?thesis
        by (auto simp: spec_chunk_def split: if_split_asm)
    next
      case False
      have le: "length (upto_newline bs) \<le> BUFFER_SIZE" using length_upto_newline [of bs] len by simp
      have "has_memory (kern ?w) (ks (machine ?w)) (upto_newline bs)" using mem y False by (simp add: is_write_def)
      from receiving_write [OF rcv' up upto_newline_not_Nil [OF ne] le this] obtain w' where
        "session_write out (upto_newline bs) ?w = Some (of_nat (length (upto_newline bs)), w')"
        "inbox w' = after_chunk msg es" "receiving B out w0 (spec_write (upto_newline bs) l) p w'" by auto
      with round y False len' small_int_not_minus_one [OF le] show ?thesis
        by (simp add: spec_chunk_def ucast_of_nat_int)
    qed
  qed
qed

section \<open>Receiving a message\<close>

text \<open>What \<open>recv_messages\<close> does, in the terms of the specification.\<close>

definition recv_gives ::
    "addr set \<Rightarrow> c_int \<Rightarrow> c_int \<Rightarrow> session \<Rightarrow> byte list \<Rightarrow> session \<Rightarrow> outcome \<Rightarrow> bool" where
  "recv_gives B cl out w0 rb w y =
     (case y of
        Fails l \<Rightarrow> \<exists>rb' w' p. recv_messages session_env rb cl out w = Some (- 1, rb', w') \<and> receiving B out w0 l p w'
      | Received l p \<Rightarrow> \<exists>rb' w'. recv_messages session_env rb cl out w = Some (0, rb', w') \<and> receiving B out w0 l p w'
      | _ \<Rightarrow> recv_messages session_env rb cl out w = None)"

lemma sint_chunk: "n \<le> BUFFER_SIZE \<Longrightarrow> sint (of_nat n :: ssize_t) = int n"
  by (simp add: BUFFER_SIZE_def sint_small unat_of_nat_small)

lemma recv_gives_chunk:
  assumes rcv: "receiving B out w0 l p w" and up: "kernel_up (kern w0)" and sock: "cl \<in> sockets w0"
    and rb: "length rb = BUFFER_SIZE" and inbox: "inbox w = Chunk msg # es" and msg: "msg \<noteq> []"
    and mem: "is_write (take BUFFER_SIZE msg) \<Longrightarrow>
      has_memory (kern w) (ks (machine w)) (upto_newline (take BUFFER_SIZE msg))"
    and more: "\<And>rb' w' l' p'. BUFFER_SIZE \<le> length msg \<Longrightarrow> spec_chunk (take BUFFER_SIZE msg) l p = Received l' p' \<Longrightarrow>
      length rb' = BUFFER_SIZE \<Longrightarrow> inbox w' = after_chunk msg es \<Longrightarrow> receiving B out w0 l' p' w' \<Longrightarrow>
      recv_gives B cl out w0 rb' w' (spec_recv (after_chunk msg es) l' p')"
  shows "recv_gives B cl out w0 rb w (spec_recv (Chunk msg # es) l p)"
proof -
  let ?bs = "take BUFFER_SIZE msg"
  note round = session_round [OF rcv up sock rb inbox msg refl mem]
  have n: "int BUFFER_SIZE \<le> sint (of_nat (length ?bs) :: ssize_t) \<longleftrightarrow> BUFFER_SIZE \<le> length msg"
    by (subst sint_chunk) auto
  show ?thesis
  proof (cases "spec_chunk ?bs l p")
    case Waits
    with round show ?thesis by simp
  next
    case Undefined
    then have "recv_messages session_env rb cl out w = None" using round by (subst recv_messages.simps) simp
    with Undefined msg show ?thesis by (simp add: recv_gives_def)
  next
    case (Fails l')
    then obtain rb' w' where "recv_round session_env rb cl out w = Some (Inl (- 1), rb', w')"
      "receiving B out w0 l' p w'" using round by auto
    moreover from this(1) have "recv_messages session_env rb cl out w = Some (- 1, rb', w')"
      by (subst recv_messages.simps) simp
    ultimately show ?thesis using Fails msg by (auto simp: recv_gives_def)
  next
    case (Received l' p')
    then obtain rb' w' where rnd: "recv_round session_env rb cl out w = Some (Inr (of_nat (length ?bs)), rb', w')"
      and w': "length rb' = BUFFER_SIZE" "inbox w' = after_chunk msg es" "receiving B out w0 l' p' w'"
      using round by auto
    have eq: "recv_messages session_env rb cl out w =
        (if BUFFER_SIZE \<le> length msg then recv_messages session_env rb' cl out w' else Some (0, rb', w'))"
      using rnd n by (subst recv_messages.simps) (auto simp del: length_take)
    show ?thesis
    proof (cases "BUFFER_SIZE \<le> length msg")
      case True
      from more [OF True Received w'] eq True Received msg show ?thesis
        by (simp add: recv_gives_def split: outcome.splits)
    next
      case False
      with eq Received msg w'(3) show ?thesis by (simp add: recv_gives_def)
    qed
  qed
qed

text \<open>Nothing is received: the connection is closed or broken, or the socket is not open.\<close>

lemma recv_gives_none:
  assumes rcv: "receiving B out w0 l p w"
    and recv: "session_recv cl BUFFER_SIZE w = Some (r, [], w')" "r = 0 \<or> r = - 1" "receiving B out w0 l p w'"
  shows "recv_gives B cl out w0 rb w (Fails l)"
proof -
  obtain rb' where "recv_round session_env rb cl out w = Some (Inl (- 1), rb', w')"
    using recv(1,2) by (auto simp: recv_round_def fill_def)
  then have "recv_messages session_env rb cl out w = Some (- 1, rb', w')"
    by (subst recv_messages.simps) simp
  with recv(3) show ?thesis by (auto simp: recv_gives_def)
qed

text \<open>The allocator has blocks for commands of up to \<open>N\<close> bytes.\<close>

definition memory_for :: "addr set \<Rightarrow> nat \<Rightarrow> kernel \<Rightarrow> bool" where
  "memory_for B N K \<longleftrightarrow>
     (\<forall>s bs. dev_inv B s \<and> length (pending (dev_abs s)) + length bs \<le> N \<and> length bs \<le> BUFFER_SIZE \<longrightarrow> has_memory K s bs)"

lemma spec_chunk_pending:
  "spec_chunk bs l p = Received l' p' \<Longrightarrow> length (pending l') \<le> length (pending l) + length bs"
  using length_upto_newline [of bs]
  by (auto simp: spec_chunk_def spec_write_def Let_def split: option.split_asm prod.split_asm if_split_asm)

lemma recv_messages_exact:
  assumes "receiving B out w0 l p w" and up: "kernel_up (kern w0)" and sock: "cl \<in> sockets w0"
    and "length rb = BUFFER_SIZE" and mem: "memory_for B N (kern w0)"
    and "length (pending l) + inbox_bytes (inbox w) \<le> N"
  shows "recv_gives B cl out w0 rb w (spec_recv (inbox w) l p)"
  using assms(1,4,6)
proof (induction "inbox w" l p arbitrary: w rb rule: spec_recv.induct)
  case (1 l p)
  then have "recv_round session_env rb cl out w = None"
    using sock by (simp add: recv_round_def session_recv_def receiving_def split: list.split)
  then have "recv_messages session_env rb cl out w = None" by (subst recv_messages.simps) simp
  with 1 show ?case by (simp add: recv_gives_def flip: 1(1))
next
  case (2 es l p)
  from 2(1) [symmetric] have "session_recv cl BUFFER_SIZE w = Some (0, [], w)"
    using sock 2(2) by (simp add: session_recv_def receiving_def)
  from recv_gives_none [OF 2(2) this] 2 show ?case by (simp flip: 2(1))
next
  case (3 es l p)
  from 3(1) [symmetric] have "session_recv cl BUFFER_SIZE w = Some (- 1, [], w\<lparr>inbox := es\<rparr>)"
    using sock 3(2) by (simp add: session_recv_def receiving_def)
  from recv_gives_none [OF 3(2) this] 3 show ?case by (simp flip: 3(1))
next
  case (4 msg es l p)
  note inbox = 4(2) [symmetric]
  show ?case
  proof (cases "msg = []")
    case True
    then have "session_recv cl BUFFER_SIZE w = Some (0, [], w\<lparr>inbox := es\<rparr>)"
      using sock 4(3) inbox by (simp add: session_recv_def receiving_def)
    from recv_gives_none [OF 4(3) this] 4(3) True show ?thesis by (simp add: inbox)
  next
    case False
    show ?thesis unfolding inbox
    proof (rule recv_gives_chunk [OF 4(3) up sock 4(4) inbox False])
      have "length (upto_newline (take BUFFER_SIZE msg)) \<le> length (take BUFFER_SIZE msg)" by (rule length_upto_newline)
      with 4(5) inbox inbox_bytes_after [of msg es] mem 4(3)
      show "has_memory (kern w) (ks (machine w)) (upto_newline (take BUFFER_SIZE msg))"
        by (auto simp: memory_for_def receiving_def device_ok_def)
    next
      fix rb' :: "byte list" and w' l' p'
      assume *: "BUFFER_SIZE \<le> length msg" "spec_chunk (take BUFFER_SIZE msg) l p = Received l' p'"
        "length rb' = BUFFER_SIZE" "inbox w' = after_chunk msg es" "receiving B out w0 l' p' w'"
      have le: "length (pending l') + inbox_bytes (inbox w') \<le> N"
        using spec_chunk_pending [OF *(2)] 4(5) inbox inbox_bytes_after [of msg es] *(4) by simp
      have "\<not> length msg < BUFFER_SIZE" using *(1) by simp
      from 4(1) [OF False *(2) this *(4) [symmetric] *(5,3) le] *(4)
      show "recv_gives B cl out w0 rb' w' (spec_recv (after_chunk msg es) l' p')" by simp
    qed
  qed
qed

text \<open>What arrives for the thread: on a socket that is not open, an error.\<close>

definition arrivals :: "c_int \<Rightarrow> session \<Rightarrow> recv_event list" where
  "arrivals cl w = (if cl \<in> sockets w then inbox w else [Recv_error])"

lemma recv_gives_arrivals:
  assumes rcv: "receiving B out w l p (opened w)" and up: "kernel_up (kern w)"
    and rb: "length rb = BUFFER_SIZE" and mem: "memory_for B N (kern w)" "length (pending l) + inbox_bytes (inbox w) \<le> N"
  shows "recv_gives B cl out w rb (opened w) (spec_recv (arrivals cl w) l p)"
proof (cases "cl \<in> sockets w")
  case True
  with recv_messages_exact [OF rcv up True rb mem(1)] mem(2) show ?thesis by (simp add: arrivals_def)
next
  case False
  then have "session_recv cl BUFFER_SIZE (opened w) = Some (- 1, [], opened w)" by (simp add: session_recv_def)
  from recv_gives_none [OF rcv this _ rcv] False show ?thesis by (simp add: arrivals_def)
qed

section \<open>The refinement\<close>

text \<open>What the thread leaves behind, given the log, the bytes that the client gets and whether it succeeded.\<close>

definition served ::
    "addr set \<Rightarrow> connection_thread_args \<Rightarrow> session \<Rightarrow> alog \<times> byte list \<times> bool \<Rightarrow>
     connection_thread_args \<times> session \<Rightarrow> bool" where
  "served B args w = (\<lambda>(l, bs, success) (args', w').
     dev_inv B (ks (machine w')) \<and> dev_abs (ks (machine w')) = l \<and> outbox w' = outbox w @ bs \<and>
     thread_complete args' \<and> (thread_complete_success args' \<longleftrightarrow> success) \<and>
     \<not> mutex_held w' \<and> open_fds w' = open_fds w - {client_fd args})"

definition serves ::
    "addr set \<Rightarrow> byte list \<Rightarrow> byte list \<Rightarrow> connection_thread_args \<Rightarrow> session \<Rightarrow> (alog \<times> byte list \<times> bool) option \<Rightarrow> bool" where
  "serves B rb sb args w y =
     (case y of
        None \<Rightarrow> connection_thread session_env rb sb args w = None
      | Some z \<Rightarrow> \<exists>res. connection_thread session_env rb sb args w = Some res \<and> served B args w z res)"

lemma servedI:
  assumes "connection_thread session_env rb sb args w = Some (args', w')"
    and "dev_inv B (ks (machine w'))" and "dev_abs (ks (machine w')) = l" and "outbox w' = outbox w @ bs"
    and "thread_complete args'" and "thread_complete_success args' \<longleftrightarrow> success"
  shows "serves B rb sb args w (Some (l, bs, success))"
  using assms ses.thread_releases [OF assms(1)] by (auto simp: served_def serves_def split: if_split_asm)

lemma serve_recv_fails:
  assumes ready: "session_ready B w"
    and recv: "recv_messages session_env rb (client_fd args) (open_rc w) (opened w) = Some (- 1, rb', w3)"
    and w3: "dev_inv B (ks (machine w3))" "dev_abs (ks (machine w3)) = l" "outbox w3 = outbox w"
  shows "serves B rb sb args w (Some (l, [], False))"
proof -
  from thread_recv_fails [OF ready recv, of sb] w3 obtain args' w' where
    th: "connection_thread session_env rb sb args w = Some (args', w')"
    and w': "ks (machine w') = ks (machine w3)" "outbox w' = outbox w"
      "\<not> thread_complete_success args'" "thread_complete args'" by auto
  with w3 servedI [OF th, of B l "[]" False] show ?thesis by simp
qed

lemma serves_outcome:
  assumes ready: "session_ready B w" and sb: "length sb = BUFFER_SIZE"
    and gives: "recv_gives B (client_fd args) (open_rc w) w rb (opened w) y"
  shows "serves B rb sb args w (spec_reply (answers (client_fd args) w) y)"
proof -
  have stuck: "serves B rb sb args w None"
    if "recv_messages session_env rb (client_fd args) (open_rc w) (opened w) = None"
    using that ready session_opens [OF ready] by (simp add: serves_def connection_thread_def session_ready_def)
  show ?thesis
  proof (cases y)
    case (Fails l)
    with gives obtain rb' w' p where
      "recv_messages session_env rb (client_fd args) (open_rc w) (opened w) = Some (- 1, rb', w')"
      "receiving B (open_rc w) w l p w'" by (auto simp: recv_gives_def)
    with serve_recv_fails [OF ready, of rb args rb' w' l sb] Fails show ?thesis
      by (simp add: spec_reply_def receiving_def device_ok_def)
  next
    case (Received l p)
    with gives obtain rb' w' where
      recv: "recv_messages session_env rb (client_fd args) (open_rc w) (opened w) = Some (0, rb', w')"
      and w': "receiving B (open_rc w) w l p w'" by (auto simp: recv_gives_def)
    have ok: "device_ok B (open_rc w) l w'" and out: "outbox w' = outbox w"
      using w' by (simp_all add: receiving_def)
    have same: "unread_blocks (open_rc w) w' = reply_blocks l p" "answers (client_fd args) w' = answers (client_fd args) w"
      using w' by (simp_all add: receiving_def device_ok_def unread_blocks_def answers_def)
    obtain bs success where reply: "spec_send (reply_blocks l p) (answers (client_fd args) w) = (bs, success)" by fastforce
    with thread_received [OF ready recv ok sb, unfolded same, OF reply] out obtain args' w'' where
      "connection_thread session_env rb sb args w = Some (args', w'')"
      "dev_inv B (ks (machine w''))" "dev_abs (ks (machine w'')) = l" "outbox w'' = outbox w @ bs"
      "thread_complete_success args' = success" "thread_complete args'" by auto
    with servedI [of rb sb args w args' w'' B l bs success] Received reply show ?thesis by (simp add: spec_reply_def)
  qed (use gives stuck in \<open>simp_all add: recv_gives_def spec_reply_def\<close>)
qed

text \<open>Any connection.\<close>

lemma connection_exact:
  assumes ready: "session_ready B w" and up: "kernel_up (kern w)"
    and bufs: "length rb = BUFFER_SIZE" "length sb = BUFFER_SIZE" and mem: "memory_for B N (kern w)"
    and N: "length (pending (dev_abs (ks (machine w)))) + inbox_bytes (inbox w) \<le> N"
  shows "serves B rb sb args w
    (spec_connection (arrivals (client_fd args) w) (answers (client_fd args) w) (dev_abs (ks (machine w))))"
  unfolding spec_connection_def
  using recv_gives_arrivals [OF receiving_opened [OF ready up] up bufs(1) mem N] by (rule serves_outcome [OF ready bufs(2)])

text \<open>A message that fits the buffer; memory is needed only when it is written.\<close>

lemma serve_message:
  assumes ready: "session_ready B w" and up: "kernel_up (kern w)" and sock: "client_fd args \<in> sockets w"
    and bufs: "length rb = BUFFER_SIZE" "length sb = BUFFER_SIZE"
    and inbox: "inbox w = Chunk msg # es" and msg: "msg \<noteq> []" "length msg < BUFFER_SIZE"
    and mem: "is_write msg \<Longrightarrow> has_memory (kern w) (ks (machine w)) (upto_newline msg)"
  shows "serves B rb sb args w (spec_reply (sends w) (spec_chunk msg (dev_abs (ks (machine w))) 0))"
proof -
  let ?l = "dev_abs (ks (machine w))"
  have "spec_recv (Chunk msg # es) ?l 0 = spec_chunk msg ?l 0"
    using msg by (auto split: outcome.split)
  moreover have "recv_gives B (client_fd args) (open_rc w) w rb (opened w) (spec_recv (Chunk msg # es) ?l 0)"
    by (rule recv_gives_chunk [OF receiving_opened [OF ready up] up sock bufs(1)]) (use msg inbox mem in simp_all)
  ultimately have "recv_gives B (client_fd args) (open_rc w) w rb (opened w) (spec_chunk msg ?l 0)" by simp
  from serves_outcome [OF ready bufs(2) this] sock show ?thesis by (simp add: answers_def)
qed

section \<open>Connections that fail\<close>

lemma serve_no_message:
  assumes ready: "session_ready B w" and rb: "length rb = BUFFER_SIZE"
    and inbox: "client_fd args \<notin> sockets w \<or> inbox w = Closed # es \<or> inbox w = Recv_error # es"
  shows "serves B rb sb args w (Some (dev_abs (ks (machine w)), [], False))"
proof -
  obtain r w3 where r: "session_recv (client_fd args) BUFFER_SIZE (opened w) = Some (r, [], w3)" "r = 0 \<or> r = - 1"
    and w3: "ks (machine w3) = ks (machine w)" "outbox w3 = outbox w"
    using inbox by (cases "client_fd args \<in> sockets w") (auto simp: session_recv_def)
  then obtain rb' where "recv_round session_env rb (client_fd args) (open_rc w) (opened w) = Some (Inl (- 1), rb', w3)"
    by (auto simp: recv_round_def fill_def)
  then have "recv_messages session_env rb (client_fd args) (open_rc w) (opened w) = Some (- 1, rb', w3)"
    by (subst recv_messages.simps) simp
  from serve_recv_fails [OF ready this] w3 ready show ?thesis by (simp add: session_ready_def)
qed

text \<open>The driver refuses the write.\<close>

lemma serve_refused:
  assumes ready: "session_ready B w" and rb: "length rb = BUFFER_SIZE"
    and inbox: "inbox w = Chunk msg # es" and msg: "msg \<noteq> []" and bs: "bs = take BUFFER_SIZE msg" and wr: "is_write bs"
    and refused: "lock_rc (kern w) = 0 \<and> \<not> has_memory (kern w) (ks (machine w)) (upto_newline bs) \<or>
      - 4095 \<le> sint (lock_rc (kern w)) \<and> sint (lock_rc (kern w)) < 0"
  shows "serves B rb sb args w (Some (dev_abs (ks (machine w)), [], False))"
proof (cases "client_fd args \<in> sockets w")
  case True
  let ?w = "(opened w)\<lparr>inbox := after_chunk msg es\<rparr>"
  have len: "length bs \<le> BUFFER_SIZE" and ne: "bs \<noteq> []" using bs msg by (simp_all add: BUFFER_SIZE_def)
  obtain rc sk where seek: "chunk_seek bs = Some (rc, sk)" "rc \<noteq> 0"
    using wr by (auto simp: is_write_def split: option.split_asm)
  have "length (upto_newline bs) \<le> MAX_RW_COUNT"
    using length_upto_newline [of bs] len by (simp add: BUFFER_SIZE_def MAX_RW_COUNT_def)
  then have written: "session_write (open_rc w) (upto_newline bs) ?w = Some (- 1, ?w)"
    by (intro session_write_refused [of B _ _ dev_file])
      (use ready refused in \<open>simp_all add: session_ready_def dev_file_def\<close>)
  have "sys_recv session_env (client_fd args) BUFFER_SIZE (opened w) = Some (of_nat (length bs), bs, ?w)"
    using session_recv_chunk [OF _ _ bs, of "client_fd args" "opened w" es] True inbox by simp
  from recv_round_chunk [OF rb this ne len, of "open_rc w"] seek written
  have "recv_round session_env rb (client_fd args) (open_rc w) (opened w) = Some (Inl (- 1), padded bs, ?w)"
    by (simp add: ucast_minus_one)
  then have "recv_messages session_env rb (client_fd args) (open_rc w) (opened w) = Some (- 1, padded bs, ?w)"
    by (subst recv_messages.simps) simp
  from serve_recv_fails [OF ready this] ready show ?thesis by (simp add: session_ready_def)
qed (use serve_no_message [OF ready rb] in blast)

text \<open>When the device cannot be opened, the thread returns at once and is never marked complete.\<close>

lemma serve_open_fails:
  assumes "\<not> mutex_held w" and "sint (open_rc w) < 0"
  shows "connection_thread session_env rb sb args w = Some (args\<lparr>thread_complete := False\<rparr>, w)"
  using assms
  by (simp add: connection_thread_def lock_mutex_def session_lock_def session_open_def
      session_unlock_held Let_def)

text \<open>A chunk in which the search for a seek command goes wrong.\<close>

lemma serve_undefined:
  assumes ready: "session_ready B w" and rb: "length rb = BUFFER_SIZE" and sock: "client_fd args \<in> sockets w"
    and inbox: "inbox w = Chunk msg # es" "msg \<noteq> []" and bad: "chunk_seek (take BUFFER_SIZE msg) = None"
  shows "connection_thread session_env rb sb args w = None"
proof -
  let ?bs = "take BUFFER_SIZE msg"
  have len: "length ?bs \<le> BUFFER_SIZE" and ne: "?bs \<noteq> []" using inbox by (simp_all add: BUFFER_SIZE_def)
  have "sys_recv session_env (client_fd args) BUFFER_SIZE (opened w) =
      Some (of_nat (length ?bs), ?bs, (opened w)\<lparr>inbox := after_chunk msg es\<rparr>)"
    using session_recv_chunk [OF _ _ refl, of "client_fd args" "opened w" msg es] sock inbox by simp
  from recv_round_chunk [OF rb this ne len, of "open_rc w"] bad
  have "recv_round session_env rb (client_fd args) (open_rc w) (opened w) = None" by simp
  then have "recv_messages session_env rb (client_fd args) (open_rc w) (opened w) = None"
    by (subst recv_messages.simps) simp
  then show ?thesis using ready session_opens [OF ready] by (simp add: connection_thread_def session_ready_def)
qed

end
