(* ===== verification/Demo_Kernel.thy ===== *)
theory Demo_Kernel
  imports Driver_Module
begin

text \<open>
  A concrete kernel and concrete device states, at which the properties of the driver are
  instantiated: an allocator that hands out the free ones of a pool of blocks, copies that succeed,
  and a device that holds one finished command.
\<close>

definition pool_kmalloc :: "heap \<Rightarrow> size_t \<Rightarrow> (addr \<times> byte list) option" where
  "pool_kmalloc h n =
     (if unat n \<le> KMALLOC_MAX_SIZE
      then map_option (\<lambda>a. (a, replicate (unat n) 0)) (List.find (\<lambda>a. h a = None) [1..<32])
      else None)"

definition demo_kernel :: kernel where
  "demo_kernel =
     \<lparr>lock_rc = 0, kmalloc = pool_kmalloc,
      copy_from_user = (\<lambda>u n. if unat n \<le> length u then (take (unat n) u, 0)
                              else (take (unat n) (u @ replicate (unat n) 0), n)),
      copy_to_user = (\<lambda>bs. (bs, 0)), copy_seekto_from_user = (\<lambda>v. (v, 0)),
      chrdev_rc = 0, chrdev_dev = 0x0F000000, cdev_add_rc = 0\<rparr>"

text \<open>A kernel whose copies to and from user space of at least one byte all fail.\<close>

definition faulty_kernel :: kernel where
  "faulty_kernel =
     demo_kernel\<lparr>copy_from_user := (\<lambda>u n. (if n = 0 then take 0 u else replicate (unat n) 0, n)),
       copy_to_user := (\<lambda>bs. if bs = [] then ([], 0) else (tl bs, 1))\<rparr>"

definition demo_file :: kfile where
  "demo_file = \<lparr>f_pos = 0, private_data = Some Aesd_device\<rparr>"

definition idle_state :: kstate where
  "idle_state = \<lparr>aesd_device = zero_dev, kheap = Map.empty, aesd_major = 0xF0,
                 chrdev_region = Some 0x0F000000, cdev_live = True\<rparr>"

text \<open>The finished command \<open>hi\<close> with its newline, in block 1.\<close>

definition demo_line :: "byte list" where
  "demo_line = [104, 105, 10]"

definition demo_state :: kstate where
  "demo_state = idle_state
     \<lparr>kheap := [1 \<mapsto> demo_line],
      aesd_device := zero_dev\<lparr>circular_buffer :=
        aesd_circular_buffer_init\<lparr>entry := (replicate 10 zero_entry)[0 := \<lparr>buffptr = Some 1, entry_size = 3\<rparr>],
          in_offs := 1\<rparr>\<rparr>\<rparr>"

lemma length_demo_line [simp]: "length demo_line = 3"
  by (simp add: demo_line_def)

lemma pool_kmalloc_ok:
  assumes "pool_kmalloc h n = Some (a, bs)"
  shows "length bs = unat n \<and> unat n \<le> KMALLOC_MAX_SIZE \<and> h a = None"
  using assms by (auto simp: pool_kmalloc_def find_Some_iff split: if_splits)

lemma demo_kernel_ok: "kernel_ok demo_kernel"
  using pool_kmalloc_ok
  by (auto simp: kernel_ok_def kmalloc_ok_def copy_ok_def demo_kernel_def)

lemma faulty_kernel_ok: "kernel_ok faulty_kernel"
  using pool_kmalloc_ok
  by (auto simp: kernel_ok_def kmalloc_ok_def copy_ok_def demo_kernel_def faulty_kernel_def
      Suc_le_eq)

lemma demo_kernel_sel [simp]:
  "lock_rc demo_kernel = 0" "kmalloc demo_kernel = pool_kmalloc"
  "copy_to_user demo_kernel = (\<lambda>bs. (bs, 0))" "copy_seekto_from_user demo_kernel = (\<lambda>v. (v, 0))"
  "chrdev_rc demo_kernel = 0" "cdev_add_rc demo_kernel = 0" "chrdev_dev demo_kernel = 0x0F000000"
  "lock_rc faulty_kernel = 0" "kmalloc faulty_kernel = pool_kmalloc"
  by (simp_all add: demo_kernel_def faulty_kernel_def)

lemma demo_copy_from_user [simp]:
  "length u = unat n \<Longrightarrow> copy_from_user demo_kernel u n = (u, 0)"
  by (simp add: demo_kernel_def)

lemma demo_file_opened [simp]: "private_data demo_file = Some Aesd_device" "f_pos demo_file = 0"
  by (simp_all add: demo_file_def)

lemma idle_state_inv: "dev_inv {} idle_state"
  using dev_inv_zero [of idle_state] by (simp add: idle_state_def)

lemma idle_state_abs: "dev_abs idle_state = empty_log"
  by (simp add: dev_abs_zero idle_state_def)

lemma pool_empty: "pool_kmalloc Map.empty n = (if unat n \<le> KMALLOC_MAX_SIZE then Some (1, replicate (unat n) 0) else None)"
  by (simp add: pool_kmalloc_def upt_conv_Cons)

lemma demo_write: "aesd_write demo_kernel demo_file demo_line 3 idle_state = Some (3, demo_state)"
proof -
  have [simp]: "\<not> device_mutex (aesd_device idle_state)" by (simp add: idle_state_def zero_dev_def)
  show ?thesis
    by (simp add: aesd_write_def locking Let_def pool_empty idle_state_def demo_state_def zero_dev_def
        KMALLOC_MAX_SIZE_def write_extend_def store_bytes_def load_byte_def demo_line_def locked_def
        unlocked_def mutex_lock_interruptible_def mutex_unlock_def write_commit_def
        aesd_circular_buffer_add_entry_def aesd_circular_buffer_init_def zero_entry_def word_le_nat_alt)
qed

lemma demo_state_inv: "dev_inv {} demo_state"
  and demo_state_abs: "dev_abs demo_state = \<lparr>lines = [demo_line], pending = []\<rparr>"
proof -
  have "\<exists>s'. aesd_write demo_kernel demo_file demo_line 3 idle_state = Some (3, s') \<and> dev_inv {} s' \<and>
    dev_abs s' = spec_write demo_line (dev_abs idle_state)"
    by (rule write_success [OF idle_state_inv demo_kernel_ok])
      (simp_all add: MAX_RW_COUNT_def demo_line_def pool_empty idle_state_def zero_dev_def KMALLOC_MAX_SIZE_def)
  then have "dev_inv {} demo_state" and "dev_abs demo_state = spec_write demo_line empty_log"
    by (simp_all add: demo_write idle_state_abs)
  then show "dev_inv {} demo_state" and "dev_abs demo_state = \<lparr>lines = [demo_line], pending = []\<rparr>"
    by (simp_all add: spec_write_def empty_log_def demo_line_def)
qed

end
