(* ===== verification/Driver_History.thy ===== *)
theory Driver_History
  imports Driver_Module
begin

text \<open>
  What the driver has been given. A run is recorded as the sequence of the writes that the kernel let
  through, byte for byte; the log that the device holds is the effect of these writes, one after the
  other, on the empty log, and of the bytes only whole old commands are missing.
\<close>

section \<open>The record of a run\<close>

text \<open>
  A write goes through when the lock is taken, there is memory for the unfinished command with the
  new bytes, and all of them are copied.
\<close>

definition goes_through :: "kernel \<Rightarrow> byte list \<Rightarrow> size_t \<Rightarrow> kstate \<Rightarrow> bool" where
  "goes_through K buf count s \<longleftrightarrow>
     lock_rc K = 0 \<and> kmalloc K (kheap s) (entry_size (current_entry (aesd_device s)) + count) \<noteq> None \<and>
     snd (copy_from_user K buf count) = 0"

text \<open>The system calls once more, with the bytes that a write adds.\<close>

inductive drv_act :: "driver \<Rightarrow> byte list list \<Rightarrow> driver \<Rightarrow> bool" where
  act_open: "files s fd = None \<Longrightarrow> aesd_open \<lparr>i_cdev = Aesd_device\<rparr> new_file = (0, f) \<Longrightarrow>
     drv_act s [] (s\<lparr>files := (files s)(fd \<mapsto> f)\<rparr>)"
| act_release: "files s fd = Some f \<Longrightarrow> aesd_release \<lparr>i_cdev = Aesd_device\<rparr> f = (0, f') \<Longrightarrow>
     drv_act s [] (s\<lparr>files := (files s)(fd := None)\<rparr>)"
| act_read: "files s fd = Some f \<Longrightarrow> kernel_ok K \<Longrightarrow> unat count \<le> MAX_RW_COUNT \<Longrightarrow>
     aesd_read K f count (f_pos f) (ks s) = Some (r, pos, bs, k) \<Longrightarrow>
     drv_act s [] (s\<lparr>ks := k, files := (files s)(fd \<mapsto> f\<lparr>f_pos := pos\<rparr>)\<rparr>)"
| act_write: "files s fd = Some f \<Longrightarrow> kernel_ok K \<Longrightarrow> unat count \<le> MAX_RW_COUNT \<Longrightarrow>
     length buf = unat count \<Longrightarrow> aesd_write K f buf count (ks s) = Some (r, k) \<Longrightarrow>
     drv_act s (if goes_through K buf count (ks s) then [buf] else []) (s\<lparr>ks := k\<rparr>)"
| act_llseek: "files s fd = Some f \<Longrightarrow> kernel_ok K \<Longrightarrow>
     aesd_llseek K f offset whence (ks s) = Some (r, f', k) \<Longrightarrow>
     drv_act s [] (s\<lparr>ks := k, files := (files s)(fd \<mapsto> f')\<rparr>)"
| act_ioctl: "files s fd = Some f \<Longrightarrow> kernel_ok K \<Longrightarrow>
     aesd_unlocked_ioctl K f cmd arg (ks s) = Some (r, f', k) \<Longrightarrow>
     drv_act s [] (s\<lparr>ks := k, files := (files s)(fd \<mapsto> f')\<rparr>)"

lemma act_is_step: "drv_act s ws t \<Longrightarrow> drv_step s t"
  by (erule drv_act.cases) (auto intro: drv_step.intros)

lemma step_is_act: "drv_step s t \<Longrightarrow> \<exists>ws. drv_act s ws t"
  by (erule drv_step.cases) (blast intro: drv_act.intros)+

section \<open>The effect of a write\<close>

lemma write_effect:
  assumes "dev_inv B s" and "kernel_ok K" and "private_data f \<noteq> None" and "unat count \<le> MAX_RW_COUNT"
    and "length buf = unat count" and w: "aesd_write K f buf count s = Some (r, s')"
  shows "dev_abs s' = fold spec_write (if goes_through K buf count s then [buf] else []) (dev_abs s)"
proof (cases "goes_through K buf count s")
  case True
  have "pending (dev_abs s) \<noteq> [] \<or> count \<noteq> 0"
  proof (rule ccontr)
    assume "\<not> ?thesis"
    then have zero: "pending (dev_abs s) = []" "count = 0" by auto
    have "pending_ok (kheap s) (current_entry (aesd_device s))"
      using assms(1) by (simp add: dev_inv_def dev_wf_def Let_def)
    from pending_bytes(1) [OF this] zero(1) have "entry_size (current_entry (aesd_device s)) = 0"
      by (simp add: dev_abs_def unat_eq_zero [symmetric])
    with True zero write_undefined_iff [OF assms(1-5)] w show False by (simp add: goes_through_def)
  qed
  then show ?thesis
    using write_success [OF assms(1-3) _ assms(4,5)] True w by (auto simp: goes_through_def)
next
  case False
  then consider "lock_rc K \<noteq> 0"
    | "lock_rc K = 0" "kmalloc K (kheap s) (entry_size (current_entry (aesd_device s)) + count) = None"
    | "lock_rc K = 0" "kmalloc K (kheap s) (entry_size (current_entry (aesd_device s)) + count) \<noteq> None"
      "snd (copy_from_user K buf count) \<noteq> 0"
    unfolding goes_through_def by blast
  then have "dev_abs s' = dev_abs s"
  proof cases
    case 1
    with write_interrupted [OF assms(1,3)] w show ?thesis by simp
  next
    case 2
    with write_no_memory [OF assms(1,3)] w show ?thesis by simp
  next
    case 3
    with write_copy_fault [OF assms(1-3) 3(1) assms(4) 3(2,3)] w show ?thesis by auto
  qed
  with False show ?thesis by simp
qed

lemma act_effect:
  assumes inv: "drv_inv B s" and "drv_act s ws t"
  shows "dev_abs (ks t) = fold spec_write ws (dev_abs (ks s))"
  using assms(2)
proof (cases rule: drv_act.cases)
  case (act_read fd f K count r pos bs k)
  with inv have f: "dev_inv B (ks s)" "private_data f \<noteq> None" by (auto simp: drv_inv_def)
  with read_total [OF f, of K count "f_pos f"] act_read show ?thesis by auto
next
  case (act_write fd f K count buf r k)
  with inv have f: "dev_inv B (ks s)" "private_data f \<noteq> None" by (auto simp: drv_inv_def)
  with write_effect [OF f(1) act_write(4) f(2) act_write(5-7)] act_write show ?thesis by simp
next
  case (act_llseek fd f K offset whence r f' k)
  with inv have f: "dev_inv B (ks s)" "private_data f \<noteq> None" by (auto simp: drv_inv_def)
  with llseek_total [OF f, of K offset whence] act_llseek show ?thesis by auto
next
  case (act_ioctl fd f K cmd arg r f' k)
  with inv have f: "dev_inv B (ks s)" "private_data f \<noteq> None" by (auto simp: drv_inv_def)
  with ioctl_total [OF f, of K cmd arg] act_ioctl show ?thesis by auto
qed simp_all

interpretation hist: recorded_system "drv_init B" drv_step "drv_inv B" drv_act "\<lambda>s. dev_abs (ks s)" spec_write for B
  by unfold_locales (auto dest: act_is_step step_is_act act_effect)

section \<open>What the log keeps\<close>

text \<open>Of the bytes that were written only whole commands at the start are missing, and these only if ten follow.\<close>

lemma keep_last_split: "\<exists>old. xs = old @ keep_last n xs \<and> (old \<noteq> [] \<longrightarrow> length (keep_last n xs) = n)"
  by (intro exI [of _ "take (length xs - n) xs"]) (auto simp: keep_last_def)

lemma written_bytes:
  "\<exists>old. concat ws = concat old @ contents (fold spec_write ws empty_log) @ pending (fold spec_write ws empty_log) \<and>
    (old \<noteq> [] \<longrightarrow> length (lines (fold spec_write ws empty_log)) = 10)"
proof (induction ws rule: rev_induct)
  case Nil
  show ?case by (intro exI [of _ "[]"]) (simp add: empty_log_def contents_def)
next
  case (snoc bs ws)
  define l where "l = fold spec_write ws empty_log"
  let ?p = "pending l @ bs"
  obtain old where old: "concat ws = concat old @ contents l @ pending l" "old \<noteq> [] \<longrightarrow> length (lines l) = 10"
    using snoc by (auto simp: l_def)
  have "\<exists>old. concat (ws @ [bs]) = concat old @ contents (spec_write bs l) @ pending (spec_write bs l) \<and>
      (old \<noteq> [] \<longrightarrow> length (lines (spec_write bs l)) = 10)"
  proof (cases "last ?p = newline")
    case True
    then have new: "spec_write bs l = \<lparr>lines = keep_last 10 (lines l @ [?p]), pending = []\<rparr>"
      by (simp add: spec_write_def)
    obtain more where more: "lines l @ [?p] = more @ keep_last 10 (lines l @ [?p])"
      "more \<noteq> [] \<longrightarrow> length (keep_last 10 (lines l @ [?p])) = 10" using keep_last_split by blast
    have "concat (lines l @ [?p]) = concat more @ concat (keep_last 10 (lines l @ [?p]))"
      using more(1) by (metis concat_append)
    moreover have "length (keep_last 10 (lines l @ [?p])) = 10" if "old @ more \<noteq> []"
      using that more(2) old(2) by (auto simp: keep_last_def)
    ultimately show ?thesis using old(1)
      by (intro exI [of _ "old @ more"]) (simp add: new contents_def)
  next
    case False
    then have "spec_write bs l = l\<lparr>pending := ?p\<rparr>" by (simp add: spec_write_def Let_def)
    with old show ?thesis by (intro exI [of _ old]) (simp add: contents_def)
  qed
  then show ?case by (simp add: l_def)
qed

end
