(* ===== verification/Driver_Properties.thy ===== *)
theory Driver_Properties
  imports Demo_Kernel Driver_History
begin

text \<open>
  The properties of the circular buffer and of the character driver, with an instance of each
  that has hypotheses at a concrete kernel, device and file.
\<close>

section \<open>Concrete runs\<close>

definition demo_start :: driver where
  "demo_start = \<lparr>ks = idle_state, files = Map.empty\<rparr>"

definition demo_opened :: driver where
  "demo_opened = \<lparr>ks = idle_state, files = [3 \<mapsto> demo_file]\<rparr>"

definition demo_written :: driver where
  "demo_written = \<lparr>ks = demo_state, files = [3 \<mapsto> demo_file]\<rparr>"

lemma demo_start_init: "drv_init {} demo_start"
proof -
  have "aesd_init_module demo_kernel idle_state = (0, idle_state)"
    by (simp add: aesd_init_module_def Let_def aesd_setup_cdev_def idle_state_def zero_dev_def
        MAJOR_def)
  moreover have "dom (kheap idle_state) = {}" by (simp add: idle_state_def)
  ultimately show ?thesis
    by (auto simp: drv_init_def demo_start_def intro!: exI [of _ demo_kernel] exI [of _ idle_state])
qed

lemma demo_run: "drv_step\<^sup>*\<^sup>* demo_start demo_written"
proof -
  have "drv_step demo_start demo_opened"
    using drv_open [of demo_start 3 demo_file]
    by (simp add: demo_start_def demo_opened_def aesd_open_def new_file_def demo_file_def)
  moreover have "drv_step demo_opened demo_written"
    using drv_write [of demo_opened 3 demo_file demo_kernel 3 demo_line 3 demo_state]
    by (simp add: demo_opened_def demo_written_def demo_kernel_ok demo_write MAX_RW_COUNT_def)
  ultimately show ?thesis by (meson converse_rtranclp_into_rtranclp rtranclp.rtrancl_refl)
qed

section \<open>The life of the driver\<close>

text \<open>
  C6: in every state the driver reaches from a successful initialisation by any sequence of
  open, release, read, write, llseek and ioctl calls on any files, the invariant holds: the
  mutex is free, the circular buffer is well formed, the driver's allocations are exactly the
  blocks it points to (no leak, no dangling pointer, no sharing), and the device holds at most
  ten commands, each non-empty, ended by a newline and within the allocation limit.
\<close>

theorem driver_reachable_invariant:
  assumes "drv_init B s0" and "drv_step\<^sup>*\<^sup>* s0 s"
  shows "dev_inv B (ks s) \<and> length (lines (dev_abs (ks s))) \<le> 10 \<and>
    (\<forall>l \<in> set (lines (dev_abs (ks s))). l \<noteq> [] \<and> last l = newline \<and> length l \<le> KMALLOC_MAX_SIZE)"
proof -
  have inv: "dev_inv B (ks s)" using drv.reachable_inv [OF assms] by (simp add: drv_inv_def)
  then have "dev_wf B (ks s)" by (simp add: dev_inv_def)
  from dev_wf_line [OF this] inv show ?thesis by (simp add: length_lines cb_count_le)
qed

theorem driver_reachable_invariant_witness:
  "dev_inv {} (ks demo_written) \<and> length (lines (dev_abs (ks demo_written))) \<le> 10"
  using driver_reachable_invariant [OF demo_start_init demo_run] by simp

text \<open>
  C10: in every reachable state every file operation on an open file returns, whatever the kernel
  answers within its documented behaviour: no access outside a block, no null or dangling
  pointer, no double free, no unlock without lock and no endless loop. The one exception is a
  write of zero bytes while no command is unfinished: unless the lock or the allocation stops it, the
  handler tests the byte at index \<open>size - 1\<close> with \<open>size = 0\<close>, before the start of an empty block.
\<close>

theorem driver_no_undefined_behaviour:
  assumes "drv_init B s0" and "drv_step\<^sup>*\<^sup>* s0 s" and "files s fd = Some f" and "kernel_ok K"
    and "unat count \<le> MAX_RW_COUNT" and "length buf = unat count"
  shows "aesd_read K f count pos (ks s) \<noteq> None \<and>
    aesd_llseek K f offset whence (ks s) \<noteq> None \<and>
    aesd_unlocked_ioctl K f cmd arg (ks s) \<noteq> None \<and>
    (aesd_write K f buf count (ks s) = None \<longleftrightarrow>
      pending (dev_abs (ks s)) = [] \<and> count = 0 \<and> lock_rc K = 0 \<and> kmalloc K (kheap (ks s)) 0 \<noteq> None)"
proof -
  have "dev_inv B (ks s)" and "private_data f \<noteq> None"
    using drv.reachable_inv [OF assms(1,2)] assms(3) by (auto simp: drv_inv_def)
  from read_total [OF this, of K count pos] llseek_total [OF this, of K offset whence]
    ioctl_total [OF this, of K cmd arg] write_undefined_iff [OF this(1) assms(4) this(2) assms(5,6)]
  show ?thesis by auto
qed

theorem driver_no_undefined_behaviour_witness:
  "aesd_read demo_kernel demo_file 3 0 (ks demo_written) \<noteq> None \<and>
   aesd_write demo_kernel demo_file demo_line 3 (ks demo_written) \<noteq> None \<and>
   aesd_write demo_kernel demo_file [] 0 (ks demo_written) = None"
proof -
  have "kmalloc demo_kernel (kheap demo_state) 0 \<noteq> None"
    by (simp add: pool_kmalloc_def demo_state_def KMALLOC_MAX_SIZE_def upt_conv_Cons)
  then show ?thesis
    using driver_no_undefined_behaviour [OF demo_start_init demo_run, of 3 demo_file demo_kernel 3 demo_line 0]
      driver_no_undefined_behaviour [OF demo_start_init demo_run, of 3 demo_file demo_kernel 0 "[]" 0]
    by (simp add: demo_written_def demo_kernel_ok MAX_RW_COUNT_def demo_line_def demo_state_abs del: not_None_eq)
qed

text \<open>
  C5: what the device holds is what was written to it. Take a run of the driver from its initialisation, any file
  operations on any files, and the byte blocks that its writes were given, in order, leaving out the
  writes that were stopped by a signal, had no memory or were not copied whole: then the device
  holds exactly what these writes put into an empty log one after the other, each appended to the unfinished
  command, which becomes the newest of the last ten when it ends in a newline. Byte for byte, all that was
  written is the contents and the unfinished command, after commands that had to make room, which
  there are only if the device holds ten. Every run has such a record.
\<close>

theorem driver_holds_writes:
  assumes "drv_init B s0" and "recorded drv_act s0 ws s"
  shows "dev_abs (ks s) = fold spec_write ws empty_log \<and>
    (\<exists>old. concat ws = concat old @ contents (dev_abs (ks s)) @ pending (dev_abs (ks s)) \<and>
       (old \<noteq> [] \<longrightarrow> length (lines (dev_abs (ks s))) = 10)) \<and>
    (\<forall>t. drv_step\<^sup>*\<^sup>* s0 t \<longrightarrow> (\<exists>vs. recorded drv_act s0 vs t))"
proof -
  have "dev_abs (ks s0) = empty_log"
    using assms(1) init_device dev_abs_zero by (auto simp: drv_init_def)
  then have log: "dev_abs (ks s) = fold spec_write ws empty_log"
    using hist.recorded_effect [OF assms(2)] drv_init_inv [OF assms(1)] by simp
  then show ?thesis using written_bytes [of ws] hist.run_recorded by simp
qed

text \<open>A line is written.\<close>

lemma demo_record: "recorded drv_act demo_start [demo_line] demo_written"
proof -
  have "drv_act demo_start [] demo_opened"
    using act_open [of demo_start 3 demo_file]
    by (simp add: demo_start_def demo_opened_def aesd_open_def new_file_def demo_file_def)
  moreover have "goes_through demo_kernel demo_line 3 idle_state"
    by (simp add: goes_through_def idle_state_def zero_dev_def pool_kmalloc_def KMALLOC_MAX_SIZE_def upt_conv_Cons)
  then have "drv_act demo_opened [demo_line] demo_written"
    using act_write [of demo_opened 3 demo_file demo_kernel 3 demo_line 3 demo_state]
    by (simp add: demo_opened_def demo_written_def demo_kernel_ok demo_write MAX_RW_COUNT_def)
  ultimately have "recorded drv_act demo_start (([] @ []) @ [demo_line]) demo_written"
    by (blast intro: recorded_nil recorded_snoc)
  then show ?thesis by simp
qed

theorem driver_holds_writes_witness:
  "dev_abs (ks demo_written) = \<lparr>lines = [demo_line], pending = []\<rparr> \<and> concat [demo_line] = contents (dev_abs (ks demo_written))"
  using driver_holds_writes [OF demo_start_init demo_record]
  by (simp add: spec_write_def empty_log_def contents_def demo_line_def)

section \<open>Write\<close>

text \<open>
  C11: a write that gets the lock, the memory and all the user's bytes returns its count, keeps
  the invariant and has the effect of the abstract write.
\<close>

theorem aesd_write_refines:
  assumes "dev_inv B s" and "kernel_ok K" and "private_data f \<noteq> None"
    and "lock_rc K = 0" and "unat count \<le> MAX_RW_COUNT" and "length buf = unat count"
    and "pending (dev_abs s) \<noteq> [] \<or> count \<noteq> 0"
    and "kmalloc K (kheap s) (entry_size (current_entry (aesd_device s)) + count) \<noteq> None"
    and "snd (copy_from_user K buf count) = 0"
  shows "\<exists>s'. aesd_write K f buf count s = Some (count, s') \<and> dev_inv B s' \<and>
    dev_abs s' = spec_write buf (dev_abs s)"
  using write_success [OF assms] .

theorem aesd_write_refines_witness:
  "\<exists>s'. aesd_write demo_kernel demo_file demo_line 3 idle_state = Some (3, s') \<and> dev_inv {} s' \<and>
    dev_abs s' = \<lparr>lines = [demo_line], pending = []\<rparr>"
proof -
  have "\<exists>s'. aesd_write demo_kernel demo_file demo_line 3 idle_state = Some (3, s') \<and> dev_inv {} s' \<and>
    dev_abs s' = spec_write demo_line (dev_abs idle_state)"
    by (rule aesd_write_refines [OF idle_state_inv demo_kernel_ok])
      (simp_all add: MAX_RW_COUNT_def demo_line_def pool_empty idle_state_def zero_dev_def
        KMALLOC_MAX_SIZE_def)
  then show ?thesis by (simp add: idle_state_abs empty_log_def spec_write_def demo_line_def)
qed

section \<open>Read\<close>

text \<open>
  C12: a read whose copy to user space completes delivers the rest of the line in which the
  position lies, cut to the count: the next bytes of the contents of the device, at most as many
  as asked for and at least one before the end. It returns their number, advances the position past
  them and leaves the device unchanged.
\<close>

theorem aesd_read_delivers:
  assumes "dev_inv B s" and "private_data f \<noteq> None" and "lock_rc K = 0" and "kernel_ok K"
    and "\<And>bs. snd (copy_to_user K bs) = 0"
  shows "\<exists>bs. aesd_read K f count pos s = Some (of_nat (length bs), pos + of_nat (length bs), bs, s) \<and>
    bs = spec_read (unat count) (unat pos) (dev_abs s) \<and>
    bs = take (length bs) (drop (unat pos) (contents (dev_abs s))) \<and> length bs \<le> unat count \<and>
    (0 < unat count \<longrightarrow> unat pos < length (contents (dev_abs s)) \<longrightarrow> bs \<noteq> [])"
  using read_exact [OF assms refl, of count pos] length_spec_read spec_read_Nil_iff
    spec_read_prefix [of "unat count" "unat pos" "dev_abs s"]
  by (intro exI [of _ "spec_read (unat count) (unat pos) (dev_abs s)"]) auto

theorem aesd_read_delivers_witness:
  "\<exists>bs. aesd_read demo_kernel demo_file 2 1 demo_state =
      Some (of_nat (length bs), 1 + of_nat (length bs), bs, demo_state) \<and> bs = [105, 10]"
  using aesd_read_delivers [OF demo_state_inv, of demo_file demo_kernel 2 1]
  by (auto simp: demo_kernel_ok demo_state_abs contents_def demo_line_def spec_read_def)

section \<open>Errors of read and write\<close>

text \<open>
  C24: the error paths of the write and the read. A lock that is interrupted returns its error and
  changes nothing. A write without memory returns \<open>-ENOMEM\<close> and changes nothing; when user bytes are
  missing, its result is the positive number of bytes not copied and, although the block of the
  unfinished command has been replaced, the invariant holds and the device holds what it held. A
  read inside the contents whose copy to user space fails returns a positive number too, the bytes
  that were not copied, instead of an error, and does not move the position.
\<close>

theorem driver_error_paths:
  assumes "dev_inv B s" and "kernel_ok K" and "private_data f \<noteq> None" and "unat count \<le> MAX_RW_COUNT"
  shows "(lock_rc K \<noteq> 0 \<longrightarrow>
      aesd_write K f buf count s = Some (scast (lock_rc K), s) \<and>
      aesd_read K f count pos s = Some (scast (lock_rc K), pos, [], s)) \<and>
    (lock_rc K = 0 \<and> kmalloc K (kheap s) (entry_size (current_entry (aesd_device s)) + count) = None \<longrightarrow>
      aesd_write K f buf count s = Some (- ENOMEM, s)) \<and>
    (lock_rc K = 0 \<and> kmalloc K (kheap s) (entry_size (current_entry (aesd_device s)) + count) \<noteq> None \<and>
      snd (copy_from_user K buf count) \<noteq> 0 \<longrightarrow>
      (\<exists>s'. aesd_write K f buf count s = Some (snd (copy_from_user K buf count), s') \<and> dev_inv B s' \<and> dev_abs s' = dev_abs s)) \<and>
    (lock_rc K = 0 \<and> (\<forall>bs. bs \<noteq> [] \<longrightarrow> snd (copy_to_user K bs) \<noteq> 0) \<and>
      unat pos < length (contents (dev_abs s)) \<and> 0 < unat count \<longrightarrow>
      (\<exists>r landed. aesd_read K f count pos s = Some (r, pos, landed, s) \<and> 0 < sint r \<and> sint r \<le> int (unat count)))"
proof -
  have "lock_rc K \<noteq> 0 \<Longrightarrow> aesd_read K f count pos s = Some (scast (lock_rc K), pos, [], s)"
    using assms(1,3) by (auto simp: aesd_read_def dev_inv_def locking)
  then show ?thesis
    using write_interrupted [OF assms(1,3)] write_no_memory [OF assms(1,3)] write_copy_fault [OF assms(1-3) _ assms(4)]
      read_copy_fault [OF assms(1,3) _ assms(2)]
    by (simp del: not_None_eq)
qed

theorem driver_error_paths_witness:
  "(\<exists>s'. aesd_write faulty_kernel demo_file demo_line 3 idle_state = Some (3, s') \<and> dev_inv {} s' \<and> dev_abs s' = empty_log) \<and>
   (\<exists>r landed. aesd_read faulty_kernel demo_file 3 0 demo_state = Some (r, 0, landed, demo_state) \<and> 0 < sint r \<and> sint r \<le> 3)"
proof
  show "\<exists>s'. aesd_write faulty_kernel demo_file demo_line 3 idle_state = Some (3, s') \<and> dev_inv {} s' \<and> dev_abs s' = empty_log"
    using driver_error_paths [OF idle_state_inv faulty_kernel_ok, of demo_file 3 demo_line]
    by (simp add: MAX_RW_COUNT_def pool_empty idle_state_abs)
      (simp add: idle_state_def pool_empty zero_dev_def KMALLOC_MAX_SIZE_def faulty_kernel_def)
  show "\<exists>r landed. aesd_read faulty_kernel demo_file 3 0 demo_state = Some (r, 0, landed, demo_state) \<and> 0 < sint r \<and> sint r \<le> 3"
    using driver_error_paths [OF demo_state_inv faulty_kernel_ok, of demo_file 3 demo_line 0]
    by (simp add: MAX_RW_COUNT_def demo_state_abs contents_def) (simp add: faulty_kernel_def)
qed

section \<open>Seek\<close>

text \<open>
  C25: llseek sets the position to the offset counted from the start, the current position or the
  end of the contents, and refuses every other \<open>whence\<close> and every negative result with
  \<open>-EINVAL\<close> and an unchanged file, where the sum fits into the 64 bits of \<open>loff_t\<close>.
\<close>

theorem aesd_llseek_exact:
  assumes "dev_inv B s" and "private_data f \<noteq> None" and "lock_rc K = 0"
    and "\<And>b. seek_base (dev_abs s) (f_pos f) whence = Some b \<Longrightarrow>
      - (2 ^ 63) \<le> b + sint offset \<and> b + sint offset < 2 ^ 63"
  shows "aesd_llseek K f offset whence s =
    Some (case seek_base (dev_abs s) (f_pos f) whence of
            None \<Rightarrow> (- EINVAL, f, s)
          | Some b \<Rightarrow> let p = b + sint offset in
              if p < 0 then (- EINVAL, f, s) else (word_of_int p, f\<lparr>f_pos := word_of_int p\<rparr>, s))"
  by (rule llseek_result [OF assms])

theorem aesd_llseek_exact_witness:
  "aesd_llseek demo_kernel demo_file (- 1) SEEK_END demo_state = Some (2, demo_file\<lparr>f_pos := 2\<rparr>, demo_state)"
  using aesd_llseek_exact [OF demo_state_inv, of demo_file demo_kernel SEEK_END "- 1"]
  by (simp add: seek_base_def SEEK_END_def SEEK_SET_def SEEK_CUR_def demo_state_abs contents_def)

text \<open>
  C26: the ioctl moves the position to the given byte of the given command of the log, and
  refuses a command or a byte that does not exist, another request, a failed copy of the argument
  and an interrupted lock with \<open>-EINVAL\<close> and an unchanged file.
\<close>

theorem aesd_ioctl_seekto:
  assumes "dev_inv B s" and "private_data f \<noteq> None" and "kernel_ok K"
  shows "aesd_unlocked_ioctl K f cmd sk s =
    Some (if lock_rc K = 0 \<and> cmd = AESDCHAR_IOCSEEKTO \<and> snd (copy_seekto_from_user K sk) = 0 \<and>
             seek_ok (dev_abs s) sk
          then (of_nat (seek_pos (dev_abs s) sk), f\<lparr>f_pos := of_nat (seek_pos (dev_abs s) sk)\<rparr>, s)
          else (- EINVAL, f, s))"
proof (cases "lock_rc K = 0 \<and> cmd = AESDCHAR_IOCSEEKTO \<and> snd (copy_seekto_from_user K sk) = 0")
  case True
  then have "copy_seekto_from_user K sk = (sk, 0)"
    using assms(3) by (simp add: kernel_ok_def copy_ok_def prod_eq_iff)
  with True show ?thesis using ioctl_result [OF assms(1,2)] by simp
next
  case False
  then show ?thesis using ioctl_rejects [OF assms(1,2)] by auto
qed

theorem aesd_ioctl_seekto_witness:
  "aesd_unlocked_ioctl demo_kernel demo_file AESDCHAR_IOCSEEKTO \<lparr>write_cmd = 0, write_cmd_offset = 2\<rparr> demo_state =
   Some (2, demo_file\<lparr>f_pos := 2\<rparr>, demo_state)"
  using aesd_ioctl_seekto [OF demo_state_inv, of demo_file demo_kernel AESDCHAR_IOCSEEKTO]
  by (simp add: demo_kernel_ok seek_ok_def seek_pos_def demo_state_abs)

text \<open>
  After a successful ioctl a read through the file delivers the bytes of exactly the
  addressed command, from the addressed byte on and up to the count.
\<close>

lemma ioctl_then_read:
  assumes "dev_inv B s" and "private_data f \<noteq> None" and "kernel_ok K" and "lock_rc K = 0"
    and "\<And>bs. snd (copy_to_user K bs) = 0" and "snd (copy_seekto_from_user K sk) = 0"
    and "seek_ok (dev_abs s) sk"
    and "bs = take (unat count) (drop (unat (write_cmd_offset sk)) (lines (dev_abs s) ! unat (write_cmd sk)))"
  shows "\<exists>f' r pos. aesd_unlocked_ioctl K f AESDCHAR_IOCSEEKTO sk s = Some (r, f', s) \<and>
    aesd_read K f' count (f_pos f') s = Some (of_nat (length bs), pos, bs, s)"
proof -
  let ?L = "lines (dev_abs s)" and ?p = "seek_pos (dev_abs s) sk"
  let ?f = "f\<lparr>f_pos := of_nat ?p\<rparr>"
  have "copy_seekto_from_user K sk = (sk, 0)"
    using assms(3,6) by (simp add: kernel_ok_def copy_ok_def prod_eq_iff)
  then have seek: "aesd_unlocked_ioctl K f AESDCHAR_IOCSEEKTO sk s = Some (of_nat ?p, ?f, s)"
    using ioctl_result [OF assms(1,2,4)] assms(7) by simp
  have loc: "locate (map length ?L) ?p = Some (unat (write_cmd sk), unat (write_cmd_offset sk))"
    using seek_locates [OF assms(7)] .
  have inside: "?p < length (contents (dev_abs s))" by (rule seek_pos_inside [OF assms(7)])
  moreover have "length (contents (dev_abs s)) \<le> 10 * KMALLOC_MAX_SIZE"
    using contents_bound assms(1) by (auto simp: dev_inv_def)
  ultimately have u: "unat (of_nat ?p :: loff_t) = ?p"
    by (simp add: unat_of_nat_small KMALLOC_MAX_SIZE_def)
  have copy: "copy_to_user K bs = (bs, 0)"
    using assms(3,5) by (simp add: kernel_ok_def copy_ok_def prod_eq_iff)
  have "private_data ?f \<noteq> None" and "unat (of_nat ?p :: loff_t) < length (contents (dev_abs s))"
    using assms(2) inside u by simp_all
  then obtain k off where loc': "locate (map length ?L) (unat (of_nat ?p :: loff_t)) = Some (k, off)"
    and eq: "aesd_read K ?f count (of_nat ?p) s =
      (let src = take (unat count) (drop off (?L ! k));
           (landed, left) = copy_to_user K src; err = (ucast left :: c_int) in
       if err \<noteq> 0 then Some (scast err, of_nat ?p, landed, s)
       else Some (of_nat (length src), of_nat ?p + of_nat (length src), landed, s))"
    by (rule read_inside [OF assms(1) _ assms(4)])
  from loc' loc u have "k = unat (write_cmd sk)" and "off = unat (write_cmd_offset sk)" by simp_all
  with eq copy have "aesd_read K ?f count (of_nat ?p) s =
      Some (of_nat (length bs), of_nat ?p + of_nat (length bs), bs, s)"
    by (simp only: assms(8) [symmetric] Let_def) simp
  with seek show ?thesis by auto
qed

lemma ioctl_then_read_witness:
  "\<exists>f' r pos. aesd_unlocked_ioctl demo_kernel demo_file AESDCHAR_IOCSEEKTO
      \<lparr>write_cmd = 0, write_cmd_offset = 1\<rparr> demo_state = Some (r, f', demo_state) \<and>
    aesd_read demo_kernel f' 8 (f_pos f') demo_state = Some (2, pos, [105, 10], demo_state)"
  using ioctl_then_read [OF demo_state_inv, of demo_file demo_kernel "\<lparr>write_cmd = 0, write_cmd_offset = 1\<rparr>" "[105, 10]" 8]
  by (simp add: demo_kernel_ok seek_ok_def demo_state_abs) (simp add: demo_line_def)

section \<open>The circular buffer\<close>

text \<open>
  C15: the search by position, with its loop over an unsigned offset that wraps below zero,
  always ends and returns the array index and the byte offset that a search through the sizes of
  the entries in order finds, and the null pointer past the end.
\<close>

theorem find_entry_correct:
  assumes "cb_inv b"
  shows "aesd_circular_buffer_find_entry_offset_for_fpos b p =
    Some (map_option (\<lambda>(k, off). (of_nat ((unat (out_offs b) + k) mod 10), of_nat off))
           (locate (cb_sizes b) (unat p)))"
  by (rule find_entry_locate [OF assms])

theorem find_entry_correct_witness:
  "aesd_circular_buffer_find_entry_offset_for_fpos (circular_buffer (aesd_device demo_state)) 2 = Some (Some (0, 2))"
proof -
  have "cb_inv (circular_buffer (aesd_device demo_state))"
    using demo_state_inv by (simp add: dev_inv_def dev_wf_def Let_def)
  moreover have "cb_sizes (circular_buffer (aesd_device demo_state)) = [3]"
    using dev_lines_sizes [of "{}" demo_state] demo_state_inv by (simp add: dev_inv_def demo_state_abs)
  ultimately show ?thesis using find_entry_correct [of "circular_buffer (aesd_device demo_state)" 2]
    by (simp add: demo_state_def zero_dev_def aesd_circular_buffer_init_def)
qed

text \<open>
  C16: the insertion of an entry that holds a buffer stays inside the array, keeps the invariant
  of the buffer and appends the entry to the list of entries, of which the last ten are kept.
\<close>

theorem add_entry_refines:
  assumes "cb_inv b" and "buffptr e \<noteq> NULL"
  shows "\<exists>b'. aesd_circular_buffer_add_entry b e = Some b' \<and> cb_inv b' \<and>
    cb_entries b' = keep_last 10 (cb_entries b @ [e])"
  by (rule cb.add_spec [OF assms])

theorem add_entry_refines_witness:
  "\<exists>b'. aesd_circular_buffer_add_entry aesd_circular_buffer_init \<lparr>buffptr = Some 7, entry_size = 1\<rparr> = Some b' \<and>
    cb_inv b' \<and> cb_entries b' = [\<lparr>buffptr = Some 7, entry_size = 1\<rparr>]"
  using add_entry_refines [OF cb_inv_init, of "\<lparr>buffptr = Some 7, entry_size = 1\<rparr>"]
  by (simp add: cb_entries_init)

text \<open>
  After any number of insertions into an initialised buffer, its entries are the last ten
  that were inserted, in their order.
\<close>

lemma buffer_keeps_last_ten:
  assumes "list_all (\<lambda>e. buffptr e \<noteq> NULL) es"
  shows "\<exists>b. fold_option (\<lambda>e b. aesd_circular_buffer_add_entry b e) es aesd_circular_buffer_init = Some b \<and>
    cb_inv b \<and> cb_entries b = keep_last 10 es"
  by (rule cb.add_all_from_empty [OF assms])

lemma buffer_keeps_last_ten_witness:
  "\<exists>b. fold_option (\<lambda>e b. aesd_circular_buffer_add_entry b e)
      (map (\<lambda>i. \<lparr>buffptr = Some i, entry_size = 1\<rparr>) [0..<12]) aesd_circular_buffer_init = Some b \<and>
    cb_inv b \<and> cb_entries b = map (\<lambda>i. \<lparr>buffptr = Some i, entry_size = 1\<rparr>) [2..<12]"
  using buffer_keeps_last_ten [of "map (\<lambda>i. \<lparr>buffptr = Some i, entry_size = 1\<rparr>) [0..<12]"]
  by (simp add: list_all_iff keep_last_def drop_map numeral_2_eq_2 [symmetric])

section \<open>Module initialisation and removal\<close>

text \<open>
  C27: removal of the module frees exactly the blocks of the driver, each once: what remains is
  the heap of the rest of the kernel, unchanged. The device is removed and the region that was
  allocated for it, with minor number 0, is given back.
\<close>

theorem cleanup_releases_everything:
  assumes "dev_inv B s" and "chrdev_region s = Some dev" and "aesd_major s = MAJOR dev"
    and "take_bit 20 dev = 0"
  shows "\<exists>s'. aesd_cleanup_module s = Some s' \<and> kheap s' = kheap s |` B \<and> \<not> cdev_live s' \<and>
    chrdev_region s' = None"
  using cleanup_frees [OF assms(1), of dev] assms(2-4) by auto

theorem cleanup_releases_everything_witness:
  "\<exists>s'. aesd_cleanup_module demo_state = Some s' \<and> kheap s' = Map.empty \<and> chrdev_region s' = None"
  using cleanup_releases_everything [OF demo_state_inv, of "0x0F000000"]
  by (auto simp: demo_state_def idle_state_def MAJOR_def)

text \<open>
  C28: initialisation returns zero exactly when the kernel grants the device numbers and the
  device; then the device is empty and registered, and the invariant holds. Otherwise it returns
  an error and leaves nothing registered. No memory is allocated.
\<close>

theorem init_module_outcome:
  assumes "chrdev_region s = None" and "\<not> cdev_live s" and "aesd_init_module K s = (r, s')"
  shows "kheap s' = kheap s \<and>
    (if 0 \<le> sint (chrdev_rc K) \<and> cdev_add_rc K = 0
     then r = 0 \<and> dev_inv (dom (kheap s)) s' \<and> dev_abs s' = empty_log \<and> cdev_live s' \<and>
          chrdev_region s' = Some (chrdev_dev K)
     else r \<noteq> 0 \<and> chrdev_region s' = None \<and> \<not> cdev_live s')"
proof (cases "0 \<le> sint (chrdev_rc K) \<and> cdev_add_rc K = 0")
  case True
  with init_success [of K s] assms(3) dev_inv_zero [of s'] dev_abs_zero [of s'] show ?thesis by auto
next
  case False
  with init_failure [of K s] assms show ?thesis by auto
qed

theorem init_module_outcome_witness:
  "\<exists>s'. aesd_init_module demo_kernel (idle_state\<lparr>chrdev_region := None, cdev_live := False\<rparr>) = (0, s') \<and>
    dev_inv {} s' \<and> dev_abs s' = empty_log"
proof -
  let ?s = "idle_state\<lparr>chrdev_region := None, cdev_live := False\<rparr>"
  obtain r s' where i: "aesd_init_module demo_kernel ?s = (r, s')" by fastforce
  have "dom (kheap ?s) = {}" by (simp add: idle_state_def)
  with init_module_outcome [OF _ _ i] i show ?thesis by simp
qed

end
