(* ===== verification/Server_Properties.thy ===== *)
theory Server_Properties
  imports Session_Refinement Driver_Properties
begin

text \<open>
  The properties of the connection thread, on the driver and for any world, with an instance of
  each that has hypotheses at a concrete connection.
\<close>

section \<open>A concrete connection\<close>

definition demo_args :: connection_thread_args where
  "demo_args = \<lparr>file_mutex = 7, client_fd = 5, client_addr = \<lparr>sin_port = 9000, sin_addr = 0\<rparr>,
                client_len = 16, thread_complete_success = False, thread_complete = False\<rparr>"

definition demo_session :: "byte list \<Rightarrow> session" where
  "demo_session msg =
     \<lparr>machine = \<lparr>ks = demo_state, files = Map.empty\<rparr>, kern = demo_kernel, open_rc = 4,
      inbox = [Chunk msg], outbox = [], sends = [], sockets = {5}, mutex_held = False\<rparr>"

definition demo_buffer :: "byte list" where
  "demo_buffer = replicate BUFFER_SIZE 170"

lemma demo_session_sel [simp]:
  "machine (demo_session msg) = \<lparr>ks = demo_state, files = Map.empty\<rparr>" "kern (demo_session msg) = demo_kernel"
  "open_rc (demo_session msg) = 4" "inbox (demo_session msg) = [Chunk msg]" "outbox (demo_session msg) = []"
  "sends (demo_session msg) = []" "sockets (demo_session msg) = {5}" "\<not> mutex_held (demo_session msg)"
  by (simp_all add: demo_session_def)

text \<open>A client to whom everything gets through.\<close>

definition connected :: "c_int \<Rightarrow> session \<Rightarrow> bool" where
  "connected cl w \<longleftrightarrow> cl \<in> sockets w \<and> set (sends w) \<subseteq> {Send_all}"

lemma demo_connected [simp]: "client_fd demo_args = 5" "connected 5 (demo_session msg)"
  by (simp_all add: demo_args_def connected_def)

lemma demo_buffer_length [simp]: "length demo_buffer = BUFFER_SIZE"
  by (simp add: demo_buffer_def)

lemma demo_session_ready: "session_ready {} (demo_session msg)"
  by (simp add: session_ready_def demo_state_inv demo_kernel_ok)

lemma demo_kernel_up: "kernel_up demo_kernel"
  by (auto simp: kernel_up_def BUFFER_SIZE_def unat_of_nat_small)

lemma demo_has_memory: "length bs \<le> BUFFER_SIZE \<Longrightarrow> has_memory demo_kernel demo_state bs"
  by (simp add: has_memory_def pool_kmalloc_def demo_state_def idle_state_def zero_dev_def
      unat_of_nat_small BUFFER_SIZE_def KMALLOC_MAX_SIZE_def upt_conv_Cons)

lemma demo_line_plain [simp]: "58 \<notin> set demo_line" "demo_line \<noteq> []" "upto_newline demo_line = demo_line"
  "length demo_line < BUFFER_SIZE" "length demo_line \<le> BUFFER_SIZE"
  by (simp_all add: demo_line_def upto_newline_def BUFFER_SIZE_def)

section \<open>Serving a message\<close>

text \<open>A client that is there gets the reply.\<close>

lemma serve_connected:
  assumes "session_ready B w" and "kernel_up (kern w)" and "connected (client_fd args) w"
    and "length rb = BUFFER_SIZE" and "length sb = BUFFER_SIZE"
    and "inbox w = Chunk msg # es" and "msg \<noteq> []" and "length msg < BUFFER_SIZE"
    and "parse_seek no_seek (takeWhile (\<lambda>b. b \<noteq> 0) msg) = Some (rc, sk)"
    and "rc \<noteq> 0 \<Longrightarrow> has_memory (kern w) (ks (machine w)) (upto_newline msg)"
  shows "\<exists>res. connection_thread session_env rb sb args w = Some res \<and>
    served B args w (spec_serve msg (dev_abs (ks (machine w)))) res"
proof -
  have sock: "client_fd args \<in> sockets w" and all: "set (sends w) \<subseteq> {Send_all}"
    using assms(3) by (simp_all add: connected_def)
  have "serves B rb sb args w (spec_reply (sends w) (spec_chunk msg (dev_abs (ks (machine w))) 0))"
    by (rule serve_message [OF assms(1,2) sock assms(4-8)])
      (use assms(9,10) in \<open>simp add: is_write_def chunk_seek_short [OF assms(8)]\<close>)
  moreover have "spec_reply (sends w) (spec_chunk msg (dev_abs (ks (machine w))) 0) =
      Some (spec_serve msg (dev_abs (ks (machine w))))"
    using spec_serve_chunk [OF assms(8) _ all] assms(9) by simp
  ultimately show ?thesis by (simp add: serves_def)
qed

text \<open>A message without the character \<open>:\<close> is no seek command.\<close>

lemma parse_no_colon:
  assumes "58 \<notin> set msg"
  shows "parse_seek sk (takeWhile P msg) = Some (- 1, sk)"
proof -
  have "58 \<notin> set (takeWhile P msg)" using assms set_takeWhileD by fastforce
  then show ?thesis by (simp add: parse_seek_def seek_fields_def dropWhile_absent)
qed

text \<open>The allocator of the concrete kernel.\<close>

lemma length_ptrs: "length (ptrs es) \<le> length es"
  by (induction es) (auto split: option.split)

lemma owned_few:
  assumes "dev_inv {} s"
  shows "card (dom (kheap s)) \<le> 11" and "finite (dom (kheap s))"
proof -
  have dom: "dom (kheap s) = set (owned (aesd_device s))" and cb: "cb_inv (circular_buffer (aesd_device s))"
    using assms by (simp_all add: dev_inv_def dev_wf_def Let_def)
  then show "finite (dom (kheap s))" by simp
  from dom have "card (dom (kheap s)) \<le> length (owned (aesd_device s))" by (simp add: card_length)
  also have "\<dots> \<le> length (entry (circular_buffer (aesd_device s))) + 1"
    using length_ptrs [of "entry (circular_buffer (aesd_device s))"] by (simp add: owned_def split: option.split)
  also have "\<dots> = 11" using cb by (simp add: cb_inv_def)
  finally show "card (dom (kheap s)) \<le> 11" .
qed

lemma pool_has_block:
  assumes "card (dom h) \<le> 11" and "finite (dom h)"
  shows "\<exists>a. List.find (\<lambda>a. h a = None) [1..<32] = Some a"
proof (rule ccontr)
  assume "\<nexists>a. List.find (\<lambda>a. h a = None) [1..<32] = Some a"
  then have "List.find (\<lambda>a. h a = None) [1..<32] = None" by (simp add: option.exhaust_sel)
  then have "set [1..<32] \<subseteq> dom h" by (auto simp: find_None_iff)
  then have "card (set [1..<32 :: nat]) \<le> card (dom h)" using assms(2) by (rule card_mono [rotated])
  with assms(1) show False by simp
qed

lemma demo_memory_for:
  assumes "N \<le> KMALLOC_MAX_SIZE"
  shows "memory_for {} N demo_kernel"
proof -
  have "has_memory demo_kernel s bs"
    if inv: "dev_inv {} s" and len: "length (pending (dev_abs s)) + length bs \<le> N" for s bs
  proof -
    let ?e = "current_entry (aesd_device s)"
    have "pending_ok (kheap s) ?e" using inv by (simp add: dev_inv_def dev_wf_def Let_def)
    then have size: "unat (entry_size ?e) = length (pending (dev_abs s))"
      using pending_bytes(1) by (simp add: dev_abs_def)
    obtain a where a: "List.find (\<lambda>a. kheap s a = None) [1..<32] = Some a"
      using pool_has_block owned_few [OF inv] by blast
    have "unat (entry_size ?e + of_nat (length bs)) \<le> KMALLOC_MAX_SIZE"
    proof -
      have "unat (entry_size ?e) + length bs < 2 ^ 64" "length bs < 2 ^ 64"
        using len assms size by (simp_all add: KMALLOC_MAX_SIZE_def)
      then have "unat (entry_size ?e + of_nat (length bs)) = unat (entry_size ?e) + length bs"
        by (simp add: unat_simps)
      with len assms size show ?thesis by simp
    qed
    with a show ?thesis by (simp add: has_memory_def pool_kmalloc_def del: upt_Suc)
  qed
  then show ?thesis by (simp add: memory_for_def)
qed

text \<open>
  C7: a connection does exactly what its specification says, whatever arrives on the socket (messages of any
  length, cut up in any way, the end of the connection, an error, nothing at all) and whatever the
  socket takes of the reply, as long as the kernel's locks, copies and memory hold out. When the
  specification says that the message never ends or that the search for a seek command runs
  off the buffer or meets a field without a number, the thread does not return. Otherwise it returns, the device
  holds what the specification says, the client has received exactly the specified bytes, success is
  reported as specified, the mutex is free again and the descriptors of the device and of the
  client are closed.
\<close>

theorem connection_serves:
  assumes "session_ready B w" and "kernel_up (kern w)"
    and "length rb = BUFFER_SIZE" and "length sb = BUFFER_SIZE"
    and "memory_for B N (kern w)"
    and "length (pending (dev_abs (ks (machine w)))) + inbox_bytes (inbox w) \<le> N"
  shows "case spec_connection (arrivals (client_fd args) w) (answers (client_fd args) w) (dev_abs (ks (machine w))) of
      None \<Rightarrow> connection_thread session_env rb sb args w = None
    | Some y \<Rightarrow> \<exists>res. connection_thread session_env rb sb args w = Some res \<and> served B args w y res"
  using connection_exact [OF assms] by (simp add: serves_def)

text \<open>The first \<open>send\<close> takes one byte of three; the thread goes on and reports success.\<close>

theorem connection_serves_witness:
  "\<exists>args' w'. connection_thread session_env demo_buffer demo_buffer demo_args
      ((demo_session demo_line)\<lparr>sends := [Send_short 1]\<rparr>) = Some (args', w') \<and>
    outbox w' = 104 # demo_line \<and> thread_complete_success args'"
proof -
  let ?w = "(demo_session demo_line)\<lparr>sends := [Send_short 1]\<rparr>" and ?l = "\<lparr>lines = [demo_line, demo_line], pending = []\<rparr>"
  have "case spec_connection (arrivals (client_fd demo_args) ?w) (answers (client_fd demo_args) ?w) (dev_abs (ks (machine ?w))) of
      None \<Rightarrow> connection_thread session_env demo_buffer demo_buffer demo_args ?w = None
    | Some y \<Rightarrow> \<exists>res. connection_thread session_env demo_buffer demo_buffer demo_args ?w = Some res \<and>
        served {} demo_args ?w y res"
    by (rule connection_serves [where N = BUFFER_SIZE])
      (use demo_session_ready [of demo_line] demo_memory_for [of BUFFER_SIZE] in \<open>simp_all add: session_ready_def
        demo_kernel_up demo_state_abs demo_line_def BUFFER_SIZE_def KMALLOC_MAX_SIZE_def\<close>)
  moreover have "chunk_seek demo_line = Some (- 1, no_seek)" using chunk_seek_no_colon [of demo_line] demo_line_plain by simp
  then have "spec_chunk demo_line \<lparr>lines = [demo_line], pending = []\<rparr> 0 = Received ?l 0"
    by (simp add: spec_chunk_def spec_write_def) (simp add: demo_line_def)
  then have "spec_recv [Chunk demo_line] \<lparr>lines = [demo_line], pending = []\<rparr> 0 = Received ?l 0"
    using demo_line_plain by simp
  moreover have "reply_blocks ?l 0 = [demo_line, demo_line]"
    by (simp add: reply_blocks.simps spec_read_def demo_line_def BUFFER_SIZE_def Let_def)
  ultimately show ?thesis
    by (auto simp: spec_connection_def spec_reply_def arrivals_def answers_def demo_state_abs served_def demo_line_def)
qed

text \<open>
  C19: the connections that cannot be served: the client has closed the connection, the receive
  fails, the main thread has closed the socket, or the driver refuses the write of the first chunk
  for want of memory or because of a signal. The thread returns with its failure flag, the device holds what it held, nothing is sent, the mutex is
  free and both descriptors are closed.
\<close>

theorem connection_fails_cleanly:
  assumes "session_ready B w" and "length rb = BUFFER_SIZE"
    and "client_fd args \<notin> sockets w \<or> inbox w = Closed # es \<or> inbox w = Recv_error # es \<or>
      (\<exists>msg. inbox w = Chunk msg # es \<and> msg \<noteq> [] \<and> is_write (take BUFFER_SIZE msg) \<and>
        (lock_rc (kern w) = 0 \<and> \<not> has_memory (kern w) (ks (machine w)) (upto_newline (take BUFFER_SIZE msg)) \<or>
         - 4095 \<le> sint (lock_rc (kern w)) \<and> sint (lock_rc (kern w)) < 0))"
  shows "\<exists>res. connection_thread session_env rb sb args w = Some res \<and>
    served B args w (dev_abs (ks (machine w)), [], False) res"
proof -
  have "serves B rb sb args w (Some (dev_abs (ks (machine w)), [], False))"
    using assms(3)
  proof (elim disjE exE conjE)
    fix msg
    assume "inbox w = Chunk msg # es" "msg \<noteq> []" and wr: "is_write (take BUFFER_SIZE msg)"
    note refused = serve_refused [OF assms(1,2) this(1,2) refl wr]
    show "serves B rb sb args w (Some (dev_abs (ks (machine w)), [], False))"
      if "lock_rc (kern w) = 0" "\<not> has_memory (kern w) (ks (machine w)) (upto_newline (take BUFFER_SIZE msg))"
      using that by (intro refused) simp
    show "serves B rb sb args w (Some (dev_abs (ks (machine w)), [], False))"
      if "- 4095 \<le> sint (lock_rc (kern w))" "sint (lock_rc (kern w)) < 0"
      using that by (intro refused) simp
  qed (use serve_no_message [OF assms(1,2)] in blast)+
  then show ?thesis by (simp add: serves_def)
qed

theorem connection_fails_cleanly_witness:
  "\<exists>res. connection_thread session_env demo_buffer demo_buffer demo_args ((demo_session [])\<lparr>inbox := [Closed]\<rparr>) = Some res \<and>
    served {} demo_args ((demo_session [])\<lparr>inbox := [Closed]\<rparr>) (\<lparr>lines = [demo_line], pending = []\<rparr>, [], False) res"
proof -
  let ?w = "(demo_session [])\<lparr>inbox := [Closed]\<rparr>"
  have "session_ready {} ?w"
    using demo_session_ready [of "[]"] by (simp add: session_ready_def)
  then have "\<exists>res. connection_thread session_env demo_buffer demo_buffer demo_args ?w = Some res \<and>
    served {} demo_args ?w (dev_abs (ks (machine ?w)), [], False) res"
    by (rule connection_fails_cleanly [where es = "[]"]) simp_all
  then show ?thesis by (simp add: demo_state_abs)
qed

text \<open>
  A line that a client sends is appended to the log, of which the last ten lines are kept,
  and the client receives the whole log, at whose end its own line stands.
\<close>

lemma line_is_echoed:
  assumes "session_ready B w" and "kernel_up (kern w)" and "connected (client_fd args) w"
    and "length rb = BUFFER_SIZE" and "length sb = BUFFER_SIZE"
    and "inbox w = Chunk (line @ [newline]) # es" and "length line < BUFFER_SIZE - 1"
    and "newline \<notin> set line" and "58 \<notin> set line"
    and "pending (dev_abs (ks (machine w))) = []"
    and "has_memory (kern w) (ks (machine w)) (line @ [newline])"
  shows "\<exists>args' w' ls. connection_thread session_env rb sb args w = Some (args', w') \<and>
    dev_abs (ks (machine w')) = \<lparr>lines = ls @ [line @ [newline]], pending = []\<rparr> \<and>
    ls = keep_last 9 (lines (dev_abs (ks (machine w)))) \<and>
    outbox w' = outbox w @ concat ls @ line @ [newline] \<and> thread_complete_success args'"
proof -
  let ?msg = "line @ [newline]" and ?l = "dev_abs (ks (machine w))"
  have upto: "upto_newline ?msg = ?msg" using upto_newline_first [OF assms(8), of "[]"] .
  have colon: "58 \<notin> set ?msg" using assms(9) by simp
  have "\<exists>res. connection_thread session_env rb sb args w = Some res \<and> served B args w (spec_serve ?msg ?l) res"
    by (rule serve_connected [OF assms(1-6)])
      (use assms(7,11) upto parse_no_colon [OF colon] in auto)
  then obtain args' w' where th: "connection_thread session_env rb sb args w = Some (args', w')"
    and sv: "served B args w (spec_serve ?msg ?l) (args', w')" by auto
  have keep: "keep_last 10 (lines ?l @ [?msg]) = keep_last 9 (lines ?l) @ [?msg]"
    by (auto simp: keep_last_def)
  have "spec_serve ?msg ?l = (let l' = \<lparr>lines = keep_last 9 (lines ?l) @ [?msg], pending = []\<rparr> in (l', contents l', True))"
    using assms(10) parse_no_colon [OF colon, of no_seek "\<lambda>b. b \<noteq> 0"] upto
    by (simp add: spec_serve_def spec_write_def keep)
  with th sv show ?thesis by (auto simp: served_def contents_def)
qed

text \<open>
  What follows the first newline of a received chunk is lost: the connection has the same
  effect on the device and gives the same reply as if the message had ended there.
\<close>

lemma after_newline_dropped:
  assumes "session_ready B w" and "kernel_up (kern w)" and "connected (client_fd args) w"
    and "length rb = BUFFER_SIZE" and "length sb = BUFFER_SIZE"
    and "inbox w = Chunk (line @ newline # tail) # es" and "length (line @ newline # tail) < BUFFER_SIZE"
    and "newline \<notin> set line" and "58 \<notin> set (line @ newline # tail)"
    and "has_memory (kern w) (ks (machine w)) (line @ [newline])"
  shows "\<exists>res. connection_thread session_env rb sb args w = Some res \<and>
    served B args w (spec_serve (line @ [newline]) (dev_abs (ks (machine w)))) res"
proof -
  let ?msg = "line @ newline # tail" and ?l = "dev_abs (ks (machine w))"
  have upto: "upto_newline ?msg = line @ [newline]" "upto_newline (line @ [newline]) = line @ [newline]"
    using upto_newline_first [OF assms(8)] by blast+
  have colon: "58 \<notin> set (line @ [newline])" using assms(9) by simp
  have "\<exists>res. connection_thread session_env rb sb args w = Some res \<and> served B args w (spec_serve ?msg ?l) res"
    by (rule serve_connected [OF assms(1-6)])
      (use assms(7,10) upto parse_no_colon [OF assms(9)] in auto)
  moreover have "spec_serve ?msg ?l = spec_serve (line @ [newline]) ?l"
    using upto parse_no_colon [OF assms(9), of no_seek "\<lambda>b. b \<noteq> 0"]
      parse_no_colon [OF colon, of no_seek "\<lambda>b. b \<noteq> 0"]
    by (simp add: spec_serve_def)
  ultimately show ?thesis by simp
qed

lemma after_newline_dropped_witness:
  "\<exists>res. connection_thread session_env demo_buffer demo_buffer demo_args (demo_session [97, 10, 98, 10]) = Some res \<and>
    served {} demo_args (demo_session [97, 10, 98, 10]) (spec_serve [97, 10] \<lparr>lines = [demo_line], pending = []\<rparr>) res"
proof -
  have "\<exists>res. connection_thread session_env demo_buffer demo_buffer demo_args (demo_session [97, 10, 98, 10]) = Some res \<and>
    served {} demo_args (demo_session [97, 10, 98, 10])
      (spec_serve ([97] @ [newline]) (dev_abs (ks (machine (demo_session [97, 10, 98, 10]))))) res"
    by (rule after_newline_dropped [OF demo_session_ready, where tail = "[98, 10]" and es = "[]"])
      (simp_all add: demo_kernel_up demo_has_memory BUFFER_SIZE_def)
  then show ?thesis by (simp add: demo_state_abs)
qed

section \<open>Seek commands\<close>

text \<open>
  C13: a client that sends the seek command with the decimal numbers of a command and of a byte in
  it, both of at most nine digits, and whose socket takes whole what is sent to it receives, when the kernel's
  locks and copies hold out, the contents of the device from that byte on; a seek to a command or byte that is not
  there ends the connection without a reply. The device is not changed either way.
\<close>

theorem seek_command_served:
  assumes "session_ready B w" and "kernel_up (kern w)" and "connected (client_fd args) w"
    and "length rb = BUFFER_SIZE" and "length sb = BUFFER_SIZE"
    and "inbox w = Chunk (seek_message x y) # es" and "x < 10 ^ 9" and "y < 10 ^ 9"
    and "l = dev_abs (ks (machine w))"
  shows "\<exists>args' w'. connection_thread session_env rb sb args w = Some (args', w') \<and>
    dev_abs (ks (machine w')) = l \<and>
    (if x < length (lines l) \<and> y < length (lines l ! x)
     then thread_complete_success args' \<and>
       outbox w' = outbox w @ drop y (lines l ! x) @ concat (drop (Suc x) (lines l))
     else \<not> thread_complete_success args' \<and> outbox w' = outbox w)"
proof -
  let ?sk = "\<lparr>write_cmd = of_nat x, write_cmd_offset = of_nat y\<rparr>"
  have tw: "takeWhile (\<lambda>b. b \<noteq> 0) (seek_message x y) = seek_message x y"
    using zero_notin_seek_message [of x y] by (subst takeWhile_eq_all_conv) auto
  have parse: "parse_seek no_seek (takeWhile (\<lambda>b. b \<noteq> 0) (seek_message x y)) = Some (0, ?sk)"
    unfolding tw using parse_seek_message [OF assms(7,8), of no_seek] by (simp add: no_seek_def)
  have ne: "seek_message x y \<noteq> []" using seek_message_newline [of x y] by auto
  have len: "length (seek_message x y) < BUFFER_SIZE"
    using length_seek_message [OF assms(7,8)] by (simp add: BUFFER_SIZE_def)
  obtain args' w' where th: "connection_thread session_env rb sb args w = Some (args', w')"
    and sv: "served B args w (spec_serve (seek_message x y) l) (args', w')"
    using serve_connected [OF assms(1-6) ne len parse] assms(9) by auto
  have u: "unat (of_nat x :: uint32_t) = x" "unat (of_nat y :: uint32_t) = y"
    using assms(7,8) by (simp_all add: unat_of_nat_small)
  have reply: "drop (seek_pos l ?sk) (contents l) = drop y (lines l ! x) @ concat (drop (Suc x) (lines l))"
    if "x < length (lines l)" "y < length (lines l ! x)"
    using that drop_concat [of x "lines l"] Cons_nth_drop_Suc [OF that(1)]
    by (simp add: seek_pos_def u contents_def drop_drop [symmetric] add.commute [of _ y] del: drop_drop)
      (metis concat.simps(2) drop_append less_imp_le_nat diff_is_0_eq' drop0)
  have ok: "seek_ok l ?sk \<longleftrightarrow> x < length (lines l) \<and> y < length (lines l ! x)" by (simp add: seek_ok_def u)
  show ?thesis
  proof (cases "seek_ok l ?sk")
    case True
    then have "spec_serve (seek_message x y) l = (l, drop (seek_pos l ?sk) (contents l), True)"
      using parse by (simp add: spec_serve_def)
    with th sv True reply ok show ?thesis by (simp add: served_def)
  next
    case False
    then have "spec_serve (seek_message x y) l = (l, [], False)" using parse by (simp add: spec_serve_def)
    with th sv have "dev_abs (ks (machine w')) = l" "\<not> thread_complete_success args'" "outbox w' = outbox w"
      by (simp_all add: served_def)
    with th False ok show ?thesis by auto
  qed
qed

theorem seek_command_served_witness:
  "\<exists>args' w'. connection_thread session_env demo_buffer demo_buffer demo_args (demo_session (seek_message 0 1)) = Some (args', w') \<and>
    outbox w' = [105, 10]"
proof -
  let ?w = "demo_session (seek_message 0 1)"
  have "\<exists>args' w'. connection_thread session_env demo_buffer demo_buffer demo_args ?w = Some (args', w') \<and>
    dev_abs (ks (machine w')) = \<lparr>lines = [demo_line], pending = []\<rparr> \<and>
    (if 0 < length (lines \<lparr>lines = [demo_line], pending = []\<rparr>) \<and> 1 < length (lines \<lparr>lines = [demo_line], pending = []\<rparr> ! 0)
     then thread_complete_success args' \<and>
       outbox w' = outbox ?w @ drop 1 (lines \<lparr>lines = [demo_line], pending = []\<rparr> ! 0) @
         concat (drop (Suc 0) (lines \<lparr>lines = [demo_line], pending = []\<rparr>))
     else \<not> thread_complete_success args' \<and> outbox w' = outbox ?w)"
    by (rule seek_command_served [OF demo_session_ready, where es = "[]"])
      (simp_all add: demo_kernel_up demo_state_abs)
  then show ?thesis by (auto simp: demo_line_def)
qed

text \<open>
  C20: on every array of bytes the recogniser of seek commands agrees with the reference that cuts
  the string in it at its first \<open>:\<close>, the next \<open>,\<close> and the next newline. With the three marks it
  returns 0 and the numbers of the two fields, and is undefined exactly when one of the fields has
  no number. Without one of them it returns -1 and leaves the structure alone if the array
  has a terminator, and reads past the end of the array if it has none. In particular it does not
  look at what stands before the \<open>:\<close>, nor at the number of bytes received.
\<close>

theorem check_for_ioctl_command_exact:
  "check_for_ioctl_command sk buf n =
    (case seek_fields (takeWhile (\<lambda>b. b \<noteq> 0) buf) of
       None \<Rightarrow> if 0 \<in> set buf then Some (- 1, sk) else None
     | Some (f, g) \<Rightarrow>
         (case (field_number f, field_number g) of
            (Some c, Some off) \<Rightarrow> Some (0, sk\<lparr>write_cmd := c, write_cmd_offset := off\<rparr>)
          | _ \<Rightarrow> None))"
  unfolding check_scan scan_seek_def parse_seek_def Let_def
  by (auto split: option.split bind_split)

text \<open>
  C29: the arrays of ten bytes for the numbers. Fields of at most nine bytes are converted without
  a read or a write outside them and without overflow; a field of more than ten bytes is written
  past the end of its array, and ten digits leave no room for the terminator that the conversion
  needs.
\<close>

theorem seek_field_lengths:
  assumes "0 \<notin> set str" and "seek_fields str = Some (f, g)"
  shows "(length f \<le> 9 \<and> length g \<le> 9 \<longrightarrow>
      (\<exists>c off. check_for_ioctl_command sk (str @ 0 # rest) n =
         Some (0, sk\<lparr>write_cmd := c, write_cmd_offset := off\<rparr>))) \<and>
    (10 < length f \<or> 10 < length g \<or> length f = 10 \<and> (\<forall>b \<in> set f. isdigit b) \<longrightarrow>
      check_for_ioctl_command sk (str @ 0 # rest) n = None)"
  unfolding check_terminated [OF assms(1)] parse_seek_def assms(2)
  using field_number_short [of f] field_number_short [of g]
  by (auto simp: field_number_long field_number_ten_digits split: bind_split)

theorem seek_field_lengths_witness:
  "check_for_ioctl_command no_seek ([58, 49, 49, 49, 49, 49, 49, 49, 49, 49, 49, 49, 44, 50, 10] @ 0 # []) 15 = None"
proof -
  have "seek_fields [58, 49, 49, 49, 49, 49, 49, 49, 49, 49, 49, 49, 44, 50, 10] =
      Some ([49, 49, 49, 49, 49, 49, 49, 49, 49, 49, 49], [50])"
    by (simp add: seek_fields_def)
  then show ?thesis
    using seek_field_lengths [of "[58, 49, 49, 49, 49, 49, 49, 49, 49, 49, 49, 49, 44, 50, 10]"
        "[49, 49, 49, 49, 49, 49, 49, 49, 49, 49, 49]" "[50]" no_seek "[]" 15]
    by simp
qed

section \<open>Limits\<close>

text \<open>
  A chunk that fills the receive buffer leaves no terminator; when none of its bytes is zero
  and one of the three marks of a seek command is missing, as in any long line of text, the
  search for a seek command reads past the end of the buffer.
\<close>

lemma full_chunk_undefined:
  assumes "session_ready B w" and "length rb = BUFFER_SIZE"
    and "client_fd args \<in> sockets w" and "inbox w = Chunk msg # es"
    and "BUFFER_SIZE \<le> length msg" and "0 \<notin> set (take BUFFER_SIZE msg)"
    and "seek_fields (take BUFFER_SIZE msg) = None"
  shows "connection_thread session_env rb sb args w = None"
proof (rule serve_undefined [OF assms(1-4)])
  have "padded (take BUFFER_SIZE msg) = take BUFFER_SIZE msg" using assms(5) by (simp add: padded_def)
  then show "chunk_seek (take BUFFER_SIZE msg) = None"
    using assms(6,7) by (simp add: chunk_seek_def scan_seek_def takeWhile_absent)
qed (use assms(5) in \<open>auto simp: BUFFER_SIZE_def\<close>)

lemma full_chunk_undefined_demo:
  "connection_thread session_env demo_buffer demo_buffer demo_args (demo_session (replicate 1024 97)) = None"
  by (rule full_chunk_undefined [where msg = "replicate 1024 97" and es = "[]", OF demo_session_ready])
    (simp_all add: BUFFER_SIZE_def seek_fields_def)

text \<open>
  C30: however a connection thread ends, whatever arrives, is sent, fails or is refused on the way, it does not hold
  the mutex. If the device could be opened the thread is marked complete, with the success flag the only other field of its
  arguments that may have changed, and of the descriptors that were open it has closed the client's and no other, and the device
  is closed again; if the device could not be opened, nothing is closed, the client's socket included, and the
  thread stays marked incomplete.
\<close>

theorem connection_releases:
  assumes "connection_thread session_env rb sb args w = Some (args', w')"
  shows "\<not> mutex_held w' \<and>
    (if sint (open_rc w) < 0
     then args' = args\<lparr>thread_complete := False\<rparr> \<and> open_fds w' = open_fds w
     else args' = args\<lparr>thread_complete_success := thread_complete_success args', thread_complete := True\<rparr> \<and>
       open_fds w' = open_fds w - {client_fd args})"
proof -
  obtain w1 fd w2 where r: "lock_mutex session_env (file_mutex args) w = Some w1" "session_open w1 = Some (fd, w2)"
    "\<not> mutex_held w'"
    "if sint fd < 0 then args' = args\<lparr>thread_complete := False\<rparr> \<and> open_fds w' = open_fds w
     else args' = args\<lparr>thread_complete_success := thread_complete_success args', thread_complete := True\<rparr> \<and>
       open_fds w' = open_fds w - {client_fd args}"
    using ses.thread_releases [OF assms] by auto
  have "open_rc w1 = open_rc w" using r(1) by (auto simp: lock_mutex_def session_lock_def split: if_split_asm)
  then have "fd = open_rc w" using r(2) by (auto simp: session_open_def aesd_open_def Let_def split: if_split_asm)
  with r(3,4) show ?thesis by simp
qed

text \<open>The client has closed the connection; and the device cannot be opened.\<close>

theorem connection_releases_witness:
  "(\<exists>args' w'. connection_thread session_env demo_buffer demo_buffer demo_args ((demo_session [])\<lparr>inbox := [Closed]\<rparr>) =
      Some (args', w') \<and> \<not> mutex_held w' \<and> thread_complete args' \<and> open_fds w' = {}) \<and>
   (\<exists>args' w'. connection_thread session_env demo_buffer demo_buffer demo_args ((demo_session [])\<lparr>open_rc := - 1\<rparr>) =
      Some (args', w') \<and> \<not> mutex_held w' \<and> \<not> thread_complete args' \<and> open_fds w' = {5})"
proof
  let ?w = "(demo_session [])\<lparr>inbox := [Closed]\<rparr>"
  have "session_ready {} ?w" using demo_session_ready [of "[]"] by (simp add: session_ready_def)
  then have "serves {} demo_buffer demo_buffer demo_args ?w (Some (dev_abs (ks (machine ?w)), [], False))"
    by (rule serve_no_message) simp_all
  then obtain args' w' where th: "connection_thread session_env demo_buffer demo_buffer demo_args ?w = Some (args', w')"
    by (auto simp: serves_def)
  have fds: "open_fds ?w = {5}" by (simp add: open_fds_def)
  have rel: "\<not> mutex_held w'" "args' = demo_args\<lparr>thread_complete_success := thread_complete_success args', thread_complete := True\<rparr>"
    "open_fds w' = open_fds ?w - {client_fd demo_args}"
    using connection_releases [OF th] by simp_all
  moreover have "thread_complete args'" by (subst rel(2)) simp
  ultimately show "\<exists>args' w'. connection_thread session_env demo_buffer demo_buffer demo_args ?w = Some (args', w') \<and>
      \<not> mutex_held w' \<and> thread_complete args' \<and> open_fds w' = {}"
    using th fds by (intro exI [of _ args'] exI [of _ w']) simp
next
  let ?w = "(demo_session [])\<lparr>open_rc := - 1\<rparr>"
  have th: "connection_thread session_env demo_buffer demo_buffer demo_args ?w =
      Some (demo_args\<lparr>thread_complete := False\<rparr>, ?w)"
    by (rule serve_open_fails) simp_all
  have "\<not> mutex_held ?w \<and> \<not> thread_complete (demo_args\<lparr>thread_complete := False\<rparr>) \<and> open_fds ?w = {5}"
    using connection_releases [OF th] by (simp add: open_fds_def)
  with th show "\<exists>args' w'. connection_thread session_env demo_buffer demo_buffer demo_args ?w = Some (args', w') \<and>
      \<not> mutex_held w' \<and> \<not> thread_complete args' \<and> open_fds w' = {5}" by blast
qed

end
