(* ===== verification/Server_Sequence.thy ===== *)
theory Server_Sequence
  imports Server_Properties
begin

text \<open>
  Many connections. The mutex that every connection thread holds from before it opens the device
  until after it has closed it lets the threads work one after the other; what a sequence of
  connections does is the composition of what each does, over the same driver.
\<close>

section \<open>One connection after the other\<close>

text \<open>What arrives of a client and what its socket takes.\<close>

type_synonym visit = "recv_event list \<times> send_event list"

text \<open>A new client has received nothing yet.\<close>

definition new_client :: "connection_thread_args \<Rightarrow> visit \<Rightarrow> session \<Rightarrow> session" where
  "new_client args v w =
     w\<lparr>inbox := fst v, outbox := [], sends := snd v, sockets := insert (client_fd args) (sockets w)\<rparr>"

definition serve_one ::
    "byte list \<Rightarrow> byte list \<Rightarrow> connection_thread_args \<Rightarrow> visit \<Rightarrow> session \<Rightarrow> (byte list \<times> session) option" where
  "serve_one rb sb args v w =
     do { (args', w') \<leftarrow> connection_thread session_env rb sb args (new_client args v w);
          Some (outbox w', w') }"

fun serve_all ::
    "byte list \<Rightarrow> byte list \<Rightarrow> (connection_thread_args \<times> visit) list \<Rightarrow> session \<Rightarrow>
     (byte list list \<times> session) option" where
  "serve_all rb sb [] w = Some ([], w)"
| "serve_all rb sb ((args, v) # cs) w =
     do { (r, w) \<leftarrow> serve_one rb sb args v w;
          (rs, w) \<leftarrow> serve_all rb sb cs w;
          Some (r # rs, w) }"

text \<open>The specification: one connection after the other on the log.\<close>

fun spec_all :: "visit list \<Rightarrow> alog \<Rightarrow> (byte list list \<times> alog) option" where
  "spec_all [] l = Some ([], l)"
| "spec_all (v # vs) l =
     do { (l, r, ok) \<leftarrow> spec_connection (fst v) (snd v) l;
          (rs, l) \<leftarrow> spec_all vs l;
          Some (r # rs, l) }"

text \<open>No command gets longer than \<open>N\<close> bytes.\<close>

fun fits :: "nat \<Rightarrow> visit list \<Rightarrow> alog \<Rightarrow> bool" where
  "fits N [] l = True"
| "fits N (v # vs) l =
     (length (pending l) + inbox_bytes (fst v) \<le> N \<and>
      (case spec_connection (fst v) (snd v) l of None \<Rightarrow> True | Some (l', r) \<Rightarrow> fits N vs l'))"

definition up :: "addr set \<Rightarrow> nat \<Rightarrow> session \<Rightarrow> bool" where
  "up B N w \<longleftrightarrow> session_ready B w \<and> kernel_up (kern w) \<and> memory_for B N (kern w)"

section \<open>What a connection keeps\<close>

lemma session_calls: "calls_keep session_env (\<lambda>w. (kern w, open_rc w))"
proof -
  have "transfers_keep session_env (\<lambda>w. (kern w, open_rc w))"
    unfolding transfers_keep_def transfers_in_def session_env_sel
    by (auto simp: session_recv_def session_send_def session_read_def session_write_def session_ioctl_def
        bind_eq_Some_conv Let_def split: list.split_asm recv_event.split_asm option.split_asm if_split_asm)
  then show ?thesis
    unfolding calls_keep_def calls_in_def transfers_keep_def session_env_sel
    by (auto simp: session_lock_def session_unlock_def session_open_def session_close_def
        bind_eq_Some_conv Let_def split: option.split_asm if_split_asm prod.split_asm)
qed

lemma ready_iff:
  "session_ready B w \<longleftrightarrow>
     dev_inv B (ks (machine w)) \<and> \<not> mutex_held w \<and> 0 \<le> sint (open_rc w) \<and> open_rc w \<notin> open_fds w \<and>
     kernel_ok (kern w)"
  by (auto simp: session_ready_def open_fds_def)

lemma serve_one_exact:
  assumes up: "up B N w" and bufs: "length rb = BUFFER_SIZE" "length sb = BUFFER_SIZE"
    and fd: "client_fd args \<noteq> open_rc w"
    and N: "length (pending (dev_abs (ks (machine w)))) + inbox_bytes (fst v) \<le> N"
  shows "case spec_connection (fst v) (snd v) (dev_abs (ks (machine w))) of
      None \<Rightarrow> serve_one rb sb args v w = None
    | Some (l, r, ok) \<Rightarrow> \<exists>w'. serve_one rb sb args v w = Some (r, w') \<and> up B N w' \<and> open_rc w' = open_rc w \<and>
        dev_abs (ks (machine w')) = l"
proof -
  let ?w = "new_client args v w" and ?l = "dev_abs (ks (machine w))"
  have sel: "kern ?w = kern w" "machine ?w = machine w" "open_rc ?w = open_rc w" "outbox ?w = []" "inbox ?w = fst v"
    "mutex_held ?w = mutex_held w" "open_fds ?w = insert (client_fd args) (open_fds w)"
    "arrivals (client_fd args) ?w = fst v" "answers (client_fd args) ?w = snd v"
    by (simp_all add: new_client_def open_fds_def arrivals_def answers_def)
  have ready: "session_ready B ?w"
    using up fd unfolding up_def ready_iff by (simp add: sel)
  have ex: "serves B rb sb args ?w (spec_connection (fst v) (snd v) ?l)"
    using connection_exact [OF ready _ bufs, of N args] up N unfolding sel by (simp add: up_def)
  show ?thesis
  proof (cases "spec_connection (fst v) (snd v) ?l")
    case None
    with ex show ?thesis by (simp add: serves_def serve_one_def)
  next
    case (Some y)
    obtain l r ok where y: "y = (l, r, ok)" by (cases y)
    with Some ex obtain args' w' where th: "connection_thread session_env rb sb args ?w = Some (args', w')"
      and sv: "served B args ?w (l, r, ok) (args', w')" by (auto simp: serves_def)
    have keep: "kern w' = kern w" "open_rc w' = open_rc w" using thread_frame [OF session_calls th] sel by simp_all
    have w': "dev_abs (ks (machine w')) = l" "outbox w' = r" using sv sel(4) by (simp_all add: served_def)
    have "up B N w'" using up sv keep unfolding up_def ready_iff by (simp add: served_def sel)
    with Some y th w' keep show ?thesis by (simp add: serve_one_def)
  qed
qed

lemma serve_all_exact:
  assumes "up B N w" and bufs: "length rb = BUFFER_SIZE" "length sb = BUFFER_SIZE"
    and "\<forall>(args, v) \<in> set cs. client_fd args \<noteq> open_rc w" and "fits N (map snd cs) (dev_abs (ks (machine w)))"
  shows "case spec_all (map snd cs) (dev_abs (ks (machine w))) of
      None \<Rightarrow> serve_all rb sb cs w = None
    | Some (rs, l) \<Rightarrow> \<exists>w'. serve_all rb sb cs w = Some (rs, w') \<and> up B N w' \<and> dev_abs (ks (machine w')) = l"
  using assms(1,4,5)
proof (induction cs arbitrary: w)
  case (Cons c cs)
  obtain args v where c: "c = (args, v)" by (cases c)
  note one = serve_one_exact [OF Cons.prems(1) bufs, of args v]
  show ?case
  proof (cases "spec_connection (fst v) (snd v) (dev_abs (ks (machine w)))")
    case None
    with one Cons.prems(2,3) c show ?thesis by simp
  next
    case (Some y)
    obtain l r ok where y: "y = (l, r, ok)" by (cases y)
    with Some one Cons.prems(2,3) c obtain w1 where w1: "serve_one rb sb args v w = Some (r, w1)" "up B N w1"
      "open_rc w1 = open_rc w" "dev_abs (ks (machine w1)) = l" by auto
    from Cons.IH [OF w1(2)] w1(3,4) Cons.prems(2,3) Some y c
    have "case spec_all (map snd cs) l of
        None \<Rightarrow> serve_all rb sb cs w1 = None
      | Some (rs, l') \<Rightarrow> \<exists>w'. serve_all rb sb cs w1 = Some (rs, w') \<and> up B N w' \<and> dev_abs (ks (machine w')) = l'"
      by simp
    with w1(1) Some y c show ?thesis by (auto split: option.split_asm)
  qed
qed simp

section \<open>Clients that send a line each\<close>

text \<open>A line that fits the buffer, ends in its only newline and is no seek command.\<close>

definition plain_line :: "byte list \<Rightarrow> bool" where
  "plain_line msg \<longleftrightarrow>
     msg \<noteq> [] \<and> last msg = newline \<and> newline \<notin> set (butlast msg) \<and> 58 \<notin> set msg \<and> length msg < BUFFER_SIZE"

lemma spec_line:
  assumes "plain_line msg" and "pending l = []"
  shows "spec_connection [Chunk msg] [] l =
    (let l' = \<lparr>lines = keep_last 10 (lines l @ [msg]), pending = []\<rparr> in Some (l', contents l', True))"
proof -
  obtain line where line: "msg = line @ [newline]" "newline \<notin> set line" "58 \<notin> set msg" "length msg < BUFFER_SIZE"
    using assms(1) unfolding plain_line_def by (metis append_butlast_last_id)
  have upto: "upto_newline msg = msg" using upto_newline_first [OF line(2), of "[]"] line(1) by simp
  let ?l = "\<lparr>lines = keep_last 10 (lines l @ [msg]), pending = []\<rparr>"
  have "spec_chunk msg l 0 = Received ?l 0"
    using chunk_seek_no_colon [OF line(3)] line(1,4) assms(2) upto by (simp add: spec_chunk_def spec_write_def Let_def)
  then have "spec_recv [Chunk msg] l 0 = Received ?l 0" using line(1,4) by simp
  then show ?thesis
    by (simp add: spec_connection_def spec_reply_def spec_send_all concat_reply_blocks Let_def)
qed

lemma fits_lines:
  assumes "\<forall>msg \<in> set msgs. plain_line msg" and "pending l = []"
  shows "fits BUFFER_SIZE (map (\<lambda>msg. ([Chunk msg], [])) msgs) l"
  using assms
proof (induction msgs arbitrary: l)
  case (Cons msg msgs)
  then show ?case by (simp add: spec_line Let_def plain_line_def)
qed simp

lemma spec_all_lines:
  assumes "\<forall>msg \<in> set msgs. plain_line msg" and "pending l = []" and "length (lines l) \<le> 10"
  shows "spec_all (map (\<lambda>msg. ([Chunk msg], [])) msgs) l =
    Some (map (\<lambda>k. concat (keep_last 10 (lines l @ take (Suc k) msgs))) [0..<length msgs],
          \<lparr>lines = keep_last 10 (lines l @ msgs), pending = []\<rparr>)"
  using assms
proof (induction msgs arbitrary: l)
  case Nil
  then show ?case by (auto intro: alog.equality)
next
  case (Cons msg msgs)
  let ?l = "\<lparr>lines = keep_last 10 (lines l @ [msg]), pending = []\<rparr>"
  have step: "keep_last 10 (keep_last 10 (lines l @ [msg]) @ ys) = keep_last 10 (lines l @ msg # ys)" for ys
    using keep_last_append [of 10 "lines l @ [msg]" ys] by simp
  have up0: "[0..<length (msg # msgs)] = 0 # map Suc [0..<length msgs]"
    by (simp add: upt_conv_Cons map_Suc_upt del: upt_Suc)
  have len: "length (lines ?l) \<le> 10" by (simp add: keep_last_def)
  show ?case
    using Cons.IH [of ?l] Cons.prems len unfolding up0
    by (simp add: spec_line step Let_def contents_def comp_def)
qed

lemma demo_up: "up {} BUFFER_SIZE (demo_session [])"
  using demo_memory_for [of BUFFER_SIZE]
  by (simp add: up_def demo_session_ready demo_kernel_up BUFFER_SIZE_def KMALLOC_MAX_SIZE_def)

end
