(* ===== verification/Slist.thy ===== *)
theory Slist
  imports Prelude
begin

text \<open>
  The singly linked list of \<open>server/queue.h\<close> (the \<open>SLIST\<close> macros). The elements are nodes of a
  heap; each holds a pointer to the next one and the data of the structure it is part of. A
  null or dangling pointer that is followed gives \<open>None\<close>, and so does a search that does not end.
  The macros refine operations on lists: \<open>slist_at\<close> relates a head and a heap to the addresses of
  the elements in order.
\<close>

section \<open>Nodes and heads\<close>

record 'd snode =
  sle_next :: ptr
  sdata :: 'd

record 'd slist =
  nodes :: "addr \<rightharpoonup> 'd snode"
  slh_first :: ptr

section \<open>The macros\<close>

definition SLIST_EMPTY :: "'d slist \<Rightarrow> bool" where
  "SLIST_EMPTY l \<longleftrightarrow> slh_first l = NULL"

definition SLIST_FIRST :: "'d slist \<Rightarrow> ptr" where
  "SLIST_FIRST l = slh_first l"

text \<open>\<open>SLIST_NEXT\<close> follows a pointer; as the target of an assignment it writes the field.\<close>

definition SLIST_NEXT :: "'d slist \<Rightarrow> ptr \<Rightarrow> ptr option" where
  "SLIST_NEXT l p = do { a \<leftarrow> p; n \<leftarrow> nodes l a; Some (sle_next n) }"

definition set_next :: "'d slist \<Rightarrow> ptr \<Rightarrow> ptr \<Rightarrow> 'd slist option" where
  "set_next l p q =
     do { a \<leftarrow> p; n \<leftarrow> nodes l a; Some (l\<lparr>nodes := (nodes l)(a \<mapsto> n\<lparr>sle_next := q\<rparr>)\<rparr>) }"

definition SLIST_INIT :: "'d slist \<Rightarrow> 'd slist" where
  "SLIST_INIT l = l\<lparr>slh_first := NULL\<rparr>"

definition SLIST_INSERT_HEAD :: "ptr \<Rightarrow> 'd slist \<Rightarrow> 'd slist option" where
  "SLIST_INSERT_HEAD elm l =
     do { l \<leftarrow> set_next l elm (SLIST_FIRST l); Some (l\<lparr>slh_first := elm\<rparr>) }"

definition SLIST_INSERT_AFTER :: "ptr \<Rightarrow> ptr \<Rightarrow> 'd slist \<Rightarrow> 'd slist option" where
  "SLIST_INSERT_AFTER slistelm elm l =
     do { n \<leftarrow> SLIST_NEXT l slistelm; l \<leftarrow> set_next l elm n; set_next l slistelm elm }"

definition SLIST_REMOVE_HEAD :: "'d slist \<Rightarrow> 'd slist option" where
  "SLIST_REMOVE_HEAD l = do { n \<leftarrow> SLIST_NEXT l (SLIST_FIRST l); Some (l\<lparr>slh_first := n\<rparr>) }"

definition SLIST_REMOVE_AFTER :: "ptr \<Rightarrow> 'd slist \<Rightarrow> 'd slist option" where
  "SLIST_REMOVE_AFTER elm l =
     do { n \<leftarrow> SLIST_NEXT l elm; nn \<leftarrow> SLIST_NEXT l n; set_next l elm nn }"

text \<open>The search of \<open>SLIST_REMOVE\<close> for the element before \<open>elm\<close>.\<close>

partial_function (option) find_before :: "'d slist \<Rightarrow> ptr \<Rightarrow> ptr \<Rightarrow> ptr option" where
  "find_before l elm curelm =
     do { n \<leftarrow> SLIST_NEXT l curelm;
          if n \<noteq> elm then find_before l elm n else Some curelm }"

definition SLIST_REMOVE :: "ptr \<Rightarrow> 'd slist \<Rightarrow> 'd slist option" where
  "SLIST_REMOVE elm l =
     (if SLIST_FIRST l = elm then SLIST_REMOVE_HEAD l
      else do { curelm \<leftarrow> find_before l elm (SLIST_FIRST l); SLIST_REMOVE_AFTER curelm l })"

text \<open>The last element, where \<open>SLIST_CONCAT\<close> appends the second list.\<close>

partial_function (option) find_last :: "'d slist \<Rightarrow> ptr \<Rightarrow> ptr option" where
  "find_last l curelm =
     do { n \<leftarrow> SLIST_NEXT l curelm; if n \<noteq> NULL then find_last l n else Some curelm }"

text \<open>Two heads over one heap: the result is the heap with the first head, and the second head.\<close>

definition SLIST_CONCAT :: "'d slist \<Rightarrow> ptr \<Rightarrow> ('d slist \<times> ptr) option" where
  "SLIST_CONCAT l head2 =
     (if SLIST_FIRST l = NULL
      then Some (l\<lparr>slh_first := head2\<rparr>, if head2 \<noteq> NULL then NULL else head2)
      else if head2 \<noteq> NULL
      then do { curelm \<leftarrow> find_last l (SLIST_FIRST l); l \<leftarrow> set_next l curelm head2; Some (l, NULL) }
      else Some (l, head2))"

definition SLIST_SWAP :: "'d slist \<Rightarrow> ptr \<Rightarrow> 'd slist \<times> ptr" where
  "SLIST_SWAP l head2 = (l\<lparr>slh_first := head2\<rparr>, SLIST_FIRST l)"

text \<open>
  The iteration that survives the removal of the current element: the next pointer is read before
  the body runs. The body works on a state \<open>'s\<close> that contains the list.
\<close>

partial_function (option) SLIST_FOREACH_SAFE ::
    "('s \<Rightarrow> 'd slist) \<Rightarrow> (addr \<Rightarrow> 's \<Rightarrow> 's option) \<Rightarrow> ptr \<Rightarrow> 's \<Rightarrow> 's option" where
  "SLIST_FOREACH_SAFE get body var s =
     (case var of
        None \<Rightarrow> Some s
      | Some a \<Rightarrow> do { tvar \<leftarrow> SLIST_NEXT (get s) var;
                       s \<leftarrow> body a s;
                       SLIST_FOREACH_SAFE get body tvar s })"

text \<open>The plain iteration reads the next pointer after the body.\<close>

partial_function (option) SLIST_FOREACH ::
    "('s \<Rightarrow> 'd slist) \<Rightarrow> (addr \<Rightarrow> 's \<Rightarrow> 's option) \<Rightarrow> ptr \<Rightarrow> 's \<Rightarrow> 's option" where
  "SLIST_FOREACH get body var s =
     (case var of
        None \<Rightarrow> Some s
      | Some a \<Rightarrow> do { s \<leftarrow> body a s;
                       var \<leftarrow> SLIST_NEXT (get s) var;
                       SLIST_FOREACH get body var s })"

text \<open>Releasing a node that has been taken out of the list.\<close>

definition free_node :: "addr \<Rightarrow> 'd slist \<Rightarrow> 'd slist option" where
  "free_node a l = (if nodes l a = None then None else Some (l\<lparr>nodes := (nodes l)(a := None)\<rparr>))"

section \<open>Lists of addresses\<close>

text \<open>The elements from \<open>p\<close> on, up to but not including \<open>q\<close>.\<close>

fun slist_seg :: "(addr \<rightharpoonup> 'd snode) \<Rightarrow> ptr \<Rightarrow> addr list \<Rightarrow> ptr \<Rightarrow> bool" where
  "slist_seg h p [] q \<longleftrightarrow> p = q"
| "slist_seg h p (a # as) q \<longleftrightarrow>
     p = Some a \<and> (case h a of None \<Rightarrow> False | Some n \<Rightarrow> slist_seg h (sle_next n) as q)"

definition slist_holds :: "'d slist \<Rightarrow> addr list \<Rightarrow> bool" where
  "slist_holds l xs \<longleftrightarrow> slist_seg (nodes l) (slh_first l) xs NULL"

lemma seg_append: "slist_seg h p (xs @ ys) q \<longleftrightarrow> (\<exists>r. slist_seg h p xs r \<and> slist_seg h r ys q)"
  by (induction xs arbitrary: p) (auto split: option.split)

lemma seg_dom: "slist_seg h p xs q \<Longrightarrow> set xs \<subseteq> dom h"
  by (induction xs arbitrary: p) (auto split: option.splits)

lemma seg_frame: "slist_seg h p xs q \<Longrightarrow> (\<And>a. a \<in> set xs \<Longrightarrow> h' a = h a) \<Longrightarrow> slist_seg h' p xs q"
  by (induction xs arbitrary: p) (auto split: option.splits)

lemma seg_functional: "slist_seg h p xs NULL \<Longrightarrow> slist_seg h p ys NULL \<Longrightarrow> xs = ys"
proof (induction xs arbitrary: p ys)
  case Nil
  then show ?case by (cases ys) simp_all
next
  case (Cons a xs)
  then show ?case by (cases ys) (auto split: option.splits)
qed

text \<open>A list that ends has no cycle.\<close>

lemma seg_distinct:
  assumes "slist_seg h p xs NULL"
  shows "distinct xs"
proof (rule ccontr)
  assume "\<not> distinct xs"
  then obtain us a vs ws where xs: "xs = us @ [a] @ vs @ [a] @ ws" using not_distinct_decomp by blast
  with assms have "slist_seg h (Some a) (a # vs @ [a] @ ws) NULL" by (auto simp: seg_append split: option.splits)
  moreover have "slist_seg h (Some a) (a # ws) NULL"
    using assms xs by (auto simp: seg_append split: option.splits)
  ultimately have "a # vs @ [a] @ ws = a # ws" by (rule seg_functional)
  then have "length (vs @ [a] @ ws) = length ws" by simp
  then show False by simp
qed

lemma seg_Some: "slist_seg h p (a # xs) q \<Longrightarrow> \<exists>n. p = Some a \<and> h a = Some n \<and> slist_seg h (sle_next n) xs q"
  by (auto split: option.splits)

section \<open>The macros on lists\<close>

lemma SLIST_EMPTY_holds: "slist_holds l xs \<Longrightarrow> SLIST_EMPTY l \<longleftrightarrow> xs = []"
  by (cases xs) (auto simp: slist_holds_def SLIST_EMPTY_def)

lemma SLIST_FIRST_holds: "slist_holds l (a # xs) \<Longrightarrow> SLIST_FIRST l = Some a"
  by (simp add: slist_holds_def SLIST_FIRST_def)

lemma SLIST_INIT_holds: "slist_holds (SLIST_INIT l) []"
  by (simp add: slist_holds_def SLIST_INIT_def)

lemma SLIST_INSERT_HEAD_holds:
  assumes "slist_holds l xs" and "nodes l a = Some n" and "a \<notin> set xs"
  shows "SLIST_INSERT_HEAD (Some a) l =
      Some (l\<lparr>nodes := (nodes l)(a \<mapsto> n\<lparr>sle_next := slh_first l\<rparr>), slh_first := Some a\<rparr>)"
    and "slist_holds (l\<lparr>nodes := (nodes l)(a \<mapsto> n\<lparr>sle_next := slh_first l\<rparr>), slh_first := Some a\<rparr>) (a # xs)"
proof -
  show "SLIST_INSERT_HEAD (Some a) l =
      Some (l\<lparr>nodes := (nodes l)(a \<mapsto> n\<lparr>sle_next := slh_first l\<rparr>), slh_first := Some a\<rparr>)"
    using assms(2) by (simp add: SLIST_INSERT_HEAD_def set_next_def SLIST_FIRST_def)
  have "slist_seg ((nodes l)(a \<mapsto> n\<lparr>sle_next := slh_first l\<rparr>)) (slh_first l) xs NULL"
    using assms(1) unfolding slist_holds_def by (rule seg_frame) (use assms(3) in auto)
  then show "slist_holds (l\<lparr>nodes := (nodes l)(a \<mapsto> n\<lparr>sle_next := slh_first l\<rparr>), slh_first := Some a\<rparr>) (a # xs)"
    by (simp add: slist_holds_def)
qed

lemma SLIST_REMOVE_HEAD_holds:
  assumes "slist_holds l (a # xs)"
  shows "\<exists>p. SLIST_REMOVE_HEAD l = Some (l\<lparr>slh_first := p\<rparr>) \<and> slist_holds (l\<lparr>slh_first := p\<rparr>) xs"
proof -
  obtain n where "slh_first l = Some a" "nodes l a = Some n" "slist_seg (nodes l) (sle_next n) xs NULL"
    using assms seg_Some unfolding slist_holds_def by metis
  then show ?thesis
    by (auto simp: SLIST_REMOVE_HEAD_def SLIST_FIRST_def SLIST_NEXT_def slist_holds_def)
qed

text \<open>The search for the element before \<open>a\<close> ends at it.\<close>

lemma find_before_seg:
  assumes "slist_seg (nodes l) p (us @ [b]) (Some a)" and "a \<notin> set (us @ [b])"
  shows "find_before l (Some a) p = Some (Some b)"
  using assms
proof (induction us arbitrary: p)
  case Nil
  then show ?case
    by (subst find_before.simps) (auto simp: SLIST_NEXT_def split: option.splits)
next
  case (Cons c us)
  obtain n where n: "p = Some c" "nodes l c = Some n" "slist_seg (nodes l) (sle_next n) (us @ [b]) (Some a)"
    using Cons.prems(1) seg_Some [of "nodes l" p c "us @ [b]" "Some a"] by auto
  have "sle_next n \<noteq> Some a" using n(3) Cons.prems(2) by (cases us) (auto split: option.splits)
  with n Cons show ?case by (subst find_before.simps) (simp add: SLIST_NEXT_def)
qed

text \<open>Removal unlinks the element and leaves every node allocated.\<close>

lemma SLIST_REMOVE_holds:
  assumes "slist_holds l xs" and "a \<in> set xs"
  shows "\<exists>l'. SLIST_REMOVE (Some a) l = Some l' \<and> slist_holds l' (remove1 a xs) \<and>
    dom (nodes l') = dom (nodes l) \<and> map_option sdata \<circ> nodes l' = map_option sdata \<circ> nodes l"
proof (cases "slh_first l = Some a")
  case True
  then obtain ys where xs: "xs = a # ys" using assms by (cases xs) (auto simp: slist_holds_def)
  with True SLIST_REMOVE_HEAD_holds [of l a ys] assms(1) show ?thesis
    by (auto simp: SLIST_REMOVE_def SLIST_FIRST_def)
next
  case False
  obtain us vs where xs: "xs = us @ a # vs" using assms(2) by (auto simp: in_set_conv_decomp)
  with False assms(1) have "us \<noteq> []" by (auto simp: slist_holds_def)
  then obtain ws b where us: "us = ws @ [b]" by (metis rev_exhaust)
  let ?h = "nodes l"
  have dist: "distinct xs" using assms(1) seg_distinct by (auto simp: slist_holds_def)
  from assms(1) xs us have pre: "slist_seg ?h (slh_first l) (ws @ [b]) (Some a)"
    and post: "slist_seg ?h (Some a) (a # vs) NULL"
    unfolding slist_holds_def by (auto simp: seg_append split: option.splits)
  from pre obtain q where ws: "slist_seg ?h (slh_first l) ws q" and b: "slist_seg ?h q [b] (Some a)"
    by (auto simp: seg_append)
  from b obtain nb where nb: "q = Some b" "?h b = Some nb" "sle_next nb = Some a" by (auto split: option.splits)
  from post obtain na where na: "?h a = Some na" "slist_seg ?h (sle_next na) vs NULL" by (auto split: option.splits)
  let ?h' = "?h(b \<mapsto> nb\<lparr>sle_next := sle_next na\<rparr>)"
  have "find_before l (Some a) (slh_first l) = Some (Some b)"
    using find_before_seg [OF pre] dist xs us by auto
  then have rm: "SLIST_REMOVE (Some a) l = Some (l\<lparr>nodes := ?h'\<rparr>)"
    using False nb na by (simp add: SLIST_REMOVE_def SLIST_FIRST_def SLIST_REMOVE_AFTER_def SLIST_NEXT_def set_next_def)
  have "slist_seg ?h' (slh_first l) ws q" by (rule seg_frame [OF ws]) (use dist xs us in auto)
  moreover have "slist_seg ?h' (sle_next na) vs NULL" by (rule seg_frame [OF na(2)]) (use dist xs us in auto)
  ultimately have "slist_seg ?h' (slh_first l) (ws @ b # vs) NULL"
    using nb by (auto simp: seg_append)
  moreover have "remove1 a xs = ws @ b # vs" using dist xs us by (simp add: remove1_append)
  ultimately have holds: "slist_holds (l\<lparr>nodes := ?h'\<rparr>) (remove1 a xs)" by (simp add: slist_holds_def)
  show ?thesis
    by (rule exI [of _ "l\<lparr>nodes := ?h'\<rparr>"])
      (use rm holds nb in \<open>auto simp: fun_eq_iff\<close>)
qed

lemma free_node_holds:
  assumes "slist_holds l xs" and "nodes l a \<noteq> None" and "a \<notin> set xs"
  shows "free_node a l = Some (l\<lparr>nodes := (nodes l)(a := None)\<rparr>)"
    and "slist_holds (l\<lparr>nodes := (nodes l)(a := None)\<rparr>) xs"
proof -
  show "free_node a l = Some (l\<lparr>nodes := (nodes l)(a := None)\<rparr>)"
    using assms(2) by (simp add: free_node_def del: not_None_eq)
  have "slist_seg ((nodes l)(a := None)) (slh_first l) xs NULL"
    by (rule seg_frame [OF assms(1) [unfolded slist_holds_def]]) (use assms(3) in auto)
  then show "slist_holds (l\<lparr>nodes := (nodes l)(a := None)\<rparr>) xs" by (simp add: slist_holds_def)
qed

lemma SLIST_FIRST_list:
  "slist_holds l xs \<Longrightarrow> SLIST_FIRST l = (case xs of [] \<Rightarrow> NULL | x # _ \<Rightarrow> Some x)"
  by (cases xs) (auto simp: slist_holds_def SLIST_FIRST_def)

lemma SLIST_NEXT_list:
  assumes "slist_holds l (xs @ a # ys)"
  shows "SLIST_NEXT l (Some a) = Some (case ys of [] \<Rightarrow> NULL | y # _ \<Rightarrow> Some y)"
proof -
  obtain n where n: "nodes l a = Some n" "slist_seg (nodes l) (sle_next n) ys NULL"
    using assms by (auto simp: slist_holds_def seg_append split: option.splits)
  then show ?thesis by (cases ys) (auto simp: SLIST_NEXT_def)
qed

text \<open>Insertion after an element, concatenation and exchange.\<close>

lemma SLIST_INSERT_AFTER_holds:
  assumes holds: "slist_holds l (xs @ b # ys)" and a: "nodes l a = Some n" "a \<notin> set (xs @ b # ys)"
  shows "\<exists>l'. SLIST_INSERT_AFTER (Some b) (Some a) l = Some l' \<and> slist_holds l' (xs @ b # a # ys)"
proof -
  have dist: "distinct (xs @ b # ys)" using holds unfolding slist_holds_def by (rule seg_distinct)
  let ?h = "nodes l"
  obtain q nb where xs: "slist_seg ?h (slh_first l) xs q" and b: "q = Some b" "?h b = Some nb"
    and ys: "slist_seg ?h (sle_next nb) ys NULL"
    using holds by (auto simp: slist_holds_def seg_append split: option.splits)
  have ab: "a \<noteq> b" using a(2) by auto
  let ?h' = "?h(a \<mapsto> n\<lparr>sle_next := sle_next nb\<rparr>, b \<mapsto> nb\<lparr>sle_next := Some a\<rparr>)"
  have ins: "SLIST_INSERT_AFTER (Some b) (Some a) l = Some (l\<lparr>nodes := ?h'\<rparr>)"
    using a(1) b(2) ab by (simp add: SLIST_INSERT_AFTER_def SLIST_NEXT_def set_next_def)
  have "slist_seg ?h' (slh_first l) xs q" by (rule seg_frame [OF xs]) (use dist a(2) in auto)
  moreover have "slist_seg ?h' (sle_next nb) ys NULL" by (rule seg_frame [OF ys]) (use dist a(2) in auto)
  ultimately have "slist_holds (l\<lparr>nodes := ?h'\<rparr>) (xs @ b # a # ys)"
    using b ab by (auto simp: slist_holds_def seg_append)
  with ins show ?thesis by blast
qed

lemma find_last_seg:
  assumes "slist_seg (nodes l) p (us @ [b]) NULL"
  shows "find_last l p = Some (Some b)"
  using assms
proof (induction us arbitrary: p)
  case Nil
  then show ?case by (subst find_last.simps) (auto simp: SLIST_NEXT_def split: option.splits)
next
  case (Cons c us)
  obtain n where n: "p = Some c" "nodes l c = Some n" "slist_seg (nodes l) (sle_next n) (us @ [b]) NULL"
    using Cons.prems seg_Some [of "nodes l" p c "us @ [b]" NULL] by auto
  have "sle_next n \<noteq> NULL" using n(3) by (cases us) auto
  with n Cons.IH [OF n(3)] show ?case by (subst find_last.simps) (simp add: SLIST_NEXT_def)
qed

lemma SLIST_CONCAT_holds:
  assumes xs: "slist_holds l xs" and ys: "slist_seg (nodes l) head2 ys NULL" and disj: "set xs \<inter> set ys = {}"
  shows "\<exists>l'. SLIST_CONCAT l head2 = Some (l', NULL) \<and> slist_holds l' (xs @ ys)"
proof (cases xs rule: rev_cases)
  case Nil
  with xs ys show ?thesis
    by (auto simp: SLIST_CONCAT_def SLIST_FIRST_def slist_holds_def)
next
  case (snoc us b)
  then have first: "slh_first l \<noteq> NULL" using xs by (cases us) (auto simp: slist_holds_def)
  show ?thesis
  proof (cases "head2 = NULL")
    case True
    then have "ys = []" using ys by (cases ys) auto
    with True first xs show ?thesis by (auto simp: SLIST_CONCAT_def SLIST_FIRST_def)
  next
    case False
    have seg: "slist_seg (nodes l) (slh_first l) (us @ [b]) NULL" using xs snoc by (simp add: slist_holds_def)
    then obtain q nb where us: "slist_seg (nodes l) (slh_first l) us q" and b: "q = Some b" "nodes l b = Some nb"
      by (auto simp: seg_append split: option.splits)
    let ?h' = "(nodes l)(b \<mapsto> nb\<lparr>sle_next := head2\<rparr>)"
    have cat: "SLIST_CONCAT l head2 = Some (l\<lparr>nodes := ?h'\<rparr>, NULL)"
      using first False b find_last_seg [OF seg] by (auto simp: SLIST_CONCAT_def SLIST_FIRST_def set_next_def)
    have dist: "distinct (us @ [b])" by (rule seg_distinct [OF seg])
    have "slist_seg ?h' (slh_first l) us q" by (rule seg_frame [OF us]) (use dist in auto)
    moreover have "slist_seg ?h' head2 ys NULL" by (rule seg_frame [OF ys]) (use disj snoc in auto)
    ultimately have "slist_holds (l\<lparr>nodes := ?h'\<rparr>) (xs @ ys)"
      using b snoc by (auto simp: slist_holds_def seg_append)
    with cat show ?thesis by blast
  qed
qed

lemma SLIST_SWAP_holds:
  assumes "slist_holds l xs" and "slist_seg (nodes l) head2 ys NULL"
  shows "slist_holds (fst (SLIST_SWAP l head2)) ys \<and>
    slist_seg (nodes l) (snd (SLIST_SWAP l head2)) xs NULL"
  using assms by (simp add: SLIST_SWAP_def slist_holds_def SLIST_FIRST_def)

section \<open>The list as its clients see it\<close>

text \<open>
  The contract of the list: a sequence of elements, insertion at the head, removal of any element,
  and a set of elements that may be inserted, which neither operation changes.
\<close>

locale head_list =
  fixes holds :: "'l \<Rightarrow> 'e list \<Rightarrow> bool" and allocated :: "'l \<Rightarrow> 'e set"
    and insert_head :: "'e \<Rightarrow> 'l \<Rightarrow> 'l option" and remove :: "'e \<Rightarrow> 'l \<Rightarrow> 'l option"
  assumes insert_law: "holds l xs \<Longrightarrow> x \<in> allocated l \<Longrightarrow> x \<notin> set xs \<Longrightarrow>
      \<exists>l'. insert_head x l = Some l' \<and> holds l' (x # xs) \<and> allocated l' = allocated l"
    and remove_law: "holds l xs \<Longrightarrow> x \<in> set xs \<Longrightarrow>
      \<exists>l'. remove x l = Some l' \<and> holds l' (remove1 x xs) \<and> allocated l' = allocated l"
begin

lemma insert_all:
  assumes "holds l xs" and "distinct (ys @ xs)" and "set ys \<subseteq> allocated l"
  shows "\<exists>l'. fold_option insert_head ys l = Some l' \<and> holds l' (rev ys @ xs) \<and> allocated l' = allocated l"
  using assms
proof (induction ys arbitrary: l xs)
  case Nil
  then show ?case by simp
next
  case (Cons y ys)
  obtain l1 where l1: "insert_head y l = Some l1" "holds l1 (y # xs)" "allocated l1 = allocated l"
    using insert_law [OF Cons.prems(1), of y] Cons.prems(2,3) by auto
  with Cons.IH [OF l1(2)] Cons.prems show ?case by auto
qed

lemma remove_all:
  assumes "holds l xs" and "distinct xs" and "distinct rs" and "set rs \<subseteq> set xs"
  shows "\<exists>l'. fold_option remove rs l = Some l' \<and> holds l' (filter (\<lambda>x. x \<notin> set rs) xs)"
  using assms
proof (induction rs arbitrary: l xs)
  case Nil
  then show ?case by simp
next
  case (Cons r rs)
  obtain l1 where l1: "remove r l = Some l1" "holds l1 (remove1 r xs)"
    using remove_law [OF Cons.prems(1), of r] Cons.prems(4) by auto
  have rm: "remove1 r xs = filter (\<lambda>x. x \<noteq> r) xs"
    using Cons.prems(2) by (simp add: distinct_remove1_removeAll removeAll_filter_not_eq eq_commute)
  from Cons.IH [OF l1(2)] Cons.prems l1(1) show ?case
    by (auto simp: rm conj_commute)
qed

end

interpretation sl: head_list slist_holds "\<lambda>l. dom (nodes l)" "\<lambda>a. SLIST_INSERT_HEAD (Some a)" "\<lambda>a. SLIST_REMOVE (Some a)"
proof
  fix l :: "'d slist" and xs x
  assume l: "slist_holds l xs"
  show "\<exists>l'. SLIST_REMOVE (Some x) l = Some l' \<and> slist_holds l' (remove1 x xs) \<and> dom (nodes l') = dom (nodes l)"
    if "x \<in> set xs" using SLIST_REMOVE_holds [OF l that] by blast
  assume x: "x \<in> dom (nodes l)" and nx: "x \<notin> set xs"
  then obtain n where n: "nodes l x = Some n" by auto
  from SLIST_INSERT_HEAD_holds [OF l n nx] n
  show "\<exists>l'. SLIST_INSERT_HEAD (Some x) l = Some l' \<and> slist_holds l' (x # xs) \<and> dom (nodes l') = dom (nodes l)"
    by auto
qed

end
