(* ===== verification/Aesdsocket.thy ===== *)
theory Aesdsocket
  imports Slist Connection_Thread Transition_System
begin

text \<open>
  The main thread of the server (\<open>server/aesdsocket.c\<close>): the signal handler, the loop of
  \<open>run_server\<close> that collects finished connection threads and accepts new connections, its
  shutdown, and \<open>main\<close>.

  \<open>run_server\<close> runs beside the connection threads and the signal handler, so it is a step relation:
  a step is one iteration of one of its loops (two for the final loop, which closes a socket before
  it waits for the thread), the end of a connection thread, or a signal. A
  step whose code would follow a dangling pointer, free a block twice or join a thread
  twice does not exist; that such a case never arises is a theorem.
\<close>

unbundle bit_operations_syntax

section \<open>State\<close>

record slist_data =
  connection :: ptr
  thread :: ptr

text \<open>
  A thread runs, has closed its socket, has set its completion flag, has returned, or has been
  joined. Closing the socket, setting the flag and returning are three events: the main thread may
  act in between.
\<close>

datatype tstatus = Running | Leaving | Ending | Finished | Joined

text \<open>
  Where \<open>run_server\<close> stands: at the loop condition, in the pass over the list at an element, before
  \<open>accept\<close>, at the condition of the final loop, in that loop before it joins the thread of an
  element, or at its return.
\<close>

datatype phase = Check | Reap ptr | Accept | Drain | Join addr | Exited c_int

text \<open>
  The list with its nodes; the blocks of connection arguments and of thread identifiers; the
  threads with the argument each was started with; the open client sockets; the flag
  \<open>quit\<close>; the block of the mutex.
\<close>

record server =
  thread_list :: "slist_data slist"
  conns :: "addr \<rightharpoonup> connection_thread_args"
  tids :: "addr \<rightharpoonup> nat"
  tstate :: "nat \<rightharpoonup> tstatus"
  targ :: "nat \<rightharpoonup> addr"
  client_fds :: "c_int set"
  quit :: bool
  mutex_block :: ptr
  phase :: phase

section \<open>Signals\<close>

definition SIGINT :: c_int where
  "SIGINT = 2"

definition SIGTERM :: c_int where
  "SIGTERM = 15"

definition shutdown_handler :: "c_int \<Rightarrow> server \<Rightarrow> server" where
  "shutdown_handler signal_number s =
     (if signal_number = SIGINT \<or> signal_number = SIGTERM then s\<lparr>quit := True\<rparr> else s)"

section \<open>Joining and freeing\<close>

text \<open>
  \<open>pthread_join\<close> waits for the thread to return. It has no result for a thread that has been
  joined already or was never started.
\<close>

definition pthread_join :: "nat \<Rightarrow> server \<Rightarrow> server option" where
  "pthread_join i s =
     (if tstate s i = Some Finished then Some (s\<lparr>tstate := (tstate s)(i \<mapsto> Joined)\<rparr>) else None)"

definition free_thread :: "ptr \<Rightarrow> server \<Rightarrow> server option" where
  "free_thread p s =
     (case p of None \<Rightarrow> Some s
      | Some t \<Rightarrow> if tids s t = None then None else Some (s\<lparr>tids := (tids s)(t := None)\<rparr>))"

definition free_connection :: "ptr \<Rightarrow> server \<Rightarrow> server option" where
  "free_connection p s =
     (case p of None \<Rightarrow> Some s
      | Some c \<Rightarrow> if conns s c = None then None else Some (s\<lparr>conns := (conns s)(c := None)\<rparr>))"

section \<open>The loops of run_server\<close>

text \<open>The start of \<open>run_server\<close>: the mutex, the empty list, and \<open>listen\<close>.\<close>

definition run_server_start :: "ptr \<Rightarrow> c_int \<Rightarrow> server \<Rightarrow> server" where
  "run_server_start mutex_ptr listen_rc s =
     (case mutex_ptr of
        None \<Rightarrow> s\<lparr>phase := Exited (- 1)\<rparr>
      | Some m \<Rightarrow>
          (let s = s\<lparr>mutex_block := Some m, thread_list := SLIST_INIT (thread_list s)\<rparr> in
           if listen_rc \<noteq> 0 then s\<lparr>phase := Exited (- 1)\<rparr> else s\<lparr>phase := Check\<rparr>))"

text \<open>
  The body of the pass over the list: a thread that is complete is joined, and its identifier, its
  arguments and its node are released.
\<close>

definition reap_body :: "addr \<Rightarrow> server \<Rightarrow> server option" where
  "reap_body datap s =
     do { n \<leftarrow> nodes (thread_list s) datap;
          c \<leftarrow> connection (sdata n);
          args \<leftarrow> conns s c;
          if thread_complete args
          then do { t \<leftarrow> thread (sdata n);
                    i \<leftarrow> tids s t;
                    s \<leftarrow> pthread_join i s;
                    s \<leftarrow> free_thread (Some t) s;
                    s \<leftarrow> free_connection (Some c) s;
                    l \<leftarrow> SLIST_REMOVE (Some datap) (thread_list s);
                    l \<leftarrow> free_node datap l;
                    Some (s\<lparr>thread_list := l\<rparr>) }
          else Some s }"

text \<open>The whole pass, without interruption.\<close>

definition reap_pass :: "server \<Rightarrow> server option" where
  "reap_pass s = SLIST_FOREACH_SAFE thread_list reap_body (SLIST_FIRST (thread_list s)) s"

text \<open>
  One iteration of \<open>SLIST_FOREACH_SAFE\<close> with that body: the next pointer is read first.
\<close>

definition reap_step :: "addr \<Rightarrow> server \<Rightarrow> server option" where
  "reap_step datap s =
     do { tmp \<leftarrow> SLIST_NEXT (thread_list s) (Some datap);
          s \<leftarrow> reap_body datap s;
          Some (s\<lparr>phase := Reap tmp\<rparr>) }"

text \<open>
  What follows an accepted connection: the answers of the three \<open>malloc\<close> calls and of
  \<open>pthread_create\<close>, with the identifier of the new thread, are arguments. The node is used without
  a check of the third. (The arguments are filled in after the second allocation; when that
  fails their block is lost, and what it holds is of no consequence.)
\<close>

definition accept_client ::
    "ptr \<Rightarrow> ptr \<Rightarrow> c_int \<Rightarrow> nat \<Rightarrow> ptr \<Rightarrow> c_int \<Rightarrow> sockaddr_in \<Rightarrow> uint32_t \<Rightarrow> server \<Rightarrow> server option" where
  "accept_client tData thr rc i datap fd peer len s =
     do { m \<leftarrow> mutex_block s;
      let s = s\<lparr>client_fds := insert fd (client_fds s), phase := Check\<rparr>;
      case tData of None \<Rightarrow> Some (s\<lparr>quit := True\<rparr>)
      | Some c \<Rightarrow>
          (let args = \<lparr>file_mutex = m, client_fd = fd, client_addr = peer,
                       client_len = len, thread_complete_success = False, thread_complete = False\<rparr>;
               s = s\<lparr>conns := (conns s)(c \<mapsto> args)\<rparr> in
           case thr of None \<Rightarrow> Some (s\<lparr>quit := True\<rparr>)
           | Some t \<Rightarrow>
               (let s = s\<lparr>tids := (tids s)(t \<mapsto> i)\<rparr> in
                if rc \<noteq> 0 then Some (s\<lparr>quit := True\<rparr>)
                else
                  let s = s\<lparr>tstate := (tstate s)(i \<mapsto> Running), targ := (targ s)(i \<mapsto> c)\<rparr> in
                  do { a \<leftarrow> datap;
                       let n = \<lparr>sle_next = NULL, sdata = \<lparr>connection = Some c, thread = Some t\<rparr>\<rparr>;
                       let l = thread_list s;
                       l \<leftarrow> SLIST_INSERT_HEAD (Some a) (l\<lparr>nodes := (nodes l)(a \<mapsto> n)\<rparr>);
                       Some (s\<lparr>thread_list := l\<rparr>) })) }"

text \<open>
  One iteration of the final loop: the socket of the first element is closed, whether its thread is
  still running or not; then its thread is joined, which may have to wait, and its blocks are
  released.
\<close>

definition drain_close :: "server \<Rightarrow> server option" where
  "drain_close s =
     do { datap \<leftarrow> SLIST_FIRST (thread_list s);
          n \<leftarrow> nodes (thread_list s) datap;
          c \<leftarrow> connection (sdata n);
          args \<leftarrow> conns s c;
          Some (s\<lparr>client_fds := client_fds s - {client_fd args}, phase := Join datap\<rparr>) }"

definition drain_join :: "addr \<Rightarrow> server \<Rightarrow> server option" where
  "drain_join datap s =
     do { n \<leftarrow> nodes (thread_list s) datap;
          t \<leftarrow> thread (sdata n);
          i \<leftarrow> tids s t;
          s \<leftarrow> pthread_join i s;
          s \<leftarrow> free_thread (Some t) s;
          s \<leftarrow> free_connection (connection (sdata n)) s;
          l \<leftarrow> SLIST_REMOVE_HEAD (thread_list s);
          l \<leftarrow> free_node datap l;
          Some (s\<lparr>thread_list := l, phase := Drain\<rparr>) }"

definition run_server_end :: "server \<Rightarrow> server" where
  "run_server_end s = s\<lparr>mutex_block := NULL, phase := Exited 0\<rparr>"

section \<open>The connection threads as seen by the main thread\<close>

text \<open>
  A thread that opened the device closes its socket and then sets its flags
  (\<open>connection_releases\<close> says that it does both), one that could not open it returns without either.
\<close>

definition thread_close :: "nat \<Rightarrow> server \<Rightarrow> server option" where
  "thread_close i s =
     do { c \<leftarrow> targ s i;
          args \<leftarrow> conns s c;
          Some (s\<lparr>client_fds := client_fds s - {client_fd args}, tstate := (tstate s)(i \<mapsto> Leaving)\<rparr>) }"

definition thread_flags :: "nat \<Rightarrow> bool \<Rightarrow> server \<Rightarrow> server option" where
  "thread_flags i success s =
     do { c \<leftarrow> targ s i;
          args \<leftarrow> conns s c;
          Some (s\<lparr>conns := (conns s)(c \<mapsto> args\<lparr>thread_complete_success := success, thread_complete := True\<rparr>),
                  tstate := (tstate s)(i \<mapsto> Ending)\<rparr>) }"

definition thread_return :: "nat \<Rightarrow> server \<Rightarrow> server" where
  "thread_return i s = s\<lparr>tstate := (tstate s)(i \<mapsto> Finished)\<rparr>"

section \<open>The server as a step relation\<close>

text \<open>The steps of the main thread, and the signals that interrupt it.\<close>

inductive main_step :: "server \<Rightarrow> server \<Rightarrow> bool" where
  main_quit: "phase s = Check \<Longrightarrow> quit s \<Longrightarrow> main_step s (s\<lparr>phase := Drain\<rparr>)"
| main_pass: "phase s = Check \<Longrightarrow> \<not> quit s \<Longrightarrow> main_step s (s\<lparr>phase := Reap (SLIST_FIRST (thread_list s))\<rparr>)"
| main_reap: "phase s = Reap (Some a) \<Longrightarrow> reap_step a s = Some s' \<Longrightarrow> main_step s s'"
| main_pass_end: "phase s = Reap NULL \<Longrightarrow> main_step s (s\<lparr>phase := Accept\<rparr>)"
| main_accept_none: "phase s = Accept \<Longrightarrow> main_step s (s\<lparr>phase := Check\<rparr>)"
| main_accept: "phase s = Accept \<Longrightarrow> fd \<notin> client_fds s \<Longrightarrow>
     (\<forall>c. tData = Some c \<longrightarrow> conns s c = None) \<Longrightarrow> (\<forall>t. thr = Some t \<longrightarrow> tids s t = None) \<Longrightarrow>
     (\<forall>a. datap = Some a \<longrightarrow> nodes (thread_list s) a = None) \<Longrightarrow> tstate s i = None \<Longrightarrow>
     accept_client tData thr rc i datap fd peer len s = Some s' \<Longrightarrow> main_step s s'"
| main_close: "phase s = Drain \<Longrightarrow> \<not> SLIST_EMPTY (thread_list s) \<Longrightarrow> drain_close s = Some s' \<Longrightarrow> main_step s s'"
| main_join: "phase s = Join a \<Longrightarrow> drain_join a s = Some s' \<Longrightarrow> main_step s s'"
| main_end: "phase s = Drain \<Longrightarrow> SLIST_EMPTY (thread_list s) \<Longrightarrow> main_step s (run_server_end s)"
| main_signal: "main_step s (shutdown_handler sig s)"

text \<open>The main thread beside the connection threads.\<close>

inductive srv_step :: "server \<Rightarrow> server \<Rightarrow> bool" where
  srv_main: "main_step s s' \<Longrightarrow> srv_step s s'"
| thr_close: "tstate s i = Some Running \<Longrightarrow> thread_close i s = Some s' \<Longrightarrow> srv_step s s'"
| thr_flags: "tstate s i = Some Leaving \<Longrightarrow> thread_flags i success s = Some s' \<Longrightarrow> srv_step s s'"
| thr_return: "tstate s i = Some Ending \<Longrightarrow> srv_step s (thread_return i s)"
| thr_open_failed: "tstate s i = Some Running \<Longrightarrow> srv_step s (thread_return i s)"

lemmas srv_quit = main_quit [THEN srv_main]
  and srv_pass = main_pass [THEN srv_main]
  and srv_reap = main_reap [THEN srv_main]
  and srv_pass_end = main_pass_end [THEN srv_main]
  and srv_accept_none = main_accept_none [THEN srv_main]
  and srv_accept = main_accept [THEN srv_main]
  and srv_close = main_close [THEN srv_main]
  and srv_join = main_join [THEN srv_main]
  and srv_end = main_end [THEN srv_main]
  and srv_signal = main_signal [THEN srv_main]

text \<open>What a step of the server can be.\<close>

lemma srv_step_cases [consumes 1, case_names srv_quit srv_pass srv_reap srv_pass_end srv_accept_none
    srv_accept srv_close srv_join srv_end srv_signal thr_close thr_flags thr_return thr_open_failed]:
  assumes "srv_step s t"
  obtains "phase s = Check" "quit s" "t = s\<lparr>phase := Drain\<rparr>"
  | "phase s = Check" "\<not> quit s" "t = s\<lparr>phase := Reap (SLIST_FIRST (thread_list s))\<rparr>"
  | a where "phase s = Reap (Some a)" "reap_step a s = Some t"
  | "phase s = Reap NULL" "t = s\<lparr>phase := Accept\<rparr>"
  | "phase s = Accept" "t = s\<lparr>phase := Check\<rparr>"
  | fd tData thr datap i rc peer len where "phase s = Accept" "fd \<notin> client_fds s"
      "\<forall>c. tData = Some c \<longrightarrow> conns s c = None" "\<forall>t. thr = Some t \<longrightarrow> tids s t = None"
      "\<forall>a. datap = Some a \<longrightarrow> nodes (thread_list s) a = None" "tstate s i = None"
      "accept_client tData thr rc i datap fd peer len s = Some t"
  | "phase s = Drain" "\<not> SLIST_EMPTY (thread_list s)" "drain_close s = Some t"
  | a where "phase s = Join a" "drain_join a s = Some t"
  | "phase s = Drain" "SLIST_EMPTY (thread_list s)" "t = run_server_end s"
  | sig where "t = shutdown_handler sig s"
  | i where "tstate s i = Some Running" "thread_close i s = Some t"
  | i success where "tstate s i = Some Leaving" "thread_flags i success s = Some t"
  | i where "tstate s i = Some Ending" "t = thread_return i s"
  | i where "tstate s i = Some Running" "t = thread_return i s"
  using assms
proof cases
  case srv_main
  then show thesis by (rule main_step.cases) (use that(1-10) in blast)+
qed (use that(11-14) in blast)+

text \<open>The state of a process that has just entered \<open>run_server\<close>.\<close>

definition srv_blank :: server where
  "srv_blank =
     \<lparr>thread_list = \<lparr>nodes = Map.empty, slh_first = NULL\<rparr>, conns = Map.empty, tids = Map.empty,
      tstate = Map.empty, targ = Map.empty, client_fds = {}, quit = False, mutex_block = NULL,
      phase = Exited 0\<rparr>"

definition srv_init :: "server \<Rightarrow> bool" where
  "srv_init s \<longleftrightarrow> (\<exists>m rc. s = run_server_start m rc srv_blank)"

section \<open>The process\<close>

text \<open>The signals for which the handler is installed, from the results of \<open>sigaction\<close>.\<close>

definition setup_handlers :: "(c_int \<Rightarrow> c_int) \<Rightarrow> c_int set" where
  "setup_handlers sigaction =
     (if sigaction SIGINT \<noteq> 0 then {} else {SIGINT}) \<union> (if sigaction SIGTERM \<noteq> 0 then {} else {SIGTERM})"

text \<open>
  The answers of the system calls that \<open>main\<close> makes, and what \<open>run_server\<close> returns. The
  installation of the handlers, the calls that change the socket and the release of the address are recorded in order.
\<close>

record main_env =
  sigaction_rc :: "c_int \<Rightarrow> c_int"
  socket_rc :: c_int
  setsockopt_rc :: c_int
  getfl_rc :: c_int
  getaddrinfo_rc :: c_int
  bind_rc :: c_int
  fork_rc :: c_int
  run_server_rc :: c_int

datatype main_call =
  Call_sigaction "c_int set" | Call_close c_int | Call_setfl c_int c_int | Call_bind c_int | Call_freeaddrinfo |
  Call_run_server c_int

definition O_NONBLOCK :: c_int where
  "O_NONBLOCK = 0x800"

definition stop_process :: "c_int \<Rightarrow> main_call list" where
  "stop_process socket_fd = (if 0 \<le> sint socket_fd then [Call_close socket_fd] else [])"

definition server_main :: "main_env \<Rightarrow> string list \<Rightarrow> c_int \<times> main_call list" where
  "server_main E argv =
     (let is_daemon = (1 < length argv \<and> argv ! 1 = ''-d'');
          c0 = [Call_sigaction (setup_handlers (sigaction_rc E))];
          socket_fd = socket_rc E in
      if sint socket_fd < 0 then (- 1, c0 @ stop_process socket_fd)
      else
        let c1 = c0 @ (if sint (setsockopt_rc E) < 0 then stop_process socket_fd else []);
            c2 = [Call_setfl socket_fd (getfl_rc E OR O_NONBLOCK)] in
        if getaddrinfo_rc E \<noteq> 0 then (- 1, c1 @ c2 @ stop_process socket_fd)
        else
          let c3 = [Call_bind socket_fd] in
          if bind_rc E \<noteq> 0 then (- 1, c1 @ c2 @ c3 @ stop_process socket_fd)
          else let c3 = c3 @ [Call_freeaddrinfo] in
          if is_daemon
          then
            if sint (fork_rc E) < 0 then (0, c1 @ c2 @ c3)
            else if fork_rc E = 0
            then (run_server_rc E, c1 @ c2 @ c3 @ [Call_run_server socket_fd] @ stop_process socket_fd)
            else (0, c1 @ c2 @ c3 @ stop_process socket_fd)
          else (run_server_rc E, c1 @ c2 @ c3 @ [Call_run_server socket_fd] @ stop_process socket_fd))"

end
