(* ===== verification/Server_Entries.thy ===== *)
theory Server_Entries
  imports Aesdsocket
begin

text \<open>
  What the list of threads stands for. Ghost entries \<open>es\<close> name, for each element of the list in
  order, its node, the block of its arguments, the block of its thread identifier and the thread.
  All of them are allocated and distinct, every thread that has not been joined belongs to an
  entry, and no other block is allocated, except the at most two that a failed start of a connection
  leaves behind on the way to the shutdown. The bodies of the two loops take one entry out.
\<close>

section \<open>Entries\<close>

record tentry =
  t_node :: addr
  t_conn :: addr
  t_cell :: addr
  t_id :: nat

definition entry_ok :: "server \<Rightarrow> tentry \<Rightarrow> bool" where
  "entry_ok s e \<longleftrightarrow>
     map_option sdata (nodes (thread_list s) (t_node e)) =
       Some \<lparr>connection = Some (t_conn e), thread = Some (t_cell e)\<rparr> \<and>
     tids s (t_cell e) = Some (t_id e) \<and> targ s (t_id e) = Some (t_conn e) \<and>
     tstate s (t_id e) \<in> {Some Running, Some Leaving, Some Ending, Some Finished} \<and>
     (\<exists>args. conns s (t_conn e) = Some args \<and>
        (thread_complete args \<longrightarrow> tstate s (t_id e) \<noteq> Some Running \<and> tstate s (t_id e) \<noteq> Some Leaving) \<and>
        (tstate s (t_id e) = Some Ending \<longrightarrow> thread_complete args))"

definition entries_ok :: "tentry list \<Rightarrow> server \<Rightarrow> bool" where
  "entries_ok es s \<longleftrightarrow>
     slist_holds (thread_list s) (map t_node es) \<and> dom (nodes (thread_list s)) = t_node ` set es \<and>
     (\<forall>e \<in> set es. entry_ok s e) \<and>
     distinct (map t_node es) \<and> distinct (map t_conn es) \<and> distinct (map t_cell es) \<and> distinct (map t_id es) \<and>
     (\<forall>i st. tstate s i = Some st \<longrightarrow> st = Joined \<or> i \<in> t_id ` set es)"

text \<open>The blocks that no entry owns.\<close>

definition lost :: "tentry list \<Rightarrow> server \<Rightarrow> addr set \<times> addr set" where
  "lost es s = (dom (conns s) - t_conn ` set es, dom (tids s) - t_cell ` set es)"

text \<open>The places of the main thread from which it does not come back to the body of the loop once \<open>quit\<close> is set.\<close>

definition stopping :: "phase set" where
  "stopping = {Check, Drain, Exited 0} \<union> range Join"

lemma stopping_iff [simp]:
  "Check \<in> stopping" "Drain \<in> stopping" "Join a \<in> stopping" "Exited rc \<in> stopping \<longleftrightarrow> rc = 0"
  "Reap p \<notin> stopping" "Accept \<notin> stopping"
  by (auto simp: stopping_def)

definition lost_ok :: "tentry list \<Rightarrow> server \<Rightarrow> bool" where
  "lost_ok es s \<longleftrightarrow>
     lost es s = ({}, {}) \<or>
     quit s \<and> phase s \<in> stopping \<and>
     (\<exists>c t. fst (lost es s) \<subseteq> {c} \<and> snd (lost es s) \<subseteq> {t})"

definition phase_ok :: "tentry list \<Rightarrow> server \<Rightarrow> bool" where
  "phase_ok es s \<longleftrightarrow>
     (case phase s of
        Reap p \<Rightarrow> (\<exists>us vs. es = us @ vs \<and> p = (case vs of [] \<Rightarrow> NULL | v # _ \<Rightarrow> Some (t_node v)))
      | Join a \<Rightarrow> (\<exists>e vs. es = e # vs \<and> a = t_node e)
      | Exited rc \<Rightarrow> es = []
      | _ \<Rightarrow> True) \<and>
     (mutex_block s = NULL \<longrightarrow> (\<exists>rc. phase s = Exited rc)) \<and>
     (phase s = Exited 0 \<longrightarrow> mutex_block s = NULL)"

section \<open>Taking an entry out\<close>

text \<open>The state after a thread has been joined and its three blocks released.\<close>

definition released :: "tentry \<Rightarrow> slist_data slist \<Rightarrow> server \<Rightarrow> server" where
  "released e l s =
     s\<lparr>tstate := (tstate s)(t_id e \<mapsto> Joined), tids := (tids s)(t_cell e := None),
       conns := (conns s)(t_conn e := None), thread_list := l\<rparr>"

lemma entries_ok_distinct:
  assumes "entries_ok (us @ e # vs) s" and "x \<in> set (us @ vs)"
  shows "t_node x \<noteq> t_node e" "t_conn x \<noteq> t_conn e" "t_cell x \<noteq> t_cell e" "t_id x \<noteq> t_id e"
  using assms distinct_map_other [OF _ assms(2)] unfolding entries_ok_def by blast+

lemma entries_ok_released:
  assumes ok: "entries_ok (us @ e # vs) s" and l: "slist_holds l (map t_node (us @ vs))"
    and dom: "dom (nodes l) = dom (nodes (thread_list s)) - {t_node e}"
    and data: "\<And>a. a \<noteq> t_node e \<Longrightarrow> map_option sdata (nodes l a) = map_option sdata (nodes (thread_list s) a)"
  shows "entries_ok (us @ vs) (released e l s)"
proof -
  have keep: "entry_ok (released e l s) x" if x: "x \<in> set (us @ vs)" for x
  proof -
    have "entry_ok s x" using ok x by (auto simp: entries_ok_def)
    with entries_ok_distinct [OF ok x] data [of "t_node x"] show ?thesis
      by (auto simp: entry_ok_def released_def)
  qed
  moreover have "dom (nodes l) = t_node ` set (us @ vs)"
    using entries_ok_distinct(1) [OF ok] ok dom by (auto simp: entries_ok_def)
  moreover have "\<forall>i st. tstate (released e l s) i = Some st \<longrightarrow> st = Joined \<or> i \<in> t_id ` set (us @ vs)"
    using ok by (auto simp: entries_ok_def released_def)
  ultimately show ?thesis using ok l
    by (auto simp: entries_ok_def released_def)
qed

lemma lost_released:
  assumes "entries_ok (us @ e # vs) s"
  shows "lost (us @ vs) (released e l s) = lost (us @ e # vs) s"
  using entries_ok_distinct(2,3) [OF assms] assms
  by (auto simp: lost_def released_def entries_ok_def)

lemma entry_lookup:
  assumes "entry_ok s e"
  obtains n args where "nodes (thread_list s) (t_node e) = Some n" "connection (sdata n) = Some (t_conn e)"
    "thread (sdata n) = Some (t_cell e)" "conns s (t_conn e) = Some args" "tids s (t_cell e) = Some (t_id e)"
  using assms by (auto simp: entry_ok_def)

section \<open>The bodies of the loops\<close>

lemma reap_body_result:
  assumes ok: "entries_ok (us @ e # vs) s" and args: "conns s (t_conn e) = Some args"
    and fin: "thread_complete args \<Longrightarrow> tstate s (t_id e) = Some Finished"
  shows "if thread_complete args
    then \<exists>l. reap_body (t_node e) s = Some (released e l s) \<and> entries_ok (us @ vs) (released e l s)
    else reap_body (t_node e) s = Some s"
proof -
  have "entry_ok s e" using ok by (simp add: entries_ok_def)
  then obtain n where n: "nodes (thread_list s) (t_node e) = Some n" "connection (sdata n) = Some (t_conn e)"
    "thread (sdata n) = Some (t_cell e)" "tids s (t_cell e) = Some (t_id e)" by (rule entry_lookup)
  show ?thesis
  proof (cases "thread_complete args")
    case False
    with n args show ?thesis by (simp add: reap_body_def)
  next
    case True
    have holds: "slist_holds (thread_list s) (map t_node (us @ e # vs))" and dist: "distinct (map t_node (us @ e # vs))"
      using ok by (simp_all add: entries_ok_def)
    from SLIST_REMOVE_holds [OF holds, of "t_node e"] obtain l where
      l: "SLIST_REMOVE (Some (t_node e)) (thread_list s) = Some l"
        "slist_holds l (remove1 (t_node e) (map t_node (us @ e # vs)))"
        "dom (nodes l) = dom (nodes (thread_list s))"
        "map_option sdata \<circ> nodes l = map_option sdata \<circ> nodes (thread_list s)" by auto
    have rm: "remove1 (t_node e) (map t_node (us @ e # vs)) = map t_node (us @ vs)"
      using dist by (simp add: remove1_append)
    have "t_node e \<notin> set (map t_node (us @ vs))" using dist by auto
    moreover have "nodes l (t_node e) \<noteq> None" using l(3) n(1) by (metis domI domIff)
    ultimately have free: "free_node (t_node e) l = Some (l\<lparr>nodes := (nodes l)(t_node e := None)\<rparr>)"
      and holds': "slist_holds (l\<lparr>nodes := (nodes l)(t_node e := None)\<rparr>) (map t_node (us @ vs))"
      using free_node_holds [of l "map t_node (us @ vs)" "t_node e"] l(2) rm by simp_all
    let ?l = "l\<lparr>nodes := (nodes l)(t_node e := None)\<rparr>"
    have "reap_body (t_node e) s = Some (released e ?l s)"
      using n args True fin l(1) free
      by (simp add: reap_body_def pthread_join_def free_thread_def free_connection_def released_def)
    moreover have "entries_ok (us @ vs) (released e ?l s)"
      by (rule entries_ok_released [OF ok holds'])
        (use l(3,4) in \<open>auto simp: fun_eq_iff\<close>)
    ultimately show ?thesis using True by auto
  qed
qed

lemma drain_join_result:
  assumes ok: "entries_ok (e # vs) s" and fin: "tstate s (t_id e) = Some Finished"
  shows "\<exists>l. drain_join (t_node e) s = Some ((released e l s)\<lparr>phase := Drain\<rparr>) \<and> entries_ok vs (released e l s)"
proof -
  have "entry_ok s e" using ok by (simp add: entries_ok_def)
  then obtain n args where n: "nodes (thread_list s) (t_node e) = Some n" "connection (sdata n) = Some (t_conn e)"
    "thread (sdata n) = Some (t_cell e)" "conns s (t_conn e) = Some args" "tids s (t_cell e) = Some (t_id e)"
    by (rule entry_lookup)
  have holds: "slist_holds (thread_list s) (t_node e # map t_node vs)" and dist: "t_node e \<notin> t_node ` set vs"
    using ok by (auto simp: entries_ok_def)
  obtain p where p: "SLIST_REMOVE_HEAD (thread_list s) = Some ((thread_list s)\<lparr>slh_first := p\<rparr>)"
    "slist_holds ((thread_list s)\<lparr>slh_first := p\<rparr>) (map t_node vs)"
    using SLIST_REMOVE_HEAD_holds [OF holds] by blast
  let ?l = "(thread_list s)\<lparr>slh_first := p, nodes := (nodes (thread_list s))(t_node e := None)\<rparr>"
  have free: "free_node (t_node e) ((thread_list s)\<lparr>slh_first := p\<rparr>) = Some ?l" and holds': "slist_holds ?l (map t_node vs)"
    using free_node_holds [OF p(2), of "t_node e"] n(1) dist by simp_all
  have "drain_join (t_node e) s = Some ((released e ?l s)\<lparr>phase := Drain\<rparr>)"
    using n fin p(1) free
    by (simp add: drain_join_def pthread_join_def free_thread_def free_connection_def released_def)
  moreover have "entries_ok ([] @ e # vs) s" using ok by simp
  then have "entries_ok ([] @ vs) (released e ?l s)"
    by (rule entries_ok_released) (use holds' in auto)
  ultimately show ?thesis by auto
qed

section \<open>Reading the list\<close>

lemma entries_ok_other [simp]:
  "entries_ok es (s\<lparr>phase := p\<rparr>) = entries_ok es s" "entries_ok es (s\<lparr>quit := b\<rparr>) = entries_ok es s"
  "entries_ok es (s\<lparr>mutex_block := m\<rparr>) = entries_ok es s"
  "entries_ok es (s\<lparr>client_fds := f\<rparr>) = entries_ok es s"
  by (simp_all add: entries_ok_def entry_ok_def)

lemma lost_other [simp]:
  "lost es (s\<lparr>phase := p\<rparr>) = lost es s" "lost es (s\<lparr>quit := b\<rparr>) = lost es s"
  "lost es (s\<lparr>mutex_block := m\<rparr>) = lost es s" "lost es (s\<lparr>client_fds := f\<rparr>) = lost es s"
  by (simp_all add: lost_def)

lemma released_sel [simp]:
  "phase (released e l s) = phase s" "quit (released e l s) = quit s"
  "mutex_block (released e l s) = mutex_block s"
  by (simp_all add: released_def)

lemma entries_ok_first:
  "entries_ok es s \<Longrightarrow> SLIST_FIRST (thread_list s) = (case es of [] \<Rightarrow> NULL | e # _ \<Rightarrow> Some (t_node e))"
  using SLIST_FIRST_list [of "thread_list s" "map t_node es"]
  by (cases es) (simp_all add: entries_ok_def)

lemma entries_ok_next:
  assumes "entries_ok (us @ e # vs) s"
  shows "SLIST_NEXT (thread_list s) (Some (t_node e)) =
    Some (case vs of [] \<Rightarrow> NULL | v # _ \<Rightarrow> Some (t_node v))"
  using SLIST_NEXT_list [of "thread_list s" "map t_node us" "t_node e" "map t_node vs"] assms
  by (cases vs) (simp_all add: entries_ok_def)

lemma entries_ok_Nil_iff: "entries_ok es s \<Longrightarrow> SLIST_EMPTY (thread_list s) \<longleftrightarrow> es = []"
  using SLIST_EMPTY_holds [of "thread_list s" "map t_node es"] by (simp add: entries_ok_def)

end
