(* ===== verification/Server_Sockets.thy ===== *)
theory Server_Sockets
  imports Server_Entries
begin

text \<open>
  The sockets of the clients. An entry owns the descriptor in its arguments until its thread closes
  it or the final loop does; the owned descriptors are open, a descriptor is owned
  by one entry only, and no other socket is open, except at most one that was accepted by a failed
  start of a connection. A descriptor that a thread has closed may have been given to a later
  connection; that one stands before it in the list.
\<close>

section \<open>Ownership\<close>

definition incomplete :: "server \<Rightarrow> tentry \<Rightarrow> bool" where
  "incomplete s x \<longleftrightarrow>
     (\<exists>args. conns s (t_conn x) = Some args \<and> \<not> thread_complete args) \<and> tstate s (t_id x) \<noteq> Some Leaving"

definition fd_of :: "server \<Rightarrow> tentry \<Rightarrow> c_int" where
  "fd_of s x = client_fd (the (conns s (t_conn x)))"

definition owns :: "server \<Rightarrow> tentry \<Rightarrow> bool" where
  "owns s x \<longleftrightarrow> incomplete s x \<and> phase s \<noteq> Join (t_node x)"

definition owned_fds :: "tentry list \<Rightarrow> server \<Rightarrow> c_int set" where
  "owned_fds es s = fd_of s ` {x \<in> set es. owns s x}"

text \<open>
  An entry that owns its descriptor is either served by a thread that still runs and has not closed it, or
  abandoned: its thread could not open the device and has returned without closing it.
\<close>

definition served_by_thread :: "server \<Rightarrow> tentry \<Rightarrow> bool" where
  "served_by_thread s x \<longleftrightarrow> tstate s (t_id x) = Some Running \<and> phase s \<noteq> Join (t_node x)"

definition abandoned :: "server \<Rightarrow> tentry \<Rightarrow> bool" where
  "abandoned s x \<longleftrightarrow>
     tstate s (t_id x) = Some Finished \<and> (\<exists>args. conns s (t_conn x) = Some args \<and> \<not> thread_complete args) \<and>
     phase s \<noteq> Join (t_node x)"

lemma owns_iff: "entry_ok s x \<Longrightarrow> owns s x \<longleftrightarrow> served_by_thread s x \<or> abandoned s x"
  by (auto simp: owns_def incomplete_def served_by_thread_def abandoned_def entry_ok_def)

text \<open>Seen from an entry whose thread has not closed its socket, no earlier one in the list has its descriptor.\<close>

definition apart :: "server \<Rightarrow> tentry \<Rightarrow> tentry \<Rightarrow> bool" where
  "apart s y x \<longleftrightarrow> (incomplete s x \<longrightarrow> fd_of s y \<noteq> fd_of s x)"

definition fds_ok :: "tentry list \<Rightarrow> server \<Rightarrow> bool" where
  "fds_ok es s \<longleftrightarrow>
     sorted_wrt (apart s) es \<and> owned_fds es s \<subseteq> client_fds s \<and>
     (client_fds s \<subseteq> owned_fds es s \<or>
      quit s \<and> phase s \<in> stopping \<and> (\<exists>fd. client_fds s \<subseteq> insert fd (owned_fds es s)))"

lemma owned_fds_simps [simp]:
  "owned_fds [] s = {}"
  "owned_fds (x # es) s = (if owns s x then {fd_of s x} else {}) \<union> owned_fds es s"
  "owned_fds (us @ vs) s = owned_fds us s \<union> owned_fds vs s"
  by (auto simp: owned_fds_def)

text \<open>Ownership depends on the arguments of the entries, on which threads leave and on what is being joined.\<close>

definition leaves :: "server \<Rightarrow> tentry \<Rightarrow> bool" where
  "leaves s x \<longleftrightarrow> tstate s (t_id x) = Some Leaving"

lemma ownership_cong:
  assumes "\<And>x. x \<in> set es \<Longrightarrow> conns t (t_conn x) = conns s (t_conn x) \<and> leaves t x = leaves s x"
    and "\<And>x. x \<in> set es \<Longrightarrow> phase t = Join (t_node x) \<longleftrightarrow> phase s = Join (t_node x)"
  shows "owned_fds es t = owned_fds es s" and "sorted_wrt (apart t) es = sorted_wrt (apart s) es"
proof -
  have same: "incomplete t x = incomplete s x" "fd_of t x = fd_of s x" "owns t x = owns s x" if "x \<in> set es" for x
    using assms [OF that] by (simp_all add: incomplete_def fd_of_def owns_def leaves_def)
  have "{x \<in> set es. owns t x} = {x \<in> set es. owns s x}" using same(3) by blast
  then show "owned_fds es t = owned_fds es s" unfolding owned_fds_def using same(2) by (auto intro: image_cong)
  have "apart t y x = apart s y x" if "x \<in> set es" "y \<in> set es" for x y
    using same that by (simp add: apart_def)
  then show "sorted_wrt (apart t) es = sorted_wrt (apart s) es"
    using sorted_wrt_mono_rel [of es "apart t" "apart s"] sorted_wrt_mono_rel [of es "apart s" "apart t"] by blast
qed

lemma fds_ok_cong:
  assumes "fds_ok es s"
    and "\<And>x. x \<in> set es \<Longrightarrow> conns t (t_conn x) = conns s (t_conn x) \<and> leaves t x = leaves s x"
    and "\<And>x. x \<in> set es \<Longrightarrow> phase t = Join (t_node x) \<longleftrightarrow> phase s = Join (t_node x)"
    and "client_fds t = client_fds s"
    and "quit s \<and> phase s \<in> stopping \<Longrightarrow> quit t \<and> phase t \<in> stopping"
  shows "fds_ok es t"
  using assms(1,4,5) ownership_cong [OF assms(2,3)] by (auto simp: fds_ok_def)

lemma fds_ok_phase:
  "fds_ok es s \<Longrightarrow> \<forall>a. phase s \<noteq> Join a \<and> p \<noteq> Join a \<Longrightarrow> (quit s \<Longrightarrow> phase s \<in> stopping \<Longrightarrow> p \<in> stopping) \<Longrightarrow>
   fds_ok es (s\<lparr>phase := p\<rparr>)"
  by (rule fds_ok_cong) (auto simp: leaves_def)

lemma fds_ok_quit: "fds_ok es s \<Longrightarrow> fds_ok es (s\<lparr>quit := True\<rparr>)"
  by (rule fds_ok_cong) (auto simp: leaves_def)

text \<open>Two entries that have not completed have different descriptors.\<close>

lemma owned_distinct:
  assumes "fds_ok es s"
  shows "distinct (map (fd_of s) (filter (owns s) es))"
proof -
  have "sorted_wrt (apart s) (filter (owns s) es)"
    using assms by (simp add: fds_ok_def sorted_wrt_filter)
  then have "sorted_wrt (\<lambda>y x. fd_of s y \<noteq> fd_of s x) (filter (owns s) es)"
    by (rule sorted_wrt_mono_rel [rotated]) (auto simp: apart_def owns_def)
  then show ?thesis by (rule sorted_wrt_distinct)
qed

section \<open>The steps\<close>

lemma released_conns: "x \<noteq> t_conn e \<Longrightarrow> conns (released e l s) x = conns s x"
  by (simp add: released_def)

lemma fds_ok_released:
  assumes ent: "entries_ok (us @ e # vs) s" and ok: "fds_ok (us @ e # vs) s" and no: "\<not> owns s e"
    and ph: "\<And>x. x \<in> set (us @ vs) \<Longrightarrow> p \<noteq> Join (t_node x) \<and> phase s \<noteq> Join (t_node x)"
    and stop: "quit s \<and> phase s \<in> stopping \<Longrightarrow> p \<in> stopping"
  shows "fds_ok (us @ vs) ((released e l s)\<lparr>phase := p\<rparr>)"
proof -
  have "fds_ok (us @ vs) s" using ok no by (auto simp: fds_ok_def sorted_wrt_append)
  then show ?thesis
  proof (rule fds_ok_cong)
    fix x assume x: "x \<in> set (us @ vs)"
    show "conns ((released e l s)\<lparr>phase := p\<rparr>) (t_conn x) = conns s (t_conn x) \<and>
        leaves ((released e l s)\<lparr>phase := p\<rparr>) x = leaves s x"
      using entries_ok_distinct(2,4) [OF ent x] by (simp add: released_def leaves_def)
  qed (use ph stop in \<open>auto simp: released_def\<close>)
qed

lemma fds_ok_close:
  assumes ent: "entries_ok (e # vs) s" and ok: "fds_ok (e # vs) s" and ph: "phase s = Drain"
  shows "fds_ok (e # vs) (s\<lparr>client_fds := client_fds s - {fd_of s e}, phase := Join (t_node e)\<rparr>)" (is "fds_ok _ ?s")
proof -
  have ne: "t_node x \<noteq> t_node e" if "x \<in> set vs" for x
    using entries_ok_distinct(1) [of "[]" e vs s x] ent that by simp
  have same: "incomplete ?s x = incomplete s x" "fd_of ?s x = fd_of s x" for x
    by (simp_all add: incomplete_def fd_of_def)
  have "owns ?s x = owns s x" if "x \<in> set vs" for x
    using ne [OF that] ph by (auto simp: owns_def same)
  then have owned: "owned_fds vs ?s = owned_fds vs s" by (auto simp: owned_fds_def same)
  have no: "\<not> owns ?s e" by (simp add: owns_def)
  have "fd_of s e \<notin> owned_fds vs s"
    using ok by (auto simp: fds_ok_def owned_fds_def apart_def owns_def)
  moreover have "apart ?s = apart s" by (simp add: fun_eq_iff apart_def same)
  ultimately show ?thesis using ok owned no ph
    by (auto simp: fds_ok_def split: if_splits)
qed

text \<open>The thread of an entry closes its socket; later it sets its flags.\<close>

lemma fds_ok_leave:
  assumes ent: "entries_ok es s" and ok: "fds_ok es s" and e: "e \<in> set es" and args: "conns s (t_conn e) = Some args"
    and inc: "\<not> thread_complete args" "tstate s (t_id e) = Some Running"
  shows "fds_ok es (s\<lparr>client_fds := client_fds s - {client_fd args}, tstate := (tstate s)(t_id e \<mapsto> Leaving)\<rparr>)"
    (is "fds_ok es ?s")
proof -
  have other: "t_id x \<noteq> t_id e" if "x \<in> set es" "x \<noteq> e" for x
    using ent e that by (auto simp: entries_ok_def distinct_map inj_on_def)
  have fd: "fd_of ?s x = fd_of s x" if "x \<in> set es" for x by (simp add: fd_of_def)
  have inc': "incomplete ?s x \<longleftrightarrow> incomplete s x \<and> x \<noteq> e" if "x \<in> set es" for x
    using other [OF that] by (cases "x = e") (auto simp: incomplete_def)
  have fde: "fd_of s e = client_fd args" "incomplete s e" using args inc by (simp_all add: fd_of_def incomplete_def)
  have apart: "fd_of s x \<noteq> fd_of s e" if "x \<in> set es" "x \<noteq> e" "incomplete s x" for x
  proof -
    obtain us vs where es: "es = us @ e # vs" using e by (meson split_list)
    then have "x \<in> set us \<or> x \<in> set vs" using that by auto
    then show ?thesis using ok fde(2) that(3) unfolding es by (auto simp: fds_ok_def sorted_wrt_append apart_def)
  qed
  have "sorted_wrt (apart ?s) es"
    by (rule sorted_wrt_mono_rel [of es "apart s"]) (use ok fd inc' in \<open>auto simp: apart_def fds_ok_def\<close>)
  moreover have "owned_fds es ?s = owned_fds es s - {client_fd args}"
    using apart fd inc' fde by (auto simp: owned_fds_def owns_def)
  ultimately show ?thesis using ok by (auto simp: fds_ok_def)
qed

lemma fds_ok_flags:
  assumes ent: "entries_ok es s" and ok: "fds_ok es s" and e: "e \<in> set es" and args: "conns s (t_conn e) = Some args"
    and lv: "tstate s (t_id e) = Some Leaving" and args': "client_fd args' = client_fd args" "thread_complete args'"
  shows "fds_ok es (s\<lparr>conns := (conns s)(t_conn e \<mapsto> args'), tstate := (tstate s)(t_id e \<mapsto> Ending)\<rparr>)"
    (is "fds_ok es ?s")
proof -
  have other: "t_conn x \<noteq> t_conn e \<and> t_id x \<noteq> t_id e" if "x \<in> set es" "x \<noteq> e" for x
    using ent e that by (auto simp: entries_ok_def distinct_map inj_on_def)
  have fd: "fd_of ?s x = fd_of s x" if "x \<in> set es" for x
    using other [OF that] args args' by (cases "x = e") (auto simp: fd_of_def)
  have inc: "incomplete ?s x \<longleftrightarrow> incomplete s x" if "x \<in> set es" for x
    using other [OF that] lv args' by (cases "x = e") (auto simp: incomplete_def)
  have "sorted_wrt (apart ?s) es"
    by (rule sorted_wrt_mono_rel [of es "apart s"]) (use ok fd inc in \<open>auto simp: apart_def fds_ok_def\<close>)
  moreover have "owned_fds es ?s = owned_fds es s"
    using fd inc by (force simp: owned_fds_def owns_def)
  ultimately show ?thesis using ok by (auto simp: fds_ok_def)
qed

text \<open>A new connection gets a descriptor that is not open; one that is not started loses it.\<close>

lemma fds_ok_accept:
  assumes ok: "fds_ok es s" and ph: "phase s = Accept" and fd: "fd \<notin> client_fds s"
    and x: "conns t (t_conn e) = Some args" "client_fd args = fd" "\<not> thread_complete args" "\<not> leaves t e"
    and conns: "\<And>x. x \<in> set es \<Longrightarrow> conns t (t_conn x) = conns s (t_conn x) \<and> leaves t x = leaves s x"
    and t: "client_fds t = insert fd (client_fds s)" "phase t = Check"
  shows "fds_ok (e # es) t"
proof -
  have owned: "owned_fds es t = owned_fds es s" and sorted: "sorted_wrt (apart t) es = sorted_wrt (apart s) es"
    by (rule ownership_cong; use conns ph t(2) in simp)+
  have e: "owns t e" "fd_of t e = fd" using x t(2) by (simp_all add: owns_def incomplete_def fd_of_def leaves_def)
  have "apart t e x" if "x \<in> set es" for x
  proof -
    have "fd_of t x \<in> client_fds s" if "incomplete t x"
      using ok owned \<open>x \<in> set es\<close> that t(2) by (auto simp: fds_ok_def owned_fds_def owns_def)
    then show ?thesis using e fd by (auto simp: apart_def)
  qed
  then show ?thesis using ok owned sorted e t ph by (auto simp: fds_ok_def)
qed

lemma fds_ok_accept_failed:
  assumes ok: "fds_ok es s" and ph: "phase s = Accept"
    and conns: "\<And>x. x \<in> set es \<Longrightarrow> conns t (t_conn x) = conns s (t_conn x) \<and> leaves t x = leaves s x"
    and t: "client_fds t = insert fd (client_fds s)" "phase t = Check" "quit t"
  shows "fds_ok es t"
proof -
  have owned: "owned_fds es t = owned_fds es s" and sorted: "sorted_wrt (apart t) es = sorted_wrt (apart s) es"
    by (rule ownership_cong; use conns ph t(2) in simp)+
  then show ?thesis using ok t ph by (auto simp: fds_ok_def)
qed

end
