(* ===== verification/Server_Invariant.thy ===== *)
theory Server_Invariant
  imports Server_Sockets
begin

text \<open>
  The invariant of \<open>run_server\<close>: the list stands for entries, whose blocks and sockets are
  accounted for, and the main thread is at a place that fits them. Every step keeps it.
\<close>

section \<open>The invariant\<close>

definition srv_ok :: "tentry list \<Rightarrow> server \<Rightarrow> bool" where
  "srv_ok es s \<longleftrightarrow> entries_ok es s \<and> lost_ok es s \<and> fds_ok es s \<and> phase_ok es s"

definition srv_inv :: "server \<Rightarrow> bool" where
  "srv_inv s \<longleftrightarrow> (\<exists>es. srv_ok es s)"

definition complete :: "server \<Rightarrow> tentry \<Rightarrow> bool" where
  "complete s e \<longleftrightarrow> (\<exists>args. conns s (t_conn e) = Some args \<and> thread_complete args)"

section \<open>Every step keeps the invariant\<close>

lemma phase_ok_Reap:
  "mutex_block s \<noteq> NULL \<Longrightarrow>
   phase_ok (us @ vs) (s\<lparr>phase := Reap (case vs of [] \<Rightarrow> NULL | v # _ \<Rightarrow> Some (t_node v))\<rparr>)"
  by (auto simp: phase_ok_def)

lemma reap_body_joins:
  assumes "entry_ok s e" and "reap_body (t_node e) s = Some s'" and "conns s (t_conn e) = Some args"
    and "thread_complete args"
  shows "tstate s (t_id e) = Some Finished"
proof -
  obtain n where "nodes (thread_list s) (t_node e) = Some n" "connection (sdata n) = Some (t_conn e)"
    "thread (sdata n) = Some (t_cell e)" "tids s (t_cell e) = Some (t_id e)"
    using assms(1) by (rule entry_lookup)
  with assms(2-4) show ?thesis
    by (auto simp: reap_body_def bind_eq_Some_conv pthread_join_def split: if_splits)
qed

text \<open>What one element of the pass comes to: nothing, or the release of its entry.\<close>

lemma reap_step_result:
  assumes ok: "srv_ok es s" and ph: "phase s = Reap (Some a)" and st: "reap_step a s = Some s'"
  shows "\<exists>us e vs. es = us @ e # vs \<and> a = t_node e \<and>
    (s' = s\<lparr>phase := Reap (case vs of [] \<Rightarrow> NULL | v # _ \<Rightarrow> Some (t_node v))\<rparr> \<or>
     (\<exists>l. s' = (released e l s)\<lparr>phase := Reap (case vs of [] \<Rightarrow> NULL | v # _ \<Rightarrow> Some (t_node v))\<rparr> \<and>
       entries_ok (us @ vs) s' \<and> tstate s (t_id e) = Some Finished \<and> complete s e))"
proof -
  from ok ph obtain us vs where es: "es = us @ vs" "Some a = (case vs of [] \<Rightarrow> NULL | v # _ \<Rightarrow> Some (t_node v))"
    by (auto simp: srv_ok_def phase_ok_def)
  then obtain e vs' where vs: "vs = e # vs'" and a: "a = t_node e" by (cases vs) auto
  have ent: "entries_ok (us @ e # vs') s" using ok es vs by (simp add: srv_ok_def)
  let ?tmp = "case vs' of [] \<Rightarrow> NULL | v # _ \<Rightarrow> Some (t_node v)"
  from st a entries_ok_next [OF ent] obtain s1 where
    s1: "reap_body (t_node e) s = Some s1" "s' = s1\<lparr>phase := Reap ?tmp\<rparr>"
    by (auto simp: reap_step_def bind_eq_Some_conv)
  have eo: "entry_ok s e" using ent by (simp add: entries_ok_def)
  then obtain args where args: "conns s (t_conn e) = Some args" by (auto simp: entry_ok_def)
  note res = reap_body_result [OF ent args reap_body_joins [OF eo s1(1) args]]
  have "s1 = s \<or>
      (\<exists>l. s1 = released e l s \<and> entries_ok (us @ vs') s1 \<and> tstate s (t_id e) = Some Finished \<and> complete s e)"
    using res s1(1) reap_body_joins [OF eo s1(1) args] args
    by (cases "thread_complete args") (auto simp: complete_def)
  then have "s' = s\<lparr>phase := Reap ?tmp\<rparr> \<or>
      (\<exists>l. s' = (released e l s)\<lparr>phase := Reap ?tmp\<rparr> \<and> entries_ok (us @ vs') s' \<and>
        tstate s (t_id e) = Some Finished \<and> complete s e)"
    using s1(2) by auto
  with es(1) vs a show ?thesis by blast
qed

lemma reap_step_inv:
  assumes ok: "srv_ok es s" and ph: "phase s = Reap (Some a)" and st: "reap_step a s = Some s'"
  shows "srv_inv s'"
proof -
  from reap_step_result [OF assms] obtain us e vs where es: "es = us @ e # vs" and
    res: "s' = s\<lparr>phase := Reap (case vs of [] \<Rightarrow> NULL | v # _ \<Rightarrow> Some (t_node v))\<rparr> \<or>
     (\<exists>l. s' = (released e l s)\<lparr>phase := Reap (case vs of [] \<Rightarrow> NULL | v # _ \<Rightarrow> Some (t_node v))\<rparr> \<and>
       entries_ok (us @ vs) s' \<and> complete s e)" by blast
  have ent: "entries_ok (us @ e # vs) s" and lost: "lost (us @ e # vs) s = ({}, {})"
    and fds: "fds_ok (us @ e # vs) s" and mtx: "mutex_block s \<noteq> NULL"
    using ok ph es by (auto simp: srv_ok_def lost_ok_def phase_ok_def)
  from res show ?thesis
  proof (elim disjE exE conjE)
    assume "s' = s\<lparr>phase := Reap (case vs of [] \<Rightarrow> NULL | v # _ \<Rightarrow> Some (t_node v))\<rparr>"
    moreover from this have "fds_ok (us @ e # vs) s'" by (intro fds_ok_cong [OF fds]) (use ph in \<open>auto simp: leaves_def\<close>)
    ultimately have "srv_ok ((us @ [e]) @ vs) s'"
      using ent lost phase_ok_Reap [OF mtx, of "us @ [e]" vs] by (simp add: srv_ok_def lost_ok_def)
    then show ?thesis unfolding srv_inv_def by blast
  next
    fix l
    assume s': "s' = (released e l s)\<lparr>phase := Reap (case vs of [] \<Rightarrow> NULL | v # _ \<Rightarrow> Some (t_node v))\<rparr>"
      "entries_ok (us @ vs) s'" and cmp: "complete s e"
    moreover have "\<not> owns s e" using cmp by (auto simp: owns_def incomplete_def complete_def)
    then have "fds_ok (us @ vs) s'"
      using s'(1) fds_ok_released [OF ent fds] ph by simp
    ultimately have "srv_ok (us @ vs) s'"
      using lost_released [OF ent, of l] lost phase_ok_Reap [of "released e l s" us vs] mtx
      by (simp add: srv_ok_def lost_ok_def)
    then show ?thesis by (auto simp: srv_inv_def)
  qed
qed

lemma drain_close_result:
  assumes "entries_ok (e # vs) s"
  shows "drain_close s = Some (s\<lparr>client_fds := client_fds s - {fd_of s e}, phase := Join (t_node e)\<rparr>)"
proof -
  have "entry_ok s e" using assms by (simp add: entries_ok_def)
  then obtain n args where "nodes (thread_list s) (t_node e) = Some n" "connection (sdata n) = Some (t_conn e)"
    "conns s (t_conn e) = Some args" by (rule entry_lookup)
  then show ?thesis using entries_ok_first [OF assms] by (simp add: drain_close_def fd_of_def)
qed

lemma drain_close_inv:
  assumes ok: "srv_ok (e # vs) s" and ph: "phase s = Drain" and st: "drain_close s = Some s'"
  shows "srv_inv s'"
proof -
  have "s' = s\<lparr>client_fds := client_fds s - {fd_of s e}, phase := Join (t_node e)\<rparr>"
    using drain_close_result [of e vs s] ok st by (simp add: srv_ok_def)
  with ok ph fds_ok_close [of e vs s] have "srv_ok (e # vs) s'"
    by (auto simp: srv_ok_def lost_ok_def phase_ok_def)
  then show ?thesis by (auto simp: srv_inv_def)
qed

lemma drain_join_release:
  assumes ent: "entries_ok (e # vs) s" and st: "drain_join (t_node e) s = Some s'"
  shows "\<exists>l. s' = (released e l s)\<lparr>phase := Drain\<rparr> \<and> entries_ok vs s' \<and> tstate s (t_id e) = Some Finished"
proof -
  have eo: "entry_ok s e" using ent by (simp add: entries_ok_def)
  obtain n where "nodes (thread_list s) (t_node e) = Some n" "thread (sdata n) = Some (t_cell e)"
    "tids s (t_cell e) = Some (t_id e)"
    using eo by (rule entry_lookup)
  with st have fin: "tstate s (t_id e) = Some Finished"
    by (auto simp: drain_join_def bind_eq_Some_conv pthread_join_def split: if_splits)
  from drain_join_result [OF ent fin] st fin show ?thesis by auto
qed

lemma drain_join_inv:
  assumes ok: "srv_ok es s" and ph: "phase s = Join a" and st: "drain_join a s = Some s'"
  shows "srv_inv s'"
proof -
  obtain e vs where es: "es = e # vs" "a = t_node e" using ok ph by (auto simp: srv_ok_def phase_ok_def)
  have ent: "entries_ok (e # vs) s" using ok es by (simp add: srv_ok_def)
  obtain l where s': "s' = (released e l s)\<lparr>phase := Drain\<rparr>" "entries_ok vs s'"
    using drain_join_release [OF ent] st es by blast
  have "lost vs s' = lost es s"
    using lost_released [of "[]" e vs s l] ent es s'(1) by simp
  moreover have other: "t_node e \<noteq> t_node x" if "x \<in> set vs" for x
    using entries_ok_distinct(1) [of "[]" e vs s x] ent that by simp
  have "fds_ok vs s'"
    unfolding s'(1)
    by (rule fds_ok_released [of "[]", simplified]) (use ok es ph other in \<open>auto simp: srv_ok_def owns_def\<close>)
  ultimately have "srv_ok vs s'" using ok ph s'
    by (auto simp: srv_ok_def lost_ok_def phase_ok_def)
  then show ?thesis by (auto simp: srv_inv_def)
qed

text \<open>A started connection becomes the first entry; one that fails loses what it had allocated.\<close>

lemma entry_ok_fresh:
  assumes "entry_ok s x" and "nodes (thread_list s) a = None" and "conns s c = None" and "tids s t = None"
    and "tstate s i = None"
  shows "t_node x \<noteq> a" "t_conn x \<noteq> c" "t_cell x \<noteq> t" "t_id x \<noteq> i"
  using assms by (auto simp: entry_ok_def)

lemma entries_ok_accept:
  assumes ok: "entries_ok es s" and fresh: "nodes (thread_list s) a = None" "conns s c = None" "tids s t = None"
      "tstate s i = None" and inc: "\<not> thread_complete args"
  defines "n \<equiv> \<lparr>sle_next = slh_first (thread_list s), sdata = \<lparr>connection = Some c, thread = Some t\<rparr>\<rparr>"
  shows "entries_ok (\<lparr>t_node = a, t_conn = c, t_cell = t, t_id = i\<rparr> # es)
    (s\<lparr>conns := (conns s)(c \<mapsto> args), tids := (tids s)(t \<mapsto> i),
       tstate := (tstate s)(i \<mapsto> Running), targ := (targ s)(i \<mapsto> c),
       thread_list := (thread_list s)\<lparr>nodes := (nodes (thread_list s))(a \<mapsto> n), slh_first := Some a\<rparr>\<rparr>)"
    (is "entries_ok (?e # es) ?s")
proof -
  have old: "entry_ok s x" if "x \<in> set es" for x using ok that by (simp add: entries_ok_def)
  note ne = entry_ok_fresh [OF old fresh]
  have keep: "entry_ok ?s x" if "x \<in> set es" for x
    using old [OF that] ne [OF that] by (auto simp: entry_ok_def)
  have new: "entry_ok ?s ?e" using inc by (simp add: entry_ok_def n_def)
  have seg: "slist_seg (nodes (thread_list s)) (slh_first (thread_list s)) (map t_node es) NULL"
    using ok by (simp add: entries_ok_def slist_holds_def)
  have "slist_seg ((nodes (thread_list s))(a \<mapsto> n)) (slh_first (thread_list s)) (map t_node es) NULL"
    by (rule seg_frame [OF seg]) (use ne(1) in auto)
  then have holds: "slist_holds (thread_list ?s) (map t_node (?e # es))"
    by (simp add: slist_holds_def n_def)
  have dom: "dom (nodes (thread_list ?s)) = t_node ` set (?e # es)" using ok by (simp add: entries_ok_def)
  have dist: "distinct (map t_node (?e # es))" "distinct (map t_conn (?e # es))"
    "distinct (map t_cell (?e # es))" "distinct (map t_id (?e # es))"
    using ok ne by (auto simp: entries_ok_def)
  have thr: "\<forall>j st. tstate ?s j = Some st \<longrightarrow> st = Joined \<or> j \<in> t_id ` set (?e # es)"
    using ok by (auto simp: entries_ok_def)
  show ?thesis
    unfolding entries_ok_def using holds dom keep new dist thr by simp
qed

lemma entries_ok_extra:
  assumes ok: "entries_ok es s" and fresh: "\<And>x. x \<in> dom C \<Longrightarrow> conns s x = None" "\<And>x. x \<in> dom T \<Longrightarrow> tids s x = None"
  shows "entries_ok es (s\<lparr>conns := conns s ++ C, tids := tids s ++ T\<rparr>)"
proof -
  have "entry_ok (s\<lparr>conns := conns s ++ C, tids := tids s ++ T\<rparr>) x" if "x \<in> set es" for x
  proof -
    have x: "entry_ok s x" using ok that by (simp add: entries_ok_def)
    then have "C (t_conn x) = None" "T (t_cell x) = None" using fresh by (fastforce simp: entry_ok_def)+
    with x show ?thesis by (simp add: entry_ok_def map_add_def)
  qed
  with ok show ?thesis by (simp add: entries_ok_def)
qed

lemma accept_failure_inv:
  assumes ok: "srv_ok es s" and ph: "phase s = Accept"
    and fresh: "\<And>x. x \<in> dom C \<Longrightarrow> conns s x = None" "\<And>x. x \<in> dom T \<Longrightarrow> tids s x = None"
    and small: "dom C \<subseteq> {c}" "dom T \<subseteq> {t}"
  shows "srv_inv (s\<lparr>client_fds := insert fd (client_fds s), phase := Check, conns := conns s ++ C, tids := tids s ++ T, quit := True\<rparr>)"
    (is "srv_inv ?s")
proof -
  have ent: "entries_ok es s" and lost: "lost es s = ({}, {})"
    using ok ph by (auto simp: srv_ok_def lost_ok_def)
  have "entries_ok es (s\<lparr>conns := conns s ++ C, tids := tids s ++ T\<rparr>)" by (rule entries_ok_extra [OF ent fresh])
  then have "entries_ok es ?s" by (simp add: entries_ok_def entry_ok_def)
  moreover have "fst (lost es ?s) \<subseteq> {c}" "snd (lost es ?s) \<subseteq> {t}"
    using lost small by (auto simp: lost_def)
  moreover have "fds_ok es ?s"
  proof (rule fds_ok_accept_failed [of es s _ fd])
    fix x assume "x \<in> set es"
    then have "conns s (t_conn x) \<noteq> None" using ent by (auto simp: entries_ok_def entry_ok_def)
    then have "t_conn x \<notin> dom C" using fresh(1) by metis
    then show "conns ?s (t_conn x) = conns s (t_conn x) \<and> leaves ?s x = leaves s x"
      by (simp add: map_add_dom_app_simps(3) leaves_def)
  qed (use ok ph in \<open>simp_all add: srv_ok_def\<close>)
  ultimately have "srv_ok es ?s"
    using ok ph by (auto simp: srv_ok_def lost_ok_def phase_ok_def)
  then show ?thesis by (auto simp: srv_inv_def)
qed

lemma accept_client_inv:
  assumes ok: "srv_ok es s" and ph: "phase s = Accept" and fd: "fd \<notin> client_fds s"
    and fresh: "\<forall>c. tData = Some c \<longrightarrow> conns s c = None" "\<forall>t. thr = Some t \<longrightarrow> tids s t = None"
      "\<forall>a. datap = Some a \<longrightarrow> nodes (thread_list s) a = None" "tstate s i = None"
    and st: "accept_client tData thr rc i datap fd peer len s = Some s'"
  shows "srv_inv s'"
proof -
  obtain m where m: "mutex_block s = Some m" using ok ph by (auto simp: srv_ok_def phase_ok_def)
  let ?F = "insert fd (client_fds s)"
  let ?args = "\<lparr>file_mutex = m, client_fd = fd, client_addr = peer, client_len = len,
    thread_complete_success = False, thread_complete = False\<rparr>"
  have ent: "entries_ok es s" and lost: "lost es s = ({}, {})"
    using ok ph by (auto simp: srv_ok_def lost_ok_def)
  consider "tData = None" | c where "tData = Some c" "thr = None"
    | c t where "tData = Some c" "thr = Some t" "rc \<noteq> 0"
    | c t where "tData = Some c" "thr = Some t" "rc = 0" by (cases tData; cases thr) auto
  then show ?thesis
  proof cases
    case 1
    with st m accept_failure_inv [OF ok ph, of Map.empty Map.empty _ _ fd] show ?thesis
      by (simp add: accept_client_def)
  next
    case 2
    with st m fresh accept_failure_inv [OF ok ph, of "[c \<mapsto> ?args]" Map.empty c _ fd] show ?thesis
      by (simp add: accept_client_def)
  next
    case 3
    with st m fresh accept_failure_inv [OF ok ph, of "[c \<mapsto> ?args]" "[t \<mapsto> i]" c t fd] show ?thesis
      by (simp add: accept_client_def)
  next
    case 4
    with st m obtain a where a: "datap = Some a" by (cases datap) (simp_all add: accept_client_def)
    let ?e = "\<lparr>t_node = a, t_conn = c, t_cell = t, t_id = i\<rparr>"
    have fr: "nodes (thread_list s) a = None" "conns s c = None" "tids s t = None" using fresh a 4 by simp_all
    note new = entries_ok_accept [OF ent fr fresh(4), of ?args]
    let ?n = "\<lparr>sle_next = slh_first (thread_list s), sdata = \<lparr>connection = Some c, thread = Some t\<rparr>\<rparr>"
    let ?s = "s\<lparr>conns := (conns s)(c \<mapsto> ?args), tids := (tids s)(t \<mapsto> i),
       tstate := (tstate s)(i \<mapsto> Running), targ := (targ s)(i \<mapsto> c),
       thread_list := (thread_list s)\<lparr>nodes := (nodes (thread_list s))(a \<mapsto> ?n), slh_first := Some a\<rparr>\<rparr>"
    have s': "s' = ?s\<lparr>client_fds := ?F, phase := Check\<rparr>"
      using st m a 4
      by (auto simp: accept_client_def SLIST_INSERT_HEAD_def set_next_def SLIST_FIRST_def Let_def)
    have "lost (?e # es) ?s = ({}, {})" using lost by (auto simp: lost_def)
    moreover have "fds_ok (?e # es) s'"
    proof (rule fds_ok_accept [OF _ ph fd, where args = ?args])
      fix x assume "x \<in> set es"
      then have "entry_ok s x" using ent by (simp add: entries_ok_def)
      then show "conns s' (t_conn x) = conns s (t_conn x) \<and> leaves s' x = leaves s x"
        using fr(2) fresh(4) s' by (auto simp: entry_ok_def leaves_def)
    qed (use ok s' in \<open>simp_all add: srv_ok_def leaves_def\<close>)
    ultimately have "srv_ok (?e # es) s'" using new s' ok m
      by (simp add: srv_ok_def lost_ok_def phase_ok_def)
    then show ?thesis by (auto simp: srv_inv_def)
  qed
qed

lemma thread_of_entry:
  assumes "entries_ok es s" and "tstate s i = Some st" and "st \<noteq> Joined"
  obtains e where "e \<in> set es" "t_id e = i" "entry_ok s e"
proof -
  have "i \<in> t_id ` set es" using assms unfolding entries_ok_def by blast
  then obtain e where "e \<in> set es" "t_id e = i" by blast
  with assms(1) that show thesis by (simp add: entries_ok_def)
qed

text \<open>A thread changes its own entry only.\<close>

lemma entries_ok_thread:
  assumes ok: "entries_ok es s" and e: "e \<in> set es"
    and st: "st = Finished \<or> st = Ending \<and> thread_complete args' \<or> st = Leaving \<and> \<not> thread_complete args'" and args: "conns s (t_conn e) = Some args"
  shows "entries_ok es (s\<lparr>conns := (conns s)(t_conn e \<mapsto> args'), tstate := (tstate s)(t_id e \<mapsto> st)\<rparr>)"
    (is "entries_ok es ?s")
proof -
  have "entry_ok ?s x" if x: "x \<in> set es" for x
  proof (cases "x = e")
    case False
    have xo: "entry_ok s x" using ok x by (simp add: entries_ok_def)
    have "t_conn x \<noteq> t_conn e" "t_id x \<noteq> t_id e"
      using ok False x e by (auto simp: entries_ok_def distinct_map inj_on_def)
    with xo show ?thesis by (simp add: entry_ok_def)
  next
    case True
    have "entry_ok s e" using ok e by (simp add: entries_ok_def)
    with True st show ?thesis by (auto simp: entry_ok_def)
  qed
  with ok e show ?thesis by (auto simp: entries_ok_def)
qed

lemma thread_step_inv:
  assumes ok: "srv_ok es s" and e: "e \<in> set es"
    and st: "st = Finished \<or> st = Ending \<and> thread_complete args' \<or> st = Leaving \<and> \<not> thread_complete args'"
    and args: "conns s (t_conn e) = Some args"
    and fds: "fds_ok es (s\<lparr>client_fds := F, conns := (conns s)(t_conn e \<mapsto> args'), tstate := (tstate s)(t_id e \<mapsto> st)\<rparr>)"
  shows "srv_inv (s\<lparr>client_fds := F, conns := (conns s)(t_conn e \<mapsto> args'), tstate := (tstate s)(t_id e \<mapsto> st)\<rparr>)"
    (is "srv_inv ?s")
proof -
  have "entries_ok es (s\<lparr>conns := (conns s)(t_conn e \<mapsto> args'), tstate := (tstate s)(t_id e \<mapsto> st)\<rparr>)"
    by (rule entries_ok_thread [OF _ e st args]) (use ok in \<open>simp add: srv_ok_def\<close>)
  then have "entries_ok es ?s" by (simp add: entries_ok_def entry_ok_def)
  moreover have "lost es ?s = lost es s" using e by (auto simp: lost_def)
  ultimately have "srv_ok es ?s" using ok fds by (simp add: srv_ok_def lost_ok_def phase_ok_def)
  then show ?thesis by (auto simp: srv_inv_def)
qed

lemma thread_return_inv:
  assumes ok: "srv_ok es s" and st: "tstate s i = Some st" "st \<noteq> Joined" "st \<noteq> Leaving"
  shows "srv_inv (thread_return i s)"
proof -
  have "entries_ok es s" using ok by (simp add: srv_ok_def)
  then obtain e where e: "e \<in> set es" "t_id e = i" "entry_ok s e" using st(1,2) by (rule thread_of_entry)
  then obtain args where args: "conns s (t_conn e) = Some args" by (auto simp: entry_ok_def)
  have eq: "thread_return i s = s\<lparr>client_fds := client_fds s, conns := (conns s)(t_conn e \<mapsto> args),
      tstate := (tstate s)(t_id e \<mapsto> Finished)\<rparr>"
    using e(2) args by (simp add: thread_return_def fun_upd_idem)
  have "fds_ok es (thread_return i s)"
    by (rule fds_ok_cong [of es s]) (use ok st in \<open>auto simp: srv_ok_def thread_return_def leaves_def\<close>)
  with thread_step_inv [OF ok e(1) _ args] show ?thesis unfolding eq by blast
qed

lemma thread_close_inv:
  assumes ok: "srv_ok es s" and st: "tstate s i = Some Running" and cl: "thread_close i s = Some s'"
  shows "srv_inv s'"
proof -
  have "entries_ok es s" using ok by (simp add: srv_ok_def)
  then obtain e where e: "e \<in> set es" "t_id e = i" "entry_ok s e" using st by (rule thread_of_entry) simp
  then obtain args where args: "conns s (t_conn e) = Some args" "\<not> thread_complete args"
    and tg: "targ s i = Some (t_conn e)"
    using st by (auto simp: entry_ok_def)
  have eq: "s' = s\<lparr>client_fds := client_fds s - {client_fd args}, tstate := (tstate s)(t_id e \<mapsto> Leaving)\<rparr>"
    using cl tg args(1) e(2) by (simp add: thread_close_def)
  have same: "s\<lparr>client_fds := F, tstate := ts\<rparr> = s\<lparr>client_fds := F, conns := (conns s)(t_conn e \<mapsto> args), tstate := ts\<rparr>" for F ts
    using args(1) by (simp add: fun_upd_idem)
  have "fds_ok es s'"
    unfolding eq by (rule fds_ok_leave [OF _ _ e(1) args]) (use ok st e(2) in \<open>simp_all add: srv_ok_def\<close>)
  with thread_step_inv [OF ok e(1) _ args(1), of Leaving args] args(2) show ?thesis unfolding eq same by blast
qed

lemma thread_flags_inv:
  assumes ok: "srv_ok es s" and st: "tstate s i = Some Leaving" and fl: "thread_flags i success s = Some s'"
  shows "srv_inv s'"
proof -
  have "entries_ok es s" using ok by (simp add: srv_ok_def)
  then obtain e where e: "e \<in> set es" "t_id e = i" "entry_ok s e" using st by (rule thread_of_entry) simp
  then obtain args where args: "conns s (t_conn e) = Some args" "\<not> thread_complete args"
    and tg: "targ s i = Some (t_conn e)"
    using st by (auto simp: entry_ok_def)
  let ?args = "args\<lparr>thread_complete_success := success, thread_complete := True\<rparr>"
  have eq: "s' = s\<lparr>client_fds := client_fds s, conns := (conns s)(t_conn e \<mapsto> ?args),
      tstate := (tstate s)(t_id e \<mapsto> Ending)\<rparr>"
    using fl tg args(1) e(2) by (simp add: thread_flags_def)
  have "fds_ok es (s\<lparr>conns := (conns s)(t_conn e \<mapsto> ?args), tstate := (tstate s)(t_id e \<mapsto> Ending)\<rparr>)"
    by (rule fds_ok_flags [OF _ _ e(1) args(1)]) (use ok st e(2) in \<open>simp_all add: srv_ok_def\<close>)
  then have "fds_ok es s'" unfolding eq by simp
  moreover have "thread_complete ?args" by simp
  ultimately show ?thesis using thread_step_inv [OF ok e(1) _ args(1), of Ending ?args] unfolding eq by blast
qed

lemma srv_step_inv:
  assumes "srv_step s s'" and "srv_inv s"
  shows "srv_inv s'"
proof -
  obtain es where ok: "srv_ok es s" using assms(2) by (auto simp: srv_inv_def)
  then have ent: "entries_ok es s" by (simp add: srv_ok_def)
  have invI: "srv_inv s'" if "srv_ok es s'" using that by (auto simp: srv_inv_def)
  from assms(1) show ?thesis
  proof (cases rule: srv_step_cases)
    case srv_quit
    with ok have "srv_ok es s'" by (auto simp: srv_ok_def lost_ok_def phase_ok_def intro!: fds_ok_phase)
    then show ?thesis by (rule invI)
  next
    case srv_pass
    with ok have "lost es s = ({}, {})" "mutex_block s \<noteq> NULL" and fds: "fds_ok es s"
      by (auto simp: srv_ok_def lost_ok_def phase_ok_def)
    moreover have "fds_ok es s'" unfolding srv_pass(3) by (rule fds_ok_phase [OF fds]) (use srv_pass in auto)
    ultimately have "srv_ok es s'"
      using ent srv_pass(3) phase_ok_Reap [of s "[]" es] entries_ok_first [OF ent] by (simp add: srv_ok_def lost_ok_def)
    then show ?thesis by (rule invI)
  next
    case (srv_reap a)
    then show ?thesis using reap_step_inv ok by blast
  next
    case srv_pass_end
    with ok have "srv_ok es s'" by (auto simp: srv_ok_def lost_ok_def phase_ok_def intro!: fds_ok_phase)
    then show ?thesis by (rule invI)
  next
    case srv_accept_none
    with ok have "srv_ok es s'" by (auto simp: srv_ok_def lost_ok_def phase_ok_def intro!: fds_ok_phase)
    then show ?thesis by (rule invI)
  next
    case (srv_accept fd tData thr datap i rc peer len)
    then show ?thesis using accept_client_inv ok by blast
  next
    case srv_close
    then obtain e vs where "es = e # vs" using entries_ok_Nil_iff [OF ent] by (cases es) auto
    then show ?thesis using drain_close_inv ok srv_close by blast
  next
    case (srv_join a)
    then show ?thesis using drain_join_inv ok by blast
  next
    case srv_end
    then have "es = []" using entries_ok_Nil_iff [OF ent] by simp
    with ok srv_end have "srv_ok es s'"
      by (simp add: srv_ok_def lost_ok_def fds_ok_def phase_ok_def run_server_end_def)
    then show ?thesis by (rule invI)
  next
    case (srv_signal sig)
    with ok have "srv_ok es s'"
      by (auto simp: srv_ok_def lost_ok_def phase_ok_def shutdown_handler_def fds_ok_quit)
    then show ?thesis by (rule invI)
  next
    case (thr_close i)
    then show ?thesis using thread_close_inv ok by blast
  next
    case (thr_flags i success)
    then show ?thesis using thread_flags_inv ok by blast
  next
    case (thr_return i)
    then show ?thesis using thread_return_inv [OF ok] by blast
  next
    case (thr_open_failed i)
    then show ?thesis using thread_return_inv [OF ok] by blast
  qed
qed

lemma srv_init_inv:
  assumes "srv_init s"
  shows "srv_inv s"
proof -
  obtain m rc where "s = run_server_start m rc srv_blank" using assms by (auto simp: srv_init_def)
  then have "srv_ok [] s"
    by (cases m) (auto simp: run_server_start_def srv_blank_def srv_ok_def entries_ok_def lost_ok_def fds_ok_def
        lost_def phase_ok_def slist_holds_def SLIST_INIT_def Let_def)
  then show ?thesis by (auto simp: srv_inv_def)
qed

interpretation srv: invariant_system srv_init srv_step srv_inv
  by unfold_locales (use srv_init_inv srv_step_inv in auto)

section \<open>The main thread gets through\<close>

lemma reap_step_total:
  assumes ok: "srv_ok es s" and ph: "phase s = Reap (Some a)" and fin: "\<forall>i. tstate s i \<noteq> Some Ending"
  shows "reap_step a s \<noteq> None"
proof -
  from ok ph obtain us vs where es: "es = us @ vs" "Some a = (case vs of [] \<Rightarrow> NULL | v # _ \<Rightarrow> Some (t_node v))"
    by (auto simp: srv_ok_def phase_ok_def)
  then obtain e vs' where vs: "vs = e # vs'" and a: "a = t_node e" by (cases vs) auto
  have ent: "entries_ok (us @ e # vs') s" using ok es vs by (simp add: srv_ok_def)
  then have eo: "entry_ok s e" by (simp add: entries_ok_def)
  then obtain args where args: "conns s (t_conn e) = Some args" by (auto simp: entry_ok_def)
  have "thread_complete args \<Longrightarrow> tstate s (t_id e) = Some Finished"
    using eo args fin by (auto simp: entry_ok_def)
  from reap_body_result [OF ent args this] have "reap_body a s \<noteq> None" using a by (auto split: if_splits)
  with entries_ok_next [OF ent] a show ?thesis by (auto simp: reap_step_def)
qed

text \<open>Every unjoined thread has returned.\<close>

definition all_returned :: "server \<Rightarrow> bool" where
  "all_returned s \<longleftrightarrow> (\<forall>i st. tstate s i = Some st \<longrightarrow> st = Finished \<or> st = Joined)"

lemma drain_one:
  assumes ok: "entries_ok (e # vs) s" and fin: "all_returned s" and ph: "phase s = Drain"
  shows "\<exists>s'. srv_step\<^sup>*\<^sup>* s s' \<and> entries_ok vs s' \<and> all_returned s' \<and> phase s' = Drain"
proof -
  obtain fds where cl: "drain_close s = Some (s\<lparr>client_fds := fds, phase := Join (t_node e)\<rparr>)" (is "_ = Some ?s")
    using drain_close_result [OF ok] by blast
  have "entry_ok s e" using ok by (simp add: entries_ok_def)
  then have "tstate ?s (t_id e) = Some Finished" using fin by (auto simp: entry_ok_def all_returned_def)
  with ok drain_join_result [of e vs ?s] obtain l where
    jn: "drain_join (t_node e) ?s = Some ((released e l ?s)\<lparr>phase := Drain\<rparr>)" (is "_ = Some ?t")
    and ent: "entries_ok vs (released e l ?s)" by auto
  have "srv_step s ?s" using srv_close [OF ph _ cl] entries_ok_Nil_iff [OF ok] by simp
  moreover have "srv_step ?s ?t" using srv_join [OF _ jn] by simp
  moreover have "all_returned ?t"
    using fin by (auto simp: all_returned_def released_def)
  ultimately show ?thesis using ent by (intro exI [of _ ?t]) auto
qed

lemma drain_join_total:
  assumes ok: "srv_ok es s" and ph: "phase s = Join a"
    and fin: "\<forall>i st. tstate s i = Some st \<longrightarrow> st = Finished \<or> st = Joined"
  shows "drain_join a s \<noteq> None"
proof -
  obtain e vs where es: "es = e # vs" "a = t_node e" using ok ph by (auto simp: srv_ok_def phase_ok_def)
  then have ent: "entries_ok (e # vs) s" using ok by (simp add: srv_ok_def)
  then have "entry_ok s e" by (simp add: entries_ok_def)
  with fin have "tstate s (t_id e) = Some Finished" by (auto simp: entry_ok_def)
  with drain_join_result [OF ent] es show ?thesis by auto
qed

lemma drain_close_total:
  assumes ok: "srv_ok es s" and ne: "\<not> SLIST_EMPTY (thread_list s)"
  shows "drain_close s \<noteq> None"
proof -
  have ent: "entries_ok es s" using ok by (simp add: srv_ok_def)
  then obtain e vs where "es = e # vs" using entries_ok_Nil_iff [OF ent] ne by (cases es) auto
  with drain_close_result [of e vs s] ent show ?thesis by auto
qed

text \<open>The start of a connection goes wrong when its list node cannot be allocated.\<close>

lemma accept_client_total:
  assumes "srv_ok es s" and "phase s = Accept"
  shows "accept_client tData thr rc i datap fd peer len s = None \<longleftrightarrow>
    tData \<noteq> NULL \<and> thr \<noteq> NULL \<and> rc = 0 \<and> datap = NULL"
proof -
  obtain m where "mutex_block s = Some m" using assms by (auto simp: srv_ok_def phase_ok_def)
  then show ?thesis
    by (cases datap) (auto simp: accept_client_def Let_def SLIST_INSERT_HEAD_def set_next_def split: option.split)
qed

text \<open>The final loop takes one iteration per element and then ends.\<close>

lemma drain_all:
  assumes "entries_ok es s" and "all_returned s" and "phase s = Drain"
  shows "\<exists>s'. srv_step\<^sup>*\<^sup>* s s' \<and> phase s' = Exited 0"
  using assms
proof (induction es arbitrary: s)
  case Nil
  then have "srv_step s (run_server_end s)" using entries_ok_Nil_iff by (intro srv_end) auto
  moreover have "phase (run_server_end s) = Exited 0" by (simp add: run_server_end_def)
  ultimately show ?case by blast
next
  case (Cons e es)
  from drain_one [OF Cons.prems] Cons.IH show ?case by (meson rtranclp_trans)
qed

text \<open>Joining and freeing leave the flag and the place of the main thread alone.\<close>

lemma reap_free_stops:
  "pthread_join i s = Some s' \<Longrightarrow> dom (tstate s') = dom (tstate s) \<and> quit s' = quit s \<and> phase s' = phase s"
  "free_thread p s = Some s' \<Longrightarrow> tstate s' = tstate s \<and> quit s' = quit s \<and> phase s' = phase s"
  "free_connection p s = Some s' \<Longrightarrow> tstate s' = tstate s \<and> quit s' = quit s \<and> phase s' = phase s"
  by (auto simp: pthread_join_def free_thread_def free_connection_def split: option.splits if_splits)

lemma drain_stops:
  "drain_close s = Some s' \<Longrightarrow> tstate s' = tstate s \<and> quit s' = quit s \<and> (\<exists>a. phase s' = Join a)"
  "drain_join a s = Some s' \<Longrightarrow> dom (tstate s') = dom (tstate s) \<and> quit s' = quit s \<and> phase s' = Drain"
  by (clarsimp simp: drain_close_def drain_join_def bind_eq_Some_conv dest!: reap_free_stops)+

text \<open>After \<open>quit\<close> has been set, no step leads back to the body of the loop.\<close>

lemma stopping_step:
  assumes "srv_step s s'" and "quit s" and "phase s \<in> stopping"
  shows "quit s' \<and> dom (tstate s') = dom (tstate s) \<and> phase s' \<in> stopping"
  using assms
proof (cases rule: srv_step_cases)
  case srv_close
  with drain_stops(1) [of s s'] assms(2) show ?thesis by auto
next
  case (srv_join a)
  with drain_stops(2) [of a s s'] assms(2) show ?thesis by simp
qed (auto simp: run_server_end_def thread_close_def thread_flags_def thread_return_def shutdown_handler_def
    bind_eq_Some_conv split: if_split_asm)

lemma no_start_after_quit:
  assumes "srv_step\<^sup>*\<^sup>* s s'" and "quit s" and "phase s = Check"
  shows "quit s' \<and> dom (tstate s') = dom (tstate s) \<and> phase s' \<in> stopping"
  using assms(1)
proof (induction rule: rtranclp_induct)
  case base
  show ?case using assms by simp
next
  case (step s1 s2)
  then show ?case using stopping_step [OF step.hyps(2)] by simp
qed

lemma server_shutdown_ends:
  assumes "srv_init s0" and "srv_step\<^sup>*\<^sup>* s0 s" and "phase s = Check" and "quit s" and "all_returned s"
  shows "\<exists>s'. srv_step\<^sup>*\<^sup>* s s' \<and> phase s' = Exited 0"
proof -
  obtain es where ok: "entries_ok es s"
    using srv.reachable_inv [OF assms(1,2)] by (auto simp: srv_inv_def srv_ok_def)
  have step: "srv_step s (s\<lparr>phase := Drain\<rparr>)" using assms(3,4) by (rule srv_quit)
  have "\<exists>s'. srv_step\<^sup>*\<^sup>* (s\<lparr>phase := Drain\<rparr>) s' \<and> phase s' = Exited 0"
    by (rule drain_all [of es]) (use ok assms(5) in \<open>simp_all add: all_returned_def\<close>)
  with step show ?thesis by (meson converse_rtranclp_into_rtranclp)
qed

section \<open>A pass over the list\<close>

lemma foreach_reap:
  assumes "entries_ok (us @ vs) s" and "\<forall>i. tstate s i \<noteq> Some Ending"
  shows "\<exists>s'. SLIST_FOREACH_SAFE thread_list reap_body (case vs of [] \<Rightarrow> NULL | v # _ \<Rightarrow> Some (t_node v)) s = Some s' \<and>
    entries_ok (us @ filter (\<lambda>e. \<not> complete s e) vs) s'"
  using assms
proof (induction vs arbitrary: us s)
  case Nil
  then show ?case by (subst SLIST_FOREACH_SAFE.simps) simp
next
  case (Cons e vs)
  note ent = Cons.prems(1) and fin = Cons.prems(2)
  have eo: "entry_ok s e" using ent by (simp add: entries_ok_def)
  then obtain args where args: "conns s (t_conn e) = Some args" by (auto simp: entry_ok_def)
  have "thread_complete args \<Longrightarrow> tstate s (t_id e) = Some Finished"
    using eo args fin by (auto simp: entry_ok_def)
  note body = reap_body_result [OF ent args this]
  let ?tmp = "case vs of [] \<Rightarrow> NULL | v # _ \<Rightarrow> Some (t_node v)"
  have loop: "SLIST_FOREACH_SAFE thread_list reap_body (Some (t_node e)) s =
      SLIST_FOREACH_SAFE thread_list reap_body ?tmp s1" if "reap_body (t_node e) s = Some s1" for s1
    using that entries_ok_next [OF ent] by (subst SLIST_FOREACH_SAFE.simps) simp
  show ?case
  proof (cases "thread_complete args")
    case True
    with body obtain l where l: "reap_body (t_node e) s = Some (released e l s)"
      "entries_ok (us @ vs) (released e l s)" by auto
    have fin': "\<forall>i. tstate (released e l s) i \<noteq> Some Ending" using fin by (simp add: released_def)
    have same: "complete (released e l s) x = complete s x" if "x \<in> set vs" for x
      using entries_ok_distinct(2) [OF ent, of x] that by (simp add: complete_def released_def)
    have filt: "filter (\<lambda>x. \<not> complete (released e l s) x) vs = filter (\<lambda>x. \<not> complete s x) (e # vs)"
      using True args same by (simp add: complete_def cong: filter_cong)
    from Cons.IH [OF l(2) fin'] filt loop [OF l(1)] show ?thesis by simp
  next
    case False
    with body have same: "reap_body (t_node e) s = Some s" by simp
    have "entries_ok ((us @ [e]) @ vs) s" using ent by simp
    from Cons.IH [OF this fin] loop [OF same] False args show ?thesis by (simp add: complete_def)
  qed
qed

end
