(* ===== verification/Thread_Steps.thy ===== *)
theory Thread_Steps
  imports Connection_Contract
begin

text \<open>
  The connection thread one system call at a time. \<open>connection_thread\<close> is a function on the world;
  here the same code is a machine whose control points are the places before its system
  calls, so that the steps of several threads can be interleaved. \<open>resume\<close> is what is left to do at a
  control point, as a function again: a step does not change it. The machine and the function
  give the same results.
\<close>

section \<open>The machine\<close>

text \<open>
  Before the lock; before \<open>open\<close>; before the unlock after a failed \<open>open\<close> and before the return after it;
  in \<open>recv_messages\<close> before \<open>recv\<close>, \<open>ioctl\<close> and \<open>write\<close>; in \<open>send_messages\<close> before \<open>read\<close> and \<open>send\<close>;
  after a failure before the close of the client, the flags, the close of the device and the unlock;
  after a success before the close of the device, the unlock, the close of the client and the flags; before the
  return, and after it. The descriptor of the device is part of the point.
\<close>

datatype point =
    At_lock | At_open | At_open_unlock | At_exit
  | At_recv c_int | At_ioctl c_int aesd_seekto ssize_t | At_write c_int "byte list" ssize_t
  | At_read c_int | At_send c_int "byte list" c_int
  | At_fail_client c_int | At_fail_flags c_int | At_fail_close c_int | At_fail_unlock
  | At_close c_int | At_unlock | At_client | At_flags | At_return | Returned

record thread_state =
  point :: point
  recv_buffer :: "byte list"
  send_buffer :: "byte list"

text \<open>The end of a round of \<open>recv_messages\<close>.\<close>

definition after_round :: "c_int \<Rightarrow> ssize_t \<Rightarrow> point" where
  "after_round out n = (if int BUFFER_SIZE \<le> sint n then At_recv out else At_read out)"

definition step_recv ::
    "'w env \<Rightarrow> c_int \<Rightarrow> c_int \<Rightarrow> thread_state \<Rightarrow> 'w \<Rightarrow> (thread_state \<times> 'w) option" where
  "step_recv E cl out t w =
     do { let buf = replicate BUFFER_SIZE 0 @ drop BUFFER_SIZE (recv_buffer t);
          (n, bs, w) \<leftarrow> sys_recv E cl BUFFER_SIZE w;
          buf \<leftarrow> fill buf bs;
          let t = t\<lparr>recv_buffer := buf\<rparr>;
          if n = 0 then Some (t\<lparr>point := At_fail_client out\<rparr>, w)
          else if sint n < 0 then Some (t\<lparr>point := At_fail_client out\<rparr>, w)
          else do {
            ptr \<leftarrow> memchr buf newline (unat n);
            let index = (case ptr of Some i \<Rightarrow> (of_nat i :: c_int) | None \<Rightarrow> ucast (n - 1));
            (is_ioctl, sk) \<leftarrow> check_for_ioctl_command \<lparr>write_cmd = 0, write_cmd_offset = 0\<rparr> buf n;
            if is_ioctl = 0 then Some (t\<lparr>point := At_ioctl out sk n\<rparr>, w)
            else do {
              bs \<leftarrow> first_bytes buf (unat (scast (index + 1) :: size_t));
              Some (t\<lparr>point := At_write out bs n\<rparr>, w) } } }"

definition step_read ::
    "'w env \<Rightarrow> c_int \<Rightarrow> thread_state \<Rightarrow> 'w \<Rightarrow> (thread_state \<times> 'w) option" where
  "step_read E out t w =
     do { (ret, bs, w) \<leftarrow> sys_read E out BUFFER_SIZE w;
          buf \<leftarrow> fill (send_buffer t) bs;
          let t = t\<lparr>send_buffer := buf\<rparr>;
          let n = (ucast ret :: c_int);
          if sint n < 0 then Some (t\<lparr>point := At_fail_client out\<rparr>, w)
          else do { bs \<leftarrow> first_bytes buf (unat n); Some (t\<lparr>point := At_send out bs n\<rparr>, w) } }"

text \<open>
  One step: the arguments of the thread, its control state and the world. (The thread clears
  \<open>thread_complete\<close> before it locks the mutex; the arguments come with the flag cleared, and the
  assignment is part of the step of the lock. The two assignments at the end are one step too:
  the main thread looks at the second flag only.)
\<close>

definition thread_step ::
    "'w env \<Rightarrow> connection_thread_args \<Rightarrow> thread_state \<Rightarrow> 'w \<Rightarrow> (connection_thread_args \<times> thread_state \<times> 'w) option" where
  "thread_step E a t w =
     (case point t of
        At_lock \<Rightarrow> do { w \<leftarrow> lock_mutex E (file_mutex a) w;
                        Some (a\<lparr>thread_complete := False\<rparr>, t\<lparr>point := At_open\<rparr>, w) }
      | At_open \<Rightarrow> do { (out, w) \<leftarrow> sys_open E w;
                        Some (a, t\<lparr>point := (if sint out < 0 then At_open_unlock else At_recv out)\<rparr>, w) }
      | At_open_unlock \<Rightarrow> do { w \<leftarrow> unlock_mutex E (file_mutex a) w; Some (a, t\<lparr>point := At_exit\<rparr>, w) }
      | At_exit \<Rightarrow> Some (a, t\<lparr>point := Returned\<rparr>, w)
      | At_recv out \<Rightarrow> do { (t, w) \<leftarrow> step_recv E (client_fd a) out t w; Some (a, t, w) }
      | At_ioctl out sk n \<Rightarrow> do { (rc, w) \<leftarrow> sys_ioctl E out AESDCHAR_IOCSEEKTO sk w;
                        Some (a, t\<lparr>point := (if sint rc < 0 then At_fail_client out else after_round out n)\<rparr>, w) }
      | At_write out bs n \<Rightarrow> do { (ret, w) \<leftarrow> sys_write E out bs w;
                        Some (a, t\<lparr>point := (if (ucast ret :: c_int) = - 1 then At_fail_client out else after_round out n)\<rparr>, w) }
      | At_read out \<Rightarrow> do { (t, w) \<leftarrow> step_read E out t w; Some (a, t, w) }
      | At_send out bs n \<Rightarrow> do { (ret, w) \<leftarrow> sys_send E (client_fd a) bs w;
                        Some (a, t\<lparr>point := (if sint (ucast ret :: c_int) < 0 then At_fail_client out
                          else if int BUFFER_SIZE \<le> sint n then At_read out
                          else if 0 < sint n then At_read out else At_close out)\<rparr>, w) }
      | At_fail_client out \<Rightarrow> do { w \<leftarrow> sys_close E (client_fd a) w; Some (a, t\<lparr>point := At_fail_flags out\<rparr>, w) }
      | At_fail_flags out \<Rightarrow>
          Some (a\<lparr>thread_complete_success := False, thread_complete := True\<rparr>, t\<lparr>point := At_fail_close out\<rparr>, w)
      | At_fail_close out \<Rightarrow> do { w \<leftarrow> sys_close E out w; Some (a, t\<lparr>point := At_fail_unlock\<rparr>, w) }
      | At_fail_unlock \<Rightarrow> do { w \<leftarrow> unlock_mutex E (file_mutex a) w; Some (a, t\<lparr>point := At_return\<rparr>, w) }
      | At_close out \<Rightarrow> do { w \<leftarrow> sys_close E out w; Some (a, t\<lparr>point := At_unlock\<rparr>, w) }
      | At_unlock \<Rightarrow> do { w \<leftarrow> unlock_mutex E (file_mutex a) w; Some (a, t\<lparr>point := At_client\<rparr>, w) }
      | At_client \<Rightarrow> do { w \<leftarrow> sys_close E (client_fd a) w; Some (a, t\<lparr>point := At_flags\<rparr>, w) }
      | At_flags \<Rightarrow>
          Some (a\<lparr>thread_complete_success := True, thread_complete := True\<rparr>, t\<lparr>point := At_return\<rparr>, w)
      | At_return \<Rightarrow> Some (a, t\<lparr>point := Returned\<rparr>, w)
      | Returned \<Rightarrow> None)"

definition thread_start :: "byte list \<Rightarrow> byte list \<Rightarrow> thread_state" where
  "thread_start rb sb = \<lparr>point = At_lock, recv_buffer = rb, send_buffer = sb\<rparr>"

section \<open>What is left to do\<close>

definition finish :: "'w env \<Rightarrow> c_int \<Rightarrow> connection_thread_args \<Rightarrow> c_int \<Rightarrow> 'w \<Rightarrow> (connection_thread_args \<times> 'w) option" where
  "finish E out a rc w =
     (if rc = - 1 then connection_failed E out a w
      else do { w \<leftarrow> sys_close E out w;
                w \<leftarrow> unlock_mutex E (file_mutex a) w;
                w \<leftarrow> sys_close E (client_fd a) w;
                Some (a\<lparr>thread_complete_success := True, thread_complete := True\<rparr>, w) })"

definition send_on ::
    "'w env \<Rightarrow> c_int \<Rightarrow> connection_thread_args \<Rightarrow> (c_int + c_int) \<Rightarrow> byte list \<Rightarrow> 'w \<Rightarrow> (connection_thread_args \<times> 'w) option" where
  "send_on E out a r sb w =
     (case r of
        Inl rc \<Rightarrow> finish E out a rc w
      | Inr n \<Rightarrow> do { (rc, sb, w) \<leftarrow> send_loop E sb (client_fd a) out n w; finish E out a rc w })"

definition recv_on ::
    "'w env \<Rightarrow> c_int \<Rightarrow> connection_thread_args \<Rightarrow> byte list \<Rightarrow> c_int \<Rightarrow> 'w \<Rightarrow> (connection_thread_args \<times> 'w) option" where
  "recv_on E out a sb rc w =
     (if rc = - 1 then connection_failed E out a w
      else do { (rc, sb, w) \<leftarrow> send_messages E sb (client_fd a) out w; finish E out a rc w })"

definition round_on ::
    "'w env \<Rightarrow> c_int \<Rightarrow> connection_thread_args \<Rightarrow> byte list \<Rightarrow> byte list \<Rightarrow> (c_int + ssize_t) \<Rightarrow> 'w \<Rightarrow>
     (connection_thread_args \<times> 'w) option" where
  "round_on E out a rb sb r w =
     (case r of
        Inl rc \<Rightarrow> recv_on E out a sb rc w
      | Inr n \<Rightarrow>
          if int BUFFER_SIZE \<le> sint n
          then do { (rc, rb, w) \<leftarrow> recv_messages E rb (client_fd a) out w; recv_on E out a sb rc w }
          else recv_on E out a sb 0 w)"

definition resume ::
    "'w env \<Rightarrow> connection_thread_args \<Rightarrow> thread_state \<Rightarrow> 'w \<Rightarrow> (connection_thread_args \<times> 'w) option" where
  "resume E a t w =
     (let rb = recv_buffer t; sb = send_buffer t; cl = client_fd a in
      case point t of
        At_lock \<Rightarrow> connection_thread E rb sb a w
      | At_open \<Rightarrow>
          do { (out, w) \<leftarrow> sys_open E w;
               if sint out < 0 then do { w \<leftarrow> unlock_mutex E (file_mutex a) w; Some (a, w) }
               else do { (rc, rb, w) \<leftarrow> recv_messages E rb cl out w; recv_on E out a sb rc w } }
      | At_open_unlock \<Rightarrow> do { w \<leftarrow> unlock_mutex E (file_mutex a) w; Some (a, w) }
      | At_exit \<Rightarrow> Some (a, w)
      | At_recv out \<Rightarrow> do { (rc, rb, w) \<leftarrow> recv_messages E rb cl out w; recv_on E out a sb rc w }
      | At_ioctl out sk n \<Rightarrow>
          do { (rc, w) \<leftarrow> sys_ioctl E out AESDCHAR_IOCSEEKTO sk w;
               round_on E out a rb sb (if sint rc < 0 then Inl (- 1) else Inr n) w }
      | At_write out bs n \<Rightarrow>
          do { (ret, w) \<leftarrow> sys_write E out bs w;
               round_on E out a rb sb (if (ucast ret :: c_int) = - 1 then Inl (- 1) else Inr n) w }
      | At_read out \<Rightarrow> do { (r, sb, w) \<leftarrow> send_burst E sb cl out w; send_on E out a r sb w }
      | At_send out bs n \<Rightarrow>
          do { (ret, w) \<leftarrow> sys_send E cl bs w;
               if sint (ucast ret :: c_int) < 0 then finish E out a (- 1) w
               else if int BUFFER_SIZE \<le> sint n
               then do { (r, sb, w) \<leftarrow> send_burst E sb cl out w; send_on E out a r sb w }
               else send_on E out a (Inr n) sb w }
      | At_fail_client out \<Rightarrow> connection_failed E out a w
      | At_fail_flags out \<Rightarrow>
          do { w \<leftarrow> sys_close E out w;
               w \<leftarrow> unlock_mutex E (file_mutex a) w;
               Some (a\<lparr>thread_complete_success := False, thread_complete := True\<rparr>, w) }
      | At_fail_close out \<Rightarrow>
          do { w \<leftarrow> sys_close E out w; w \<leftarrow> unlock_mutex E (file_mutex a) w; Some (a, w) }
      | At_fail_unlock \<Rightarrow> do { w \<leftarrow> unlock_mutex E (file_mutex a) w; Some (a, w) }
      | At_close out \<Rightarrow> finish E out a 0 w
      | At_unlock \<Rightarrow>
          do { w \<leftarrow> unlock_mutex E (file_mutex a) w;
               w \<leftarrow> sys_close E cl w;
               Some (a\<lparr>thread_complete_success := True, thread_complete := True\<rparr>, w) }
      | At_client \<Rightarrow>
          do { w \<leftarrow> sys_close E cl w; Some (a\<lparr>thread_complete_success := True, thread_complete := True\<rparr>, w) }
      | At_flags \<Rightarrow> Some (a\<lparr>thread_complete_success := True, thread_complete := True\<rparr>, w)
      | At_return \<Rightarrow> Some (a, w)
      | Returned \<Rightarrow> Some (a, w))"

section \<open>A step does not change what is left to do\<close>

lemma recv_messages_on:
  "do { (rc, rb, w) \<leftarrow> recv_messages E rb cl out w; recv_on E out a sb rc w } =
   do { (r, rb, w) \<leftarrow> recv_round E rb cl out w; round_on E out a rb sb r w }" if "cl = client_fd a"
  unfolding that
  by (subst recv_messages.simps) (auto simp: round_on_def Option.bind_assoc split: sum.split intro!: Option.bind_cong)

lemma connection_thread_on:
  "connection_thread E rb sb a w =
     do { w \<leftarrow> lock_mutex E (file_mutex a) w;
          resume E (a\<lparr>thread_complete := False\<rparr>) \<lparr>point = At_open, recv_buffer = rb, send_buffer = sb\<rparr> w }"
  by (auto simp: connection_thread_def resume_def recv_on_def finish_def Let_def intro!: Option.bind_cong)

lemma resume_recv:
  assumes "point t = At_recv out"
  shows "resume E a t w = do { (t, w) \<leftarrow> step_recv E (client_fd a) out t w; resume E a t w }"
proof -
  have "resume E a t w = do { (r, rb, w) \<leftarrow> recv_round E (recv_buffer t) (client_fd a) out w;
      round_on E out a rb (send_buffer t) r w }"
    using assms by (simp add: resume_def recv_messages_on)
  also have "\<dots> = do { (t, w) \<leftarrow> step_recv E (client_fd a) out t w; resume E a t w }"
    by (auto simp: recv_round_def step_recv_def resume_def round_on_def recv_on_def Let_def intro!: Option.bind_cong
        split: prod.split if_split)
  finally show ?thesis .
qed

lemma resume_read:
  assumes "point t = At_read out"
  shows "resume E a t w = do { (t, w) \<leftarrow> step_read E out t w; resume E a t w }"
  using assms
  by (subst resume_def) (auto simp: send_burst.simps [of E "send_buffer t"] step_read_def Let_def resume_def send_on_def finish_def
      intro!: Option.bind_cong split: prod.split if_split)

lemma send_loop_on:
  "send_on E out a (Inr n) sb w =
     (if 0 < sint n
      then do { (r, sb, w) \<leftarrow> send_burst E sb (client_fd a) out w; send_on E out a r sb w }
      else finish E out a 0 w)"
  unfolding send_on_def sum.case
  by (subst send_loop.simps) (auto simp: Option.bind_assoc split: sum.split intro!: Option.bind_cong)

lemma recv_on_send:
  "recv_on E out a sb 0 w = do { (r, sb, w) \<leftarrow> send_burst E sb (client_fd a) out w; send_on E out a r sb w }"
proof -
  have "recv_on E out a sb 0 w = send_on E out a (Inr (of_nat BUFFER_SIZE)) sb w"
    by (simp add: recv_on_def send_messages_def send_on_def)
  also have "\<dots> = do { (r, sb, w) \<leftarrow> send_burst E sb (client_fd a) out w; send_on E out a r sb w }"
    by (subst send_loop_on) (simp add: BUFFER_SIZE_def)
  finally show ?thesis .
qed

lemma round_on_point:
  "round_on E out a (recv_buffer t) (send_buffer t) (if bad then Inl (- 1) else Inr n) w =
   resume E a (t\<lparr>point := (if bad then At_fail_client out else after_round out n)\<rparr>) w"
  by (simp add: round_on_def after_round_def resume_def recv_on_send) (simp add: recv_on_def)

lemma resume_points:
  "resume E a (t\<lparr>point := At_fail_client out\<rparr>) w = finish E out a (- 1) w"
  "resume E a (t\<lparr>point := At_read out\<rparr>) w =
     do { (r, sb, w) \<leftarrow> send_burst E (send_buffer t) (client_fd a) out w; send_on E out a r sb w }"
  "resume E a (t\<lparr>point := At_close out\<rparr>) w = finish E out a 0 w"
  by (simp_all add: resume_def finish_def)

lemma resume_step:
  assumes "point t \<noteq> Returned"
  shows "resume E a t w = do { (a, t, w) \<leftarrow> thread_step E a t w; resume E a t w }"
proof (cases "point t")
  case At_lock
  have t: "\<lparr>point = At_open, recv_buffer = recv_buffer t, send_buffer = send_buffer t\<rparr> = t\<lparr>point := At_open\<rparr>" by simp
  from At_lock show ?thesis
    by (simp add: thread_step_def connection_thread_on t resume_def [of E a t])
next
  case (At_recv out)
  then show ?thesis
    by (subst resume_recv [OF At_recv]) (auto simp: thread_step_def Option.bind_assoc intro!: Option.bind_cong)
next
  case (At_read out)
  then show ?thesis
    by (subst resume_read [OF At_read]) (auto simp: thread_step_def Option.bind_assoc intro!: Option.bind_cong)
next
  case (At_ioctl out sk n)
  then show ?thesis
    by (auto simp: thread_step_def resume_def [of E a t] round_on_point [symmetric] Option.bind_assoc
        simp del: if_split intro!: Option.bind_cong)
next
  case (At_write out bs n)
  then show ?thesis
    by (auto simp: thread_step_def resume_def [of E a t] round_on_point [symmetric] Option.bind_assoc
        simp del: if_split intro!: Option.bind_cong)
next
  case (At_send out bs n)
  then show ?thesis
    by (auto simp: thread_step_def resume_def [of E a t] resume_points send_loop_on Let_def Option.bind_assoc
        intro!: Option.bind_cong)
qed (use assms in \<open>auto simp: thread_step_def resume_def finish_def connection_failed_def Let_def intro!: Option.bind_cong\<close>)

section \<open>The machine runs as far as the function goes\<close>

type_synonym 'w config = "connection_thread_args \<times> thread_state \<times> 'w"

definition thread_move :: "'w env \<Rightarrow> 'w config \<Rightarrow> 'w config \<Rightarrow> bool" where
  "thread_move E = (\<lambda>(a, t, w) y. thread_step E a t w = Some y)"

abbreviation moves :: "'w env \<Rightarrow> 'w config \<Rightarrow> 'w config \<Rightarrow> bool" where
  "moves E \<equiv> (thread_move E)\<^sup>*\<^sup>*"

lemma moves_one: "thread_step E a t w = Some y \<Longrightarrow> moves E (a, t, w) y"
  by (auto simp: thread_move_def)

lemma moves_step: "thread_step E a t w = Some y \<Longrightarrow> moves E y z \<Longrightarrow> moves E (a, t, w) z"
  by (meson moves_one rtranclp_trans)

lemma moves_resume:
  assumes "moves E (a, t, w) (a', t', w')"
  shows "resume E a t w = resume E a' t' w'"
proof -
  have "case x of (a, t, w) \<Rightarrow> case y of (a', t', w') \<Rightarrow> resume E a t w = resume E a' t' w'" if "moves E x y" for x y
    using that
  proof (induction rule: rtranclp_induct)
    case base
    show ?case by (auto split: prod.split)
  next
    case (step y z)
    obtain a t w a' t' w' where yz: "y = (a, t, w)" "z = (a', t', w')" by (cases y, cases z)
    have st: "thread_step E a t w = Some (a', t', w')" using step.hyps(2) yz by (simp add: thread_move_def)
    then have "point t \<noteq> Returned" by (auto simp: thread_step_def)
    from resume_step [OF this, of E a w] st step.IH yz show ?case by (auto split: prod.split)
  qed
  from this [OF assms] show ?thesis by simp
qed

text \<open>Receiving.\<close>

lemma round_moves:
  assumes round: "recv_round E rb cl out w = Some (r, rb', w')"
    and t: "client_fd a = cl" "recv_buffer t = rb" "point t = At_recv out"
  shows "moves E (a, t, w)
      (a, t\<lparr>recv_buffer := rb', point := (case r of Inl _ \<Rightarrow> At_fail_client out | Inr n \<Rightarrow> after_round out n)\<rparr>, w') \<and>
    (case r of Inl rc \<Rightarrow> rc = - 1 | Inr _ \<Rightarrow> True)"
proof -
  let ?buf = "replicate BUFFER_SIZE 0 @ drop BUFFER_SIZE rb"
  obtain n bs w1 buf where recv: "sys_recv E cl BUFFER_SIZE w = Some (n, bs, w1)" "fill ?buf bs = Some buf"
    using round by (auto simp: recv_round_def bind_eq_Some_conv Let_def)
  show ?thesis
  proof (cases "n = 0 \<or> sint n < 0")
    case True
    then have "r = Inl (- 1)" "rb' = buf" "w' = w1" using round recv by (auto simp: recv_round_def Let_def split: if_splits)
    moreover have "thread_step E a t w = Some (a, t\<lparr>recv_buffer := buf, point := At_fail_client out\<rparr>, w1)"
      using True t recv by (auto simp: thread_step_def step_recv_def Let_def)
    ultimately show ?thesis by (simp add: moves_one)
  next
    case False
    then obtain ptr rc sk where chk: "memchr buf newline (unat n) = Some ptr"
      "check_for_ioctl_command \<lparr>write_cmd = 0, write_cmd_offset = 0\<rparr> buf n = Some (rc, sk)"
      using round recv by (auto simp: recv_round_def bind_eq_Some_conv Let_def)
    show ?thesis
    proof (cases "rc = 0")
      case True
      let ?t = "t\<lparr>recv_buffer := buf, point := At_ioctl out sk n\<rparr>"
      have st1: "thread_step E a t w = Some (a, ?t, w1)"
        using True False t recv chk by (auto simp: thread_step_def step_recv_def Let_def)
      obtain rc' where io: "sys_ioctl E out AESDCHAR_IOCSEEKTO sk w1 = Some (rc', w')"
        and r: "r = (if sint rc' < 0 then Inl (- 1) else Inr n)" "rb' = buf"
        using True False round recv chk by (auto simp: recv_round_def bind_eq_Some_conv Let_def split: if_splits)
      from io have "thread_step E a ?t w1 =
          Some (a, ?t\<lparr>point := (if sint rc' < 0 then At_fail_client out else after_round out n)\<rparr>, w')"
        by (simp add: thread_step_def)
      from moves_step [OF st1 moves_one [OF this]] r show ?thesis by (cases "sint rc' < 0") simp_all
    next
      case wr: False
      obtain bs' ret where io: "first_bytes buf (unat (scast ((case ptr of Some i \<Rightarrow> (of_nat i :: c_int) | None \<Rightarrow> ucast (n - 1)) + 1) :: size_t)) = Some bs'"
        "sys_write E out bs' w1 = Some (ret, w')"
        and r: "r = (if (ucast ret :: c_int) = - 1 then Inl (- 1) else Inr n)" "rb' = buf"
        using wr False round recv chk by (auto simp: recv_round_def bind_eq_Some_conv Let_def split: if_splits)
      let ?t = "t\<lparr>recv_buffer := buf, point := At_write out bs' n\<rparr>"
      have st1: "thread_step E a t w = Some (a, ?t, w1)"
        using wr False t recv chk io by (auto simp: thread_step_def step_recv_def Let_def)
      have "thread_step E a ?t w1 =
          Some (a, ?t\<lparr>point := (if (ucast ret :: c_int) = - 1 then At_fail_client out else after_round out n)\<rparr>, w')"
        using io(2) by (simp add: thread_step_def)
      from moves_step [OF st1 moves_one [OF this]] r show ?thesis
        by (cases "(ucast ret :: c_int) = - 1") simp_all
    qed
  qed
qed

lemma recv_moves:
  assumes "recv_messages E rb cl out w = Some y"
  shows "\<forall>a t. client_fd a = cl \<longrightarrow> recv_buffer t = rb \<longrightarrow> point t = At_recv out \<longrightarrow>
    moves E (a, t, w) (a, t\<lparr>recv_buffer := fst (snd y), point := (if fst y = - 1 then At_fail_client out else At_read out)\<rparr>, snd (snd y))"
proof -
  let ?P = "\<lambda>E b c out w y. \<forall>a t. client_fd a = c \<longrightarrow> recv_buffer t = b \<longrightarrow> point t = At_recv out \<longrightarrow>
    moves E (a, t, w) (a, t\<lparr>recv_buffer := fst (snd y), point := (if fst y = - 1 then At_fail_client out else At_read out)\<rparr>, snd (snd y))"
  show ?thesis
  proof (rule recv_messages.raw_induct [of ?P, OF _ assms], intro allI impI)
    fix f E b c out w y and a :: connection_thread_args and t :: thread_state
    assume IH: "\<And>E b c out w y. f E b c out w = Some y \<Longrightarrow> ?P E b c out w y"
      and eq: "do { (r, b, w) \<leftarrow> recv_round E b c out w;
                    case r of Inl rc \<Rightarrow> Some (rc, b, w)
                    | Inr n \<Rightarrow> if int BUFFER_SIZE \<le> sint n then f E b c out w else Some (0, b, w) } = Some y"
      and t: "client_fd a = c" "recv_buffer t = b" "point t = At_recv out"
    then obtain r b1 w1 where round: "recv_round E b c out w = Some (r, b1, w1)"
      by (auto simp: bind_eq_Some_conv)
    let ?t = "t\<lparr>recv_buffer := b1, point := (case r of Inl _ \<Rightarrow> At_fail_client out | Inr n \<Rightarrow> after_round out n)\<rparr>"
    have mv: "moves E (a, t, w) (a, ?t, w1)" and rc: "case r of Inl rc \<Rightarrow> rc = - 1 | Inr _ \<Rightarrow> True"
      using round_moves [OF round t] by simp_all
    show "moves E (a, t, w) (a, t\<lparr>recv_buffer := fst (snd y), point := (if fst y = - 1 then At_fail_client out else At_read out)\<rparr>, snd (snd y))"
    proof (cases "\<exists>n. r = Inr n \<and> int BUFFER_SIZE \<le> sint n")
      case True
      then have f: "f E b1 c out w1 = Some y" and pt: "point ?t = At_recv out"
        using eq round by (auto simp: after_round_def)
      from IH [OF f, rule_format, of a ?t] t(1) pt have "moves E (a, ?t, w1) (a, ?t\<lparr>recv_buffer := fst (snd y),
          point := (if fst y = - 1 then At_fail_client out else At_read out)\<rparr>, snd (snd y))"
        by (simp del: thread_state.update_convs)
      from rtranclp_trans [OF mv this] show ?thesis by simp
    next
      case False
      with eq round rc mv show ?thesis by (cases r) (auto simp: after_round_def)
    qed
  qed
qed

text \<open>Sending.\<close>

definition after_burst :: "c_int \<Rightarrow> c_int + c_int \<Rightarrow> point" where
  "after_burst out r =
     (case r of Inl _ \<Rightarrow> At_fail_client out | Inr n \<Rightarrow> if 0 < sint n then At_read out else At_close out)"

lemma send_moves_once:
  assumes rd: "sys_read E out BUFFER_SIZE w = Some (ret, bs, w1)" "fill (send_buffer t) bs = Some buf"
    and t: "point t = At_read out"
  shows "if sint (ucast ret :: c_int) < 0
    then moves E (a, t, w) (a, t\<lparr>send_buffer := buf, point := At_fail_client out\<rparr>, w1)
    else (\<forall>cs ret' w2. first_bytes buf (unat (ucast ret :: c_int)) = Some cs \<longrightarrow>
      sys_send E (client_fd a) cs w1 = Some (ret', w2) \<longrightarrow>
      moves E (a, t, w) (a, t\<lparr>send_buffer := buf, point := (if sint (ucast ret' :: c_int) < 0 then At_fail_client out
        else if int BUFFER_SIZE \<le> sint (ucast ret :: c_int) then At_read out
        else if 0 < sint (ucast ret :: c_int) then At_read out else At_close out)\<rparr>, w2))"
proof (cases "sint (ucast ret :: c_int) < 0")
  case True
  then have "thread_step E a t w = Some (a, t\<lparr>send_buffer := buf, point := At_fail_client out\<rparr>, w1)"
    using rd t by (simp add: thread_step_def step_read_def)
  with True show ?thesis by (simp add: moves_one)
next
  case False
  let ?n = "ucast ret :: c_int"
  have "moves E (a, t, w) (a, t\<lparr>send_buffer := buf, point := (if sint (ucast ret' :: c_int) < 0 then At_fail_client out
        else if int BUFFER_SIZE \<le> sint ?n then At_read out
        else if 0 < sint ?n then At_read out else At_close out)\<rparr>, w2)"
    if sd: "first_bytes buf (unat ?n) = Some cs" "sys_send E (client_fd a) cs w1 = Some (ret', w2)" for cs ret' w2
  proof -
    let ?t = "t\<lparr>send_buffer := buf, point := At_send out cs ?n\<rparr>"
    have st1: "thread_step E a t w = Some (a, ?t, w1)"
      using False rd t sd(1) by (simp add: thread_step_def step_read_def Let_def)
    have "thread_step E a ?t w1 = Some (a, ?t\<lparr>point := (if sint (ucast ret' :: c_int) < 0 then At_fail_client out
        else if int BUFFER_SIZE \<le> sint ?n then At_read out
        else if 0 < sint ?n then At_read out else At_close out)\<rparr>, w2)"
      using sd(2) by (simp add: thread_step_def)
    from moves_step [OF st1 moves_one [OF this]] show ?thesis by simp
  qed
  with False show ?thesis by simp
qed

lemma burst_moves:
  assumes "send_burst E sb cl out w = Some y"
  shows "\<forall>a t. client_fd a = cl \<longrightarrow> send_buffer t = sb \<longrightarrow> point t = At_read out \<longrightarrow>
    moves E (a, t, w) (a, t\<lparr>send_buffer := fst (snd y), point := after_burst out (fst y)\<rparr>, snd (snd y)) \<and>
    (case fst y of Inl rc \<Rightarrow> rc = - 1 | _ \<Rightarrow> True)"
proof -
  let ?Q = "\<lambda>E c out w a t y.
    moves E (a, t, w) (a, t\<lparr>send_buffer := fst (snd y), point := after_burst out (fst y)\<rparr>, snd (snd y)) \<and>
    (case fst y of Inl rc \<Rightarrow> rc = - 1 | _ \<Rightarrow> True)"
  let ?P = "\<lambda>E b c out w y. \<forall>a t. client_fd a = c \<longrightarrow> send_buffer t = b \<longrightarrow> point t = At_read out \<longrightarrow> ?Q E c out w a t y"
  show ?thesis
  proof (rule send_burst.raw_induct [of ?P, OF _ assms], intro allI impI)
    fix f E b c out w y and a :: connection_thread_args and t :: thread_state
    assume IH: "\<And>E b c out w y. f E b c out w = Some y \<Longrightarrow> ?P E b c out w y"
      and eq: "do { (ret, bs, w) \<leftarrow> sys_read E out BUFFER_SIZE w;
          b \<leftarrow> fill b bs;
          let n = (ucast ret :: c_int);
          if sint n < 0 then Some (Inl (- 1), b, w)
          else do {
            bs \<leftarrow> first_bytes b (unat n);
            (ret, w) \<leftarrow> sys_send E c bs w;
            let m = (ucast ret :: c_int);
            if sint m < 0 then Some (Inl (- 1), b, w)
            else if int BUFFER_SIZE \<le> sint n then f E b c out w else Some (Inr n, b, w) } } = Some y"
      and t: "client_fd a = c" "send_buffer t = b" "point t = At_read out"
    then obtain ret bs w1 b1 where rd: "sys_read E out BUFFER_SIZE w = Some (ret, bs, w1)" "fill b bs = Some b1"
      by (auto simp: bind_eq_Some_conv)
    note once = send_moves_once [OF rd(1) rd(2) [folded t(2)] t(3), of a]
    let ?n = "ucast ret :: c_int"
    show "?Q E c out w a t y"
    proof (cases "sint ?n < 0")
      case True
      with eq rd once show ?thesis by (auto simp: after_burst_def)
    next
      case False
      with eq rd obtain cs ret' w2 where sd: "first_bytes b1 (unat ?n) = Some cs" "sys_send E c cs w1 = Some (ret', w2)"
        by (auto simp: bind_eq_Some_conv Let_def)
      note mv = once [simplified False if_False, rule_format, OF sd(1), unfolded t(1), OF sd(2)]
      consider "sint (ucast ret' :: c_int) < 0" | "\<not> sint (ucast ret' :: c_int) < 0" "int BUFFER_SIZE \<le> sint ?n"
        | "\<not> sint (ucast ret' :: c_int) < 0" "\<not> int BUFFER_SIZE \<le> sint ?n" by blast
      then show ?thesis
      proof cases
        case 1
        with eq rd sd False mv show ?thesis by (auto simp: after_burst_def)
      next
        case 2
        let ?t = "t\<lparr>send_buffer := b1, point := At_read out\<rparr>"
        have f: "f E b1 c out w2 = Some y" using 2 eq rd sd False by simp
        from IH [OF f, rule_format, of a ?t] t(1) have Q: "?Q E c out w2 a ?t y" by simp
        have "moves E (a, t, w) (a, ?t, w2)" using mv 2 by simp
        from rtranclp_trans [OF this Q [THEN conjunct1]] Q show ?thesis by simp
      next
        case 3
        with eq rd sd False have "y = (Inr ?n, b1, w2)" by simp
        with mv 3 show ?thesis by (simp add: after_burst_def)
      qed
    qed
  qed
qed

lemma loop_moves:
  assumes "send_loop E sb cl out n w = Some y"
  shows "\<forall>a t. client_fd a = cl \<longrightarrow> send_buffer t = sb \<longrightarrow> point t = (if 0 < sint n then At_read out else At_close out) \<longrightarrow>
    moves E (a, t, w) (a, t\<lparr>send_buffer := fst (snd y), point := (if fst y = - 1 then At_fail_client out else At_close out)\<rparr>, snd (snd y))"
proof -
  let ?Q = "\<lambda>E out w a t y.
    moves E (a, t, w) (a, t\<lparr>send_buffer := fst (snd y), point := (if fst y = - 1 then At_fail_client out else At_close out)\<rparr>, snd (snd y))"
  let ?P = "\<lambda>E b c out n w y. \<forall>a t. client_fd a = c \<longrightarrow> send_buffer t = b \<longrightarrow>
    point t = (if 0 < sint n then At_read out else At_close out) \<longrightarrow> ?Q E out w a t y"
  show ?thesis
  proof (rule send_loop.raw_induct [of ?P, OF _ assms], intro allI impI)
    fix f E b c out and n :: c_int and w y and a :: connection_thread_args and t :: thread_state
    assume IH: "\<And>E b c out n w y. f E b c out n w = Some y \<Longrightarrow> ?P E b c out n w y"
      and eq: "(if 0 < sint n
        then do { (r, b, w) \<leftarrow> send_burst E b c out w;
                  case r of Inl rc \<Rightarrow> Some (rc, b, w) | Inr n \<Rightarrow> f E b c out n w }
        else Some (0, b, w)) = Some y"
      and t: "client_fd a = c" "send_buffer t = b" "point t = (if 0 < sint n then At_read out else At_close out)"
    show "?Q E out w a t y"
    proof (cases "0 < sint n")
      case False
      with eq t have "y = (0, send_buffer t, w)" "t\<lparr>send_buffer := send_buffer t, point := At_close out\<rparr> = t" by auto
      then show ?thesis by simp
    next
      case True
      with eq obtain r b1 w1 where burst: "send_burst E b c out w = Some (r, b1, w1)"
        by (auto simp: bind_eq_Some_conv)
      let ?t = "t\<lparr>send_buffer := b1, point := after_burst out r\<rparr>"
      have mv: "moves E (a, t, w) (a, ?t, w1)" and rc: "case r of Inl rc \<Rightarrow> rc = - 1 | _ \<Rightarrow> True"
        using burst_moves [OF burst, rule_format, of a t] t True by simp_all
      show ?thesis
      proof (cases r)
        case (Inl rc')
        with eq burst True mv rc show ?thesis by (auto simp: after_burst_def)
      next
        case (Inr m)
        then have f: "f E b1 c out m w1 = Some y" using eq burst True by simp
        from IH [OF f, rule_format, of a ?t] t(1) Inr have "?Q E out w1 a ?t y" by (simp add: after_burst_def)
        from rtranclp_trans [OF mv this] show ?thesis by simp
      qed
    qed
  qed
qed

text \<open>The ends of the thread.\<close>

definition ends :: "'w env \<Rightarrow> 'w config \<Rightarrow> connection_thread_args \<times> 'w \<Rightarrow> bool" where
  "ends E x r \<longleftrightarrow> (\<exists>t. moves E x (fst r, t, snd r) \<and> point t = Returned)"

lemma ends_moves: "moves E x y \<Longrightarrow> ends E y r \<Longrightarrow> ends E x r"
  unfolding ends_def by (meson rtranclp_trans)

lemma ends_step: "thread_step E a t w = Some y \<Longrightarrow> ends E y r \<Longrightarrow> ends E (a, t, w) r"
  by (rule ends_moves [OF moves_one])

lemma ends_return: "point t = At_return \<or> point t = At_exit \<Longrightarrow> ends E (a, t, w) (a, w)"
  by (rule ends_step [of E a t w "(a, t\<lparr>point := Returned\<rparr>, w)"])
    (auto simp: thread_step_def ends_def intro!: exI [of _ "t\<lparr>point := Returned\<rparr>"])

lemma ends_failed:
  assumes "connection_failed E out a w = Some r" and t: "point t = At_fail_client out"
  shows "ends E (a, t, w) r"
proof -
  let ?a = "a\<lparr>thread_complete_success := False, thread_complete := True\<rparr>"
  obtain w1 w2 w3 where w: "sys_close E (client_fd a) w = Some w1" "sys_close E out w1 = Some w2"
    "unlock_mutex E (file_mutex a) w2 = Some w3" and r: "r = (?a, w3)"
    using assms(1) by (auto simp: connection_failed_def bind_eq_Some_conv Let_def)
  have "ends E (?a, t\<lparr>point := At_return\<rparr>, w3) r" unfolding r by (rule ends_return) simp
  then have "ends E (?a, t\<lparr>point := At_fail_unlock\<rparr>, w2) r"
    by (rule ends_step [rotated]) (use w in \<open>simp add: thread_step_def\<close>)
  then have "ends E (?a, t\<lparr>point := At_fail_close out\<rparr>, w1) r"
    by (rule ends_step [rotated]) (use w in \<open>simp add: thread_step_def\<close>)
  then have "ends E (a, t\<lparr>point := At_fail_flags out\<rparr>, w1) r"
    by (rule ends_step [rotated]) (simp add: thread_step_def)
  then show ?thesis by (rule ends_step [rotated]) (use w t in \<open>simp add: thread_step_def\<close>)
qed

lemma ends_success:
  assumes w: "sys_close E out w = Some w1" "unlock_mutex E (file_mutex a) w1 = Some w2"
      "sys_close E (client_fd a) w2 = Some w3" and t: "point t = At_close out"
  shows "ends E (a, t, w) (a\<lparr>thread_complete_success := True, thread_complete := True\<rparr>, w3)" (is "ends E _ ?r")
proof -
  have "ends E (fst ?r, t\<lparr>point := At_return\<rparr>, w3) ?r" using ends_return [of "t\<lparr>point := At_return\<rparr>"] by simp
  then have "ends E (a, t\<lparr>point := At_flags\<rparr>, w3) ?r"
    by (rule ends_step [rotated]) (simp add: thread_step_def)
  then have "ends E (a, t\<lparr>point := At_client\<rparr>, w2) ?r"
    by (rule ends_step [rotated]) (use w in \<open>simp add: thread_step_def\<close>)
  then have "ends E (a, t\<lparr>point := At_unlock\<rparr>, w1) ?r"
    by (rule ends_step [rotated]) (use w in \<open>simp add: thread_step_def\<close>)
  then show ?thesis by (rule ends_step [rotated]) (use w t in \<open>simp add: thread_step_def\<close>)
qed

lemma ends_sending:
  assumes "send_messages E sb (client_fd a) out w = Some (rc, sb', w')"
    and "send_buffer t = sb" "point t = At_read out"
    and "ends E (a, t\<lparr>send_buffer := sb', point := (if rc = - 1 then At_fail_client out else At_close out)\<rparr>, w') r"
  shows "ends E (a, t, w) r"
proof -
  have "0 < sint (of_nat BUFFER_SIZE :: c_int)" by (simp add: BUFFER_SIZE_def)
  with loop_moves [OF assms(1) [unfolded send_messages_def], rule_format, of a t] assms(2,3)
  have "moves E (a, t, w) (a, t\<lparr>send_buffer := sb', point := (if rc = - 1 then At_fail_client out else At_close out)\<rparr>, w')"
    by simp
  then show ?thesis using assms(4) by (rule ends_moves)
qed

lemma thread_ends:
  assumes "connection_thread E rb sb a w = Some (a', w')"
  shows "ends E (a, thread_start rb sb, w) (a', w')"
proof -
  let ?a = "a\<lparr>thread_complete := False\<rparr>" and ?t = "thread_start rb sb"
  have opens: "ends E (a, ?t, w) r"
    if "lock_mutex E (file_mutex a) w = Some w1" "sys_open E w1 = Some (out, w2)"
      "ends E (?a, ?t\<lparr>point := (if sint out < 0 then At_open_unlock else At_recv out)\<rparr>, w2) r" for w1 out w2 r
  proof -
    have "ends E (?a, ?t\<lparr>point := At_open\<rparr>, w1) r"
      by (rule ends_step [OF _ that(3)]) (use that(2) in \<open>simp add: thread_step_def\<close>)
    then show ?thesis
      by (rule ends_step [rotated]) (use that(1) in \<open>simp add: thread_step_def thread_start_def\<close>)
  qed
  have receives: "ends E (?a, ?t\<lparr>point := At_recv out\<rparr>, w2) r"
    if "recv_messages E rb (client_fd a) out w2 = Some (rc, rb', w3)"
      "ends E (?a, ?t\<lparr>recv_buffer := rb', point := (if rc = - 1 then At_fail_client out else At_read out)\<rparr>, w3) r"
    for out w2 rc rb' w3 r
  proof -
    have "moves E (?a, ?t\<lparr>point := At_recv out\<rparr>, w2)
        (?a, ?t\<lparr>recv_buffer := rb', point := (if rc = - 1 then At_fail_client out else At_read out)\<rparr>, w3)"
      using recv_moves [OF that(1), rule_format, of ?a "?t\<lparr>point := At_recv out\<rparr>"] by (simp add: thread_start_def)
    then show ?thesis using that(2) by (rule ends_moves)
  qed
  from assms show ?thesis
  proof (cases rule: connection_thread_cases)
    case (open_failed w1 fd w2)
    have "ends E (?a, ?t\<lparr>point := At_exit\<rparr>, w') (?a, w')" by (rule ends_return) simp
    then have "ends E (?a, ?t\<lparr>point := At_open_unlock\<rparr>, w2) (?a, w')"
      by (rule ends_step [rotated]) (use open_failed in \<open>simp add: thread_step_def\<close>)
    with open_failed show ?thesis by (intro opens [of w1 fd w2]) simp_all
  next
    case (recv_failed w1 fd w2 rb' w3)
    then show ?thesis
      by (intro opens [of w1 fd w2]) (auto intro!: receives [OF recv_failed(4)] ends_failed)
  next
    case (send_failed w1 fd w2 rc rb' w3 sb' w4)
    have "ends E (?a, ?t\<lparr>recv_buffer := rb', point := At_read fd\<rparr>, w3) (a', w')"
      by (rule ends_sending [of E sb ?a fd w3 "- 1" sb' w4])
        (use send_failed in \<open>auto simp: thread_start_def intro!: ends_failed\<close>)
    with send_failed show ?thesis
      by (intro opens [of w1 fd w2]) (auto intro!: receives [OF send_failed(4)])
  next
    case (success w1 fd w2 rc rb' w3 rc' sb' w4 w5 w6)
    have "ends E (?a, ?t\<lparr>recv_buffer := rb', point := At_read fd\<rparr>, w3) (a', w')"
      by (rule ends_sending [of E sb ?a fd w3 rc' sb' w4])
        (use success ends_success [of E fd w4 w5 ?a w6 w' "?t\<lparr>recv_buffer := rb', send_buffer := sb', point := At_close fd\<rparr>"]
         in \<open>auto simp: thread_start_def\<close>)
    with success show ?thesis
      by (intro opens [of w1 fd w2]) (auto intro!: receives [OF success(4)])
  qed
qed

text \<open>The machine returns exactly when the function does, with the same result.\<close>

lemma thread_machine:
  "ends E (a, thread_start rb sb, w) r \<longleftrightarrow> connection_thread E rb sb a w = Some r"
proof
  assume "ends E (a, thread_start rb sb, w) r"
  then obtain t where mv: "moves E (a, thread_start rb sb, w) (fst r, t, snd r)" and t: "point t = Returned"
    by (auto simp: ends_def)
  from moves_resume [OF mv] t show "connection_thread E rb sb a w = Some r"
    by (simp add: resume_def thread_start_def)
next
  assume "connection_thread E rb sb a w = Some r"
  then show "ends E (a, thread_start rb sb, w) r" using thread_ends [of E rb sb a w "fst r" "snd r"] by simp
qed

section \<open>Frames\<close>

lemma thread_step_in:
  assumes R: "preorder R" and E: "calls_in E R" and st: "thread_step E a t w = Some (a', t', w')"
  shows "R w w'"
proof -
  have tr: "transfers_in E R" using E by (simp add: calls_in_def)
  show ?thesis
    using st preorderD(1) [OF R]
    by (cases "point t")
      (auto simp: thread_step_def step_recv_def step_read_def bind_eq_Some_conv Let_def split: if_split_asm
        dest!: calls_inD [OF R E] transfers_inD [OF tr])
qed

end
