(* ===== verification/System.thy ===== *)
theory System
  imports Server_Invariant Session_Refinement Thread_Steps
begin

text \<open>
  The server and the driver together, one system call at a time. The state is that of \<open>run_server\<close>,
  that of the driver, the mutex of the connection threads and, for each of them, where it stands; a
  connection thread makes the steps of \<open>thread_step\<close> on the driver, with the open
  sockets of the process, between those of the other threads, of the main thread and of the
  signals. What the kernel, the client and the allocator of descriptors will answer to a thread
  is arbitrary; it is chosen before the run starts, which leaves no run out.
\<close>

section \<open>The system\<close>

record system =
  srv :: server
  dev :: driver
  file_lock :: bool
  control :: "nat \<Rightarrow> thread_state"
  world :: "nat \<Rightarrow> session"

text \<open>The world as the thread \<open>i\<close> sees it: its own client and the shared driver, sockets and mutex.\<close>

definition view :: "nat \<Rightarrow> system \<Rightarrow> session" where
  "view i y = (world y i)\<lparr>machine := dev y, sockets := client_fds (srv y), mutex_held := file_lock y\<rparr>"

text \<open>How far a thread has come, as the main thread distinguishes it.\<close>

fun status :: "point \<Rightarrow> tstatus" where
  "status (At_fail_flags out) = Leaving"
| "status At_flags = Leaving"
| "status (At_fail_close out) = Ending"
| "status At_fail_unlock = Ending"
| "status At_return = Ending"
| "status Returned = Finished"
| "status _ = Running"

text \<open>One step of the thread \<open>i\<close>; its arguments are a block that it shares with the main thread.\<close>

definition thread_acts :: "nat \<Rightarrow> system \<Rightarrow> system option" where
  "thread_acts i y =
     do { c \<leftarrow> targ (srv y) i;
          a \<leftarrow> conns (srv y) c;
          (a', t', w) \<leftarrow> thread_step session_env a (control y i) (view i y);
          Some (y\<lparr>srv := (srv y)\<lparr>client_fds := sockets w, conns := (conns (srv y))(c \<mapsto> a'),
                      tstate := (tstate (srv y))(i \<mapsto> status (point t'))\<rparr>,
                  dev := machine w, file_lock := mutex_held w,
                  control := (control y)(i := t'), world := (world y)(i := w)\<rparr>) }"

text \<open>
  The descriptor that the final loop closes next. If it is not a socket any more, because its thread
  has closed it, the number may have become that of an open file of the device.
\<close>

definition drain_fd :: "server \<Rightarrow> c_int option" where
  "drain_fd s =
     do { datap \<leftarrow> SLIST_FIRST (thread_list s);
          n \<leftarrow> nodes (thread_list s) datap;
          c \<leftarrow> connection (sdata n);
          args \<leftarrow> conns s c;
          Some (client_fd args) }"

definition device_close :: "c_int \<Rightarrow> driver \<Rightarrow> driver" where
  "device_close fd d =
     (case files d (unat fd) of
        None \<Rightarrow> d
      | Some f \<Rightarrow> (case aesd_release \<lparr>i_cdev = Aesd_device\<rparr> f of (rc, f') \<Rightarrow> d\<lparr>files := (files d)(unat fd := None)\<rparr>))"

text \<open>
  A step of the main thread, in which \<open>accept\<close> gives a descriptor that is not open; its \<open>close\<close> in the
  final loop; a step of a thread.
\<close>

inductive sys_step :: "system \<Rightarrow> system \<Rightarrow> bool" where
  sys_main: "main_step (srv y) s \<Longrightarrow> (\<forall>a. phase s = Join a \<longrightarrow> phase (srv y) = Join a) \<Longrightarrow>
     (\<forall>fd \<in> client_fds s - client_fds (srv y). files (dev y) (unat fd) = None) \<Longrightarrow> sys_step y (y\<lparr>srv := s\<rparr>)"
| sys_close: "phase (srv y) = Drain \<Longrightarrow> \<not> SLIST_EMPTY (thread_list (srv y)) \<Longrightarrow>
     drain_close (srv y) = Some s \<Longrightarrow> drain_fd (srv y) = Some fd \<Longrightarrow>
     sys_step y (y\<lparr>srv := s, dev := device_close fd (dev y)\<rparr>)"
| sys_thread: "tstate (srv y) i \<noteq> None \<Longrightarrow> thread_acts i y = Some y' \<Longrightarrow> sys_step y y'"

definition sys_init :: "addr set \<Rightarrow> system \<Rightarrow> bool" where
  "sys_init B y \<longleftrightarrow>
     srv_init (srv y) \<and> drv_init B (dev y) \<and> \<not> file_lock y \<and>
     (\<forall>i. \<exists>rb sb. control y i = thread_start rb sb \<and> length rb = BUFFER_SIZE \<and> length sb = BUFFER_SIZE) \<and>
     (\<forall>i. kernel_ok (kern (world y i)) \<and> outbox (world y i) = [])"

section \<open>A thread on the driver\<close>

text \<open>Everything that a thread does to the device is a sequence of calls of its file operations.\<close>

definition device_runs :: "session \<Rightarrow> session \<Rightarrow> bool" where
  "device_runs w w' \<longleftrightarrow> kern w' = kern w \<and> (kernel_ok (kern w) \<longrightarrow> drv_step\<^sup>*\<^sup>* (machine w) (machine w'))"

lemma preorder_device_runs: "preorder device_runs"
  unfolding preorder_def device_runs_def by (metis rtranclp.rtrancl_refl rtranclp_trans)

lemma device_runs_same: "kern w' = kern w \<Longrightarrow> machine w' = machine w \<Longrightarrow> device_runs w w'"
  by (simp add: device_runs_def)

lemma device_runs_step:
  "kern w' = kern w \<Longrightarrow> (kernel_ok (kern w) \<Longrightarrow> drv_step (machine w) (machine w')) \<Longrightarrow> device_runs w w'"
  by (auto simp: device_runs_def)

lemma session_read_runs:
  assumes "session_read fd n w = Some (r, bs, w')"
  shows "device_runs w w'"
proof (cases "files (machine w) (unat fd)")
  case None
  with assms show ?thesis by (auto simp: session_read_def intro: device_runs_same)
next
  case (Some f)
  have count: "unat (of_nat (min n MAX_RW_COUNT) :: size_t) \<le> MAX_RW_COUNT"
    by (simp add: MAX_RW_COUNT_def unat_of_nat_small)
  from Some assms obtain r' pos k where
    "aesd_read (kern w) f (of_nat (min n MAX_RW_COUNT)) (f_pos f) (ks (machine w)) = Some (r', pos, bs, k)"
    and "w' = w\<lparr>machine := (machine w)\<lparr>ks := k, files := (files (machine w))(unat fd \<mapsto> f\<lparr>f_pos := pos\<rparr>)\<rparr>\<rparr>"
    by (auto simp: session_read_def bind_eq_Some_conv)
  with drv_read [OF Some _ count] show ?thesis by (intro device_runs_step) auto
qed

lemma session_write_runs:
  assumes "session_write fd bs w = Some (r, w')"
  shows "device_runs w w'"
proof (cases "files (machine w) (unat fd)")
  case None
  with assms show ?thesis by (auto simp: session_write_def intro: device_runs_same)
next
  case (Some f)
  let ?bs = "take MAX_RW_COUNT bs"
  have count: "unat (of_nat (length ?bs) :: size_t) = length ?bs" "length ?bs \<le> MAX_RW_COUNT"
    by (simp_all add: MAX_RW_COUNT_def unat_of_nat_small)
  from Some assms obtain r' k where
    "aesd_write (kern w) f ?bs (of_nat (length ?bs)) (ks (machine w)) = Some (r', k)"
    and "w' = w\<lparr>machine := (machine w)\<lparr>ks := k\<rparr>\<rparr>"
    by (auto simp: session_write_def bind_eq_Some_conv Let_def)
  with drv_write [OF Some, of "kern w" "of_nat (length ?bs)" ?bs] count show ?thesis
    by (intro device_runs_step) simp_all
qed

lemma session_ioctl_runs:
  assumes "session_ioctl fd cmd arg w = Some (r, w')"
  shows "device_runs w w'"
proof (cases "files (machine w) (unat fd)")
  case None
  with assms show ?thesis by (auto simp: session_ioctl_def intro: device_runs_same)
next
  case (Some f)
  from Some assms obtain r' f' k where
    "aesd_unlocked_ioctl (kern w) f cmd arg (ks (machine w)) = Some (r', f', k)"
    and "w' = w\<lparr>machine := (machine w)\<lparr>ks := k, files := (files (machine w))(unat fd \<mapsto> f')\<rparr>\<rparr>"
    by (auto simp: session_ioctl_def bind_eq_Some_conv Let_def)
  with drv_ioctl [OF Some] show ?thesis by (intro device_runs_step) auto
qed

lemma session_open_runs:
  assumes "session_open w = Some (r, w')"
  shows "device_runs w w'"
proof (cases "sint (open_rc w) < 0")
  case True
  with assms show ?thesis by (simp add: session_open_def device_runs_same)
next
  case False
  with assms show ?thesis
    by (auto simp: session_open_def aesd_open_def Let_def split: if_split_asm
        intro!: device_runs_step drv_open)
qed

lemma session_close_runs:
  assumes "session_close fd w = Some w'"
  shows "device_runs w w'"
proof (cases "files (machine w) (unat fd)")
  case None
  with assms show ?thesis by (auto simp: session_close_def intro: device_runs_same)
next
  case (Some f)
  with assms show ?thesis
    by (auto simp: session_close_def aesd_release_def intro!: device_runs_step drv_release)
qed

lemma session_calls_run: "calls_in session_env device_runs"
proof -
  have "session_recv fd n w = Some (r, bs, w') \<Longrightarrow> device_runs w w'" for fd n w r bs w'
    by (rule device_runs_same)
      (auto simp: session_recv_def Let_def split: if_split_asm list.split_asm recv_event.split_asm)
  moreover have "session_send fd bs w = Some (r, w') \<Longrightarrow> device_runs w w'" for fd bs w r w'
    by (rule device_runs_same) (auto simp: session_send_def Let_def split: if_split_asm)
  ultimately have "transfers_in session_env device_runs"
    unfolding transfers_in_def session_env_sel
    using session_read_runs session_write_runs session_ioctl_runs by blast
  moreover have "session_lock m w = Some (r, w') \<Longrightarrow> device_runs w w'" for m w r w'
    by (rule device_runs_same) (auto simp: session_lock_def split: if_split_asm)
  moreover have "session_unlock m w = Some (r, w') \<Longrightarrow> device_runs w w'" for m w r w'
    by (rule device_runs_same) (auto simp: session_unlock_def split: if_split_asm)
  ultimately show ?thesis
    unfolding calls_in_def session_env_sel using session_open_runs session_close_runs by blast
qed

section \<open>The places of a thread\<close>

text \<open>The device file of a thread, while it has one, and the places between the lock and the unlock.\<close>

fun device_of :: "point \<Rightarrow> c_int option" where
  "device_of (At_recv out) = Some out"
| "device_of (At_ioctl out sk n) = Some out"
| "device_of (At_write out bs n) = Some out"
| "device_of (At_read out) = Some out"
| "device_of (At_send out bs n) = Some out"
| "device_of (At_fail_client out) = Some out"
| "device_of (At_fail_flags out) = Some out"
| "device_of (At_fail_close out) = Some out"
| "device_of (At_close out) = Some out"
| "device_of _ = None"

definition holds_lock :: "point \<Rightarrow> bool" where
  "holds_lock p \<longleftrightarrow> device_of p \<noteq> None \<or> p \<in> {At_open, At_open_unlock, At_fail_unlock, At_unlock}"

text \<open>The places of the two transfers.\<close>

fun transferring :: "point \<Rightarrow> bool" where
  "transferring (At_recv out) = True"
| "transferring (At_ioctl out sk n) = True"
| "transferring (At_write out bs n) = True"
| "transferring (At_read out) = True"
| "transferring (At_send out bs n) = True"
| "transferring _ = False"

lemma device_holds: "device_of p = Some out \<Longrightarrow> holds_lock p"
  by (simp add: holds_lock_def)

lemma after_round_points [simp]:
  "device_of (after_round out n) = Some out" "status (after_round out n) = Running"
  by (simp_all add: after_round_def)

definition file_doms :: "session \<Rightarrow> nat set" where
  "file_doms w = dom (files (machine w))"

lemma session_calls_frame:
  "session_read fd n w = Some (r, bs, w') \<Longrightarrow> sockets w' = sockets w \<and> mutex_held w' = mutex_held w \<and> file_doms w' = file_doms w"
  "session_write fd bs w = Some (r, w') \<Longrightarrow> sockets w' = sockets w \<and> mutex_held w' = mutex_held w \<and> file_doms w' = file_doms w"
  "session_ioctl fd c a w = Some (s, w') \<Longrightarrow> sockets w' = sockets w \<and> mutex_held w' = mutex_held w \<and> file_doms w' = file_doms w"
  "session_recv fd n w = Some (r, bs, w') \<Longrightarrow> sockets w' = sockets w \<and> mutex_held w' = mutex_held w \<and> file_doms w' = file_doms w"
  "session_send fd bs w = Some (r, w') \<Longrightarrow> sockets w' = sockets w \<and> mutex_held w' = mutex_held w \<and> file_doms w' = file_doms w"
  by (auto simp: session_read_def session_write_def session_ioctl_def session_recv_def session_send_def
      file_doms_def bind_eq_Some_conv Let_def
      split: option.split_asm if_split_asm list.split_asm recv_event.split_asm)

lemma transfer_step:
  assumes st: "thread_step session_env a t w = Some (a', t', w')" and tr: "transferring (point t)"
  shows "a' = a" and "device_of (point t') = device_of (point t)" and "status (point t') = Running"
    and "sockets w' = sockets w" and "mutex_held w' = mutex_held w" and "file_doms w' = file_doms w"
proof -
  have "a' = a \<and> device_of (point t') = device_of (point t) \<and> status (point t') = Running"
    using st tr
    by (cases "point t")
      (auto simp: thread_step_def step_recv_def step_read_def bind_eq_Some_conv Let_def split: if_split_asm)
  then show "a' = a" "device_of (point t') = device_of (point t)" "status (point t') = Running" by simp_all
  have "sockets w' = sockets w \<and> mutex_held w' = mutex_held w \<and> file_doms w' = file_doms w"
    using st tr
    by (cases "point t")
      (auto simp: thread_step_def step_recv_def step_read_def bind_eq_Some_conv Let_def split: if_split_asm
        dest!: session_calls_frame)
  then show "sockets w' = sockets w" "mutex_held w' = mutex_held w" "file_doms w' = file_doms w" by simp_all
qed

lemma session_close_effect:
  assumes "session_close fd w = Some w'"
  shows "sockets w' = sockets w - {fd}" and "mutex_held w' = mutex_held w" and "file_doms w' = file_doms w - {unat fd}"
  using assms by (auto simp: session_close_def aesd_release_def file_doms_def split: option.split_asm if_split_asm)

lemma session_open_effect:
  assumes "session_open w = Some (out, w')"
  shows "sockets w' = sockets w" and "mutex_held w' = mutex_held w"
    and "if sint out < 0 then file_doms w' = file_doms w
      else out \<notin> sockets w \<and> file_doms w' = insert (unat out) (file_doms w)"
  using assms
  by (auto simp: session_open_def aesd_open_def file_doms_def Let_def split: if_split_asm)

lemma session_mutex_effect:
  "lock_mutex session_env m w = Some w' \<Longrightarrow> \<not> mutex_held w \<and> w' = w\<lparr>mutex_held := True\<rparr>"
  "unlock_mutex session_env m w = Some w' \<Longrightarrow> mutex_held w \<and> w' = w\<lparr>mutex_held := False\<rparr>"
  by (auto simp: lock_mutex_def unlock_mutex_def session_lock_def session_unlock_def bind_eq_Some_conv split: if_split_asm)

text \<open>What a step does to the mutex, to the files of the device, to the sockets and to the arguments.\<close>

lemma transferring_points: "transferring p \<Longrightarrow> status p = Running \<and> device_of p \<noteq> None"
  by (cases p) simp_all

lemma step_lock:
  assumes st: "thread_step session_env a t w = Some (a', t', w')"
  shows "holds_lock (point t') = holds_lock (point t) \<and> mutex_held w' = mutex_held w \<or>
    \<not> holds_lock (point t) \<and> holds_lock (point t') \<and> \<not> mutex_held w \<and> mutex_held w' \<or>
    holds_lock (point t) \<and> \<not> holds_lock (point t') \<and> \<not> mutex_held w'"
proof (cases "transferring (point t)")
  case True
  with transfer_step [OF st True] transferring_points [OF True] show ?thesis by (simp add: holds_lock_def)
next
  case False
  with st show ?thesis
    by (cases "point t")
      (auto simp: thread_step_def bind_eq_Some_conv holds_lock_def session_close_effect
        dest!: session_mutex_effect session_open_effect(2) split: if_split_asm)
qed

lemma step_files:
  assumes st: "thread_step session_env a t w = Some (a', t', w')"
  shows "device_of (point t') = device_of (point t) \<and> file_doms w' = file_doms w \<or>
    (\<exists>out. point t = At_open \<and> device_of (point t') = Some out \<and>
      file_doms w' = insert (unat out) (file_doms w) \<and> out \<notin> sockets w) \<or>
    (\<exists>out. device_of (point t) = Some out \<and> device_of (point t') = None \<and> file_doms w' = file_doms w - {unat out}) \<or>
    device_of (point t') = device_of (point t) \<and> status (point t) = Running \<and>
      file_doms w' = file_doms w - {unat (client_fd a)}"
proof (cases "transferring (point t)")
  case True
  with transfer_step [OF st True] show ?thesis by simp
next
  case False
  have same: "file_doms (w\<lparr>mutex_held := b\<rparr>) = file_doms w" for b and w :: session by (simp add: file_doms_def)
  show ?thesis
  proof (cases "point t = At_open")
    case True
    then obtain out where "session_open w = Some (out, w')"
      "point t' = (if sint out < 0 then At_open_unlock else At_recv out)"
      using st by (auto simp: thread_step_def bind_eq_Some_conv)
    with session_open_effect(3) [of w out w'] True show ?thesis by (cases "sint out < 0") simp_all
  next
    case no: False
    with False st show ?thesis
      by (cases "point t")
        (auto simp: thread_step_def bind_eq_Some_conv session_close_effect same dest!: session_mutex_effect)
  qed
qed

lemma step_sockets:
  assumes st: "thread_step session_env a t w = Some (a', t', w')"
  shows "sockets w' = (if point t = At_client \<or> (\<exists>out. point t = At_fail_client out) then sockets w - {client_fd a}
    else if point t \<in> range At_close \<union> range At_fail_close then sockets w - {the (device_of (point t))} else sockets w)"
proof (cases "transferring (point t)")
  case True
  with transfer_step [OF st True] show ?thesis by (cases "point t") auto
next
  case False
  with st show ?thesis
    by (cases "point t")
      (auto simp: thread_step_def bind_eq_Some_conv session_close_effect session_open_effect dest!: session_mutex_effect)
qed

end
