(* ===== verification/System_Invariant.thy ===== *)
theory System_Invariant
  imports System
begin

text \<open>
  The invariant of server and driver together. The invariants of both parts hold; where a thread
  stands agrees with what the main thread knows of it; the mutex is held by exactly the thread
  that stands between its lock and its unlock; only that thread has a file of the device
  open. Before the shutdown its descriptor stays open until it closes it itself. Every run of the
  system is a run of the server and a run of the driver.
\<close>

section \<open>The invariant\<close>

definition shutting :: "phase \<Rightarrow> bool" where
  "shutting p \<longleftrightarrow> p = Drain \<or> (\<exists>a. p = Join a) \<or> (\<exists>rc. p = Exited rc)"

text \<open>What the main thread knows of a thread and where it stands.\<close>

fun stands :: "tstatus option \<Rightarrow> point \<Rightarrow> bool" where
  "stands None p = (p = At_lock)"
| "stands (Some Joined) p = (p = Returned)"
| "stands (Some st) p = (status p = st)"

definition threads_ok :: "system \<Rightarrow> bool" where
  "threads_ok y \<longleftrightarrow>
     (\<forall>i. kernel_ok (kern (world y i))) \<and>
     (\<forall>i. stands (tstate (srv y) i) (point (control y i))) \<and>
     (\<forall>i. point (control y i) = At_lock \<longrightarrow>
        length (recv_buffer (control y i)) = BUFFER_SIZE \<and> length (send_buffer (control y i)) = BUFFER_SIZE \<and>
        outbox (world y i) = [])"

definition lock_ok :: "system \<Rightarrow> bool" where
  "lock_ok y \<longleftrightarrow>
     (file_lock y \<longleftrightarrow> (\<exists>i. holds_lock (point (control y i)))) \<and>
     (\<forall>i j. holds_lock (point (control y i)) \<longrightarrow> holds_lock (point (control y j)) \<longrightarrow> i = j)"

definition files_ok :: "system \<Rightarrow> bool" where
  "files_ok y \<longleftrightarrow>
     (\<forall>n \<in> dom (files (dev y)). \<exists>i out. device_of (point (control y i)) = Some out \<and> n = unat out) \<and>
     (\<forall>i out. device_of (point (control y i)) = Some out \<longrightarrow>
        out \<notin> client_fds (srv y) \<and> (\<not> shutting (phase (srv y)) \<longrightarrow> unat out \<in> dom (files (dev y))))"

definition sys_inv :: "addr set \<Rightarrow> system \<Rightarrow> bool" where
  "sys_inv B y \<longleftrightarrow> srv_inv (srv y) \<and> drv_inv B (dev y) \<and> threads_ok y \<and> lock_ok y \<and> files_ok y"

lemma view_sel [simp]:
  "machine (view i y) = dev y" "sockets (view i y) = client_fds (srv y)" "mutex_held (view i y) = file_lock y"
  "kern (view i y) = kern (world y i)" "outbox (view i y) = outbox (world y i)" "inbox (view i y) = inbox (world y i)"
  "sends (view i y) = sends (world y i)" "open_rc (view i y) = open_rc (world y i)" "file_doms (view i y) = dom (files (dev y))"
  by (simp_all add: view_def file_doms_def)

section \<open>The main thread\<close>

lemma reap_body_other:
  assumes "reap_body a s = Some s'"
  shows "client_fds s' = client_fds s" and "phase s' = phase s"
    and "tstate s' i = tstate s i \<or> tstate s i = Some Finished \<and> tstate s' i = Some Joined"
  using assms
  by (auto simp: reap_body_def bind_eq_Some_conv pthread_join_def free_thread_def free_connection_def
      split: if_split_asm)

lemma drain_join_other:
  assumes "drain_join a s = Some s'"
  shows "client_fds s' = client_fds s" and "phase s' = Drain"
    and "tstate s' i = tstate s i \<or> tstate s i = Some Finished \<and> tstate s' i = Some Joined"
  using assms
  by (auto simp: drain_join_def bind_eq_Some_conv pthread_join_def free_thread_def free_connection_def
      split: if_split_asm option.split_asm)

lemma accept_client_other:
  assumes "accept_client tData thr rc i datap fd peer len s = Some s'" and "tstate s i = None"
  shows "tstate s' j = tstate s j \<or> tstate s j = None \<and> tstate s' j = Some Running"
  using assms
  by (cases tData; cases thr; cases datap; cases "rc = 0")
    (auto simp: accept_client_def bind_eq_Some_conv Let_def split: if_split_asm)

definition main_moves :: "tstatus option \<Rightarrow> tstatus option \<Rightarrow> bool" where
  "main_moves x x' \<longleftrightarrow> x' = x \<or> x = None \<and> x' = Some Running \<or> x = Some Finished \<and> x' = Some Joined"

lemma main_step_other:
  assumes "main_step s s'"
  shows "main_moves (tstate s i) (tstate s' i) \<and> (client_fds s' \<subseteq> client_fds s \<or> phase s = Accept) \<and>
    (shutting (phase s) \<longrightarrow> shutting (phase s'))"
  using assms
proof cases
  case (main_reap a)
  then obtain s1 p where s1: "reap_body a s = Some s1" "s' = s1\<lparr>phase := Reap p\<rparr>"
    by (auto simp: reap_step_def bind_eq_Some_conv)
  with reap_body_other [OF s1(1)] main_reap show ?thesis by (auto simp: main_moves_def shutting_def)
next
  case (main_accept fd tData thr datap i' rc peer len)
  with accept_client_other [OF main_accept(7,6), of i] show ?thesis by (auto simp: main_moves_def shutting_def)
next
  case main_close
  then show ?thesis by (auto simp: drain_close_def bind_eq_Some_conv main_moves_def shutting_def)
next
  case (main_join a)
  with drain_join_other [OF main_join(2)] show ?thesis by (auto simp: main_moves_def shutting_def)
qed (auto simp: main_moves_def shutting_def run_server_end_def shutdown_handler_def)

lemma main_moves_stands: "main_moves x x' \<Longrightarrow> stands x p \<Longrightarrow> stands x' p"
  by (cases p rule: status.cases) (auto simp: main_moves_def)

lemma threads_ok_main:
  assumes "threads_ok y" and "\<And>i. main_moves (tstate (srv y) i) (tstate s i)"
  shows "threads_ok (y\<lparr>srv := s, dev := d\<rparr>)"
proof -
  have "stands (tstate s i) (point (control y i))" for i
    using main_moves_stands [OF assms(2)] assms(1) by (simp add: threads_ok_def)
  with assms(1) show ?thesis by (simp add: threads_ok_def)
qed

lemma device_close_files: "files (device_close fd d) = (files d)(unat fd := None)" and
  device_close_ks: "ks (device_close fd d) = ks d"
  by (auto simp: device_close_def fun_upd_idem split: option.split prod.split)

lemma device_close_step: "drv_step\<^sup>*\<^sup>* d (device_close fd d)"
proof (cases "files d (unat fd)")
  case (Some f)
  then have "drv_step d (d\<lparr>files := (files d)(unat fd := None)\<rparr>)"
    by (intro drv_release) (simp_all add: aesd_release_def)
  with Some show ?thesis by (auto simp: device_close_def split: prod.split)
qed (simp add: device_close_def)

section \<open>The threads\<close>

text \<open>How a step moves a thread on, and what becomes of its arguments.\<close>

lemma step_status:
  assumes st: "thread_step session_env a t w = Some (a', t', w')"
  shows "(case status (point t) of
      Running \<Rightarrow>
        if point t = At_exit then point t' = Returned \<and> a' = a
        else if point t = At_client \<or> (\<exists>out. point t = At_fail_client out) then status (point t') = Leaving \<and> a' = a
        else status (point t') = Running \<and> (\<not> thread_complete a \<longrightarrow> a' = a)
    | Leaving \<Rightarrow> status (point t') = Ending \<and>
        (\<exists>b. a' = a\<lparr>thread_complete_success := b, thread_complete := True\<rparr>)
    | Ending \<Rightarrow> (if point t = At_return then point t' = Returned else status (point t') = Ending) \<and> a' = a
    | _ \<Rightarrow> False)"
proof (cases "transferring (point t)")
  case True
  with transfer_step [OF st True] transferring_points [OF True] show ?thesis by (cases "point t") auto
next
  case False
  have "a\<lparr>thread_complete := False\<rparr> = a" if "\<not> thread_complete a" using that by (cases a) simp
  with False st show ?thesis
    by (cases "point t") (auto simp: thread_step_def bind_eq_Some_conv)
qed

lemma step_not_start:
  assumes st: "thread_step session_env a t w = Some (a', t', w')"
  shows "point t' \<noteq> At_lock"
proof (cases "transferring (point t)")
  case True
  from transfer_step(2) [OF st True] transferring_points [OF True] show ?thesis by auto
next
  case False
  with st show ?thesis by (cases "point t") (auto simp: thread_step_def bind_eq_Some_conv split: if_split_asm)
qed

text \<open>A thread that runs has an entry, whose arguments are not marked complete.\<close>

lemma running_thread:
  assumes "srv_inv s" and "tstate s i = Some Running"
  obtains es e args where "srv_ok es s" "e \<in> set es" "t_id e = i" "targ s i = Some (t_conn e)"
    "conns s (t_conn e) = Some args" "\<not> thread_complete args"
proof -
  obtain es where ok: "srv_ok es s" using assms(1) by (auto simp: srv_inv_def)
  then have "entries_ok es s" by (simp add: srv_ok_def)
  then obtain e where e: "e \<in> set es" "t_id e = i" "entry_ok s e" using assms(2) by (rule thread_of_entry) simp
  then obtain args where "conns s (t_conn e) = Some args" "\<not> thread_complete args" "targ s i = Some (t_conn e)"
    using assms(2) by (auto simp: entry_ok_def)
  with ok e that show thesis by blast
qed

lemma thread_acts_cases:
  assumes inv: "sys_inv B y" and on: "tstate (srv y) i \<noteq> None" and acts: "thread_acts i y = Some y'"
  obtains es e a a' t' w where "srv_ok es (srv y)" "e \<in> set es" "t_id e = i" "targ (srv y) i = Some (t_conn e)"
    "conns (srv y) (t_conn e) = Some a" "tstate (srv y) i = Some (status (point (control y i)))"
    "thread_complete a \<Longrightarrow> status (point (control y i)) \<noteq> Running \<and> status (point (control y i)) \<noteq> Leaving"
    "thread_step session_env a (control y i) (view i y) = Some (a', t', w)"
    "y' = y\<lparr>srv := (srv y)\<lparr>client_fds := sockets w, conns := (conns (srv y))(t_conn e \<mapsto> a'),
        tstate := (tstate (srv y))(i \<mapsto> status (point t'))\<rparr>,
      dev := machine w, file_lock := mutex_held w, control := (control y)(i := t'), world := (world y)(i := w)\<rparr>"
proof -
  obtain st where st: "tstate (srv y) i = Some st" using on by blast
  obtain c a a' t' w where c: "targ (srv y) i = Some c" "conns (srv y) c = Some a"
    and step: "thread_step session_env a (control y i) (view i y) = Some (a', t', w)"
    and y': "y' = y\<lparr>srv := (srv y)\<lparr>client_fds := sockets w, conns := (conns (srv y))(c \<mapsto> a'),
        tstate := (tstate (srv y))(i \<mapsto> status (point t'))\<rparr>,
      dev := machine w, file_lock := mutex_held w, control := (control y)(i := t'), world := (world y)(i := w)\<rparr>"
    using acts by (auto simp: thread_acts_def bind_eq_Some_conv)
  have "point (control y i) \<noteq> Returned" using step by (auto simp: thread_step_def)
  moreover have "stands (Some st) (point (control y i))" using inv st by (auto simp: sys_inv_def threads_ok_def dest: spec [of _ i])
  ultimately have status: "st = status (point (control y i))" "st \<noteq> Joined" by (cases st; simp)+
  obtain es where ok: "srv_ok es (srv y)" using inv by (auto simp: sys_inv_def srv_inv_def)
  then have "entries_ok es (srv y)" by (simp add: srv_ok_def)
  then obtain e where e: "e \<in> set es" "t_id e = i" "entry_ok (srv y) e" using st status(2) by (rule thread_of_entry)
  then have "t_conn e = c" and cmp: "thread_complete a \<longrightarrow> st \<noteq> Running \<and> st \<noteq> Leaving"
    using c st by (auto simp: entry_ok_def)
  with ok e c step y' status st that show thesis by blast
qed

lemma thread_acts_srv:
  assumes inv: "sys_inv B y" and on: "tstate (srv y) i \<noteq> None" and acts: "thread_acts i y = Some y'"
  shows "srv_step\<^sup>*\<^sup>* (srv y) (srv y')"
  using assms
proof (cases rule: thread_acts_cases)
  case (1 es e a a' t' w)
  let ?s = "srv y" and ?p = "point (control y i)"
  have fds: "sockets w = (if ?p = At_client \<or> (\<exists>out. ?p = At_fail_client out) then client_fds ?s - {client_fd a} else client_fds ?s)"
  proof -
    have "out \<notin> client_fds ?s" if "device_of ?p = Some out" for out
      using that inv unfolding sys_inv_def files_ok_def by blast
    then have "client_fds ?s - {the (device_of ?p)} = client_fds ?s" if "?p \<in> range At_close \<union> range At_fail_close"
      using that by auto
    then show ?thesis using step_sockets [OF 1(8)] by auto
  qed
  have s': "srv y' = ?s\<lparr>client_fds := sockets w, conns := (conns ?s)(t_conn e \<mapsto> a'), tstate := (tstate ?s)(i \<mapsto> status (point t'))\<rparr>"
    using 1(9) by simp
  have same: "srv y' = ?s" if "sockets w = client_fds ?s" "a' = a" "status (point t') = status ?p"
    unfolding s' using that 1(5,6) by (simp add: fun_upd_idem)
  note stat = step_status [OF 1(8)]
  show ?thesis
  proof (cases "status ?p")
    case Running
    then have inc: "\<not> thread_complete a" and st: "tstate ?s i = Some Running" using 1(6,7) by auto
    show ?thesis
    proof (cases "?p = At_exit")
      case True
      then have "srv y' = thread_return i ?s"
        unfolding s' using stat fds 1(5) by (simp add: thread_return_def fun_upd_idem)
      then show ?thesis using thr_open_failed [OF st] by auto
    next
      case no: False
      show ?thesis
      proof (cases "?p = At_client \<or> (\<exists>out. ?p = At_fail_client out)")
        case True
        then have "thread_close i ?s = Some (srv y')"
          unfolding s' using stat fds Running no 1(4,5) by (simp add: thread_close_def fun_upd_idem)
        then show ?thesis using thr_close [OF st] by auto
      next
        case False
        then have "srv y' = ?s" using stat fds Running no inc by (intro same) auto
        then show ?thesis by simp
      qed
    qed
  next
    case Leaving
    then have no: "\<not> (?p = At_client \<or> (\<exists>out. ?p = At_fail_client out))" by auto
    from stat Leaving obtain b where "status (point t') = Ending" "a' = a\<lparr>thread_complete_success := b, thread_complete := True\<rparr>"
      by auto
    then have "thread_flags i b ?s = Some (srv y')"
      unfolding s' using fds no 1(4,5) by (simp add: thread_flags_def)
    then show ?thesis using thr_flags [of ?s i b] Leaving 1(6) by auto
  next
    case Ending
    then have no: "\<not> (?p = At_client \<or> (\<exists>out. ?p = At_fail_client out))" by auto
    show ?thesis
    proof (cases "?p = At_return")
      case True
      then have "srv y' = thread_return i ?s"
        unfolding s' using stat fds no Ending 1(5) by (simp add: thread_return_def fun_upd_idem)
      then show ?thesis using thr_return [of ?s i] Ending 1(6) by auto
    next
      case False
      then have "srv y' = ?s" using stat fds Ending no by (intro same) auto
      then show ?thesis by simp
    qed
  qed (use stat in simp_all)
qed

text \<open>The descriptor of a connection whose thread runs is open, unless the final loop has closed it.\<close>

lemma running_connected:
  assumes "srv_inv s" and "tstate s i = Some Running" and "targ s i = Some c" and "conns s c = Some args"
    and "\<forall>a. phase s \<noteq> Join a"
  shows "client_fd args \<in> client_fds s"
proof -
  obtain es e args' where "srv_ok es s" and e: "e \<in> set es" "t_id e = i" "targ s i = Some (t_conn e)"
    "conns s (t_conn e) = Some args'" "\<not> thread_complete args'"
    using assms(1,2) by (rule running_thread)
  then have "fds_ok es s" "owns s e" "fd_of s e = client_fd args"
    using assms(2-5) by (simp_all add: srv_ok_def owns_def incomplete_def fd_of_def)
  with e(1) show ?thesis by (auto simp: fds_ok_def owned_fds_def)
qed

lemma thread_acts_dev:
  assumes inv: "sys_inv B y" and step: "thread_step session_env a (control y i) (view i y) = Some (a', t', w)"
  shows "drv_step\<^sup>*\<^sup>* (dev y) (machine w)" and "kern w = kern (world y i)"
proof -
  have "device_runs (view i y) w" by (rule thread_step_in [OF preorder_device_runs session_calls_run step])
  moreover have "kernel_ok (kern (world y i))" using inv by (simp add: sys_inv_def threads_ok_def)
  ultimately show "drv_step\<^sup>*\<^sup>* (dev y) (machine w)" "kern w = kern (world y i)" by (simp_all add: device_runs_def)
qed

lemma stands_status: "stands (Some (status p)) p"
  by (cases p rule: status.cases) simp_all

lemma lock_ok_thread:
  assumes ok: "lock_ok y"
    and step: "holds_lock p = holds_lock (point (control y i)) \<and> b = file_lock y \<or>
      \<not> holds_lock (point (control y i)) \<and> holds_lock p \<and> \<not> file_lock y \<and> b \<or>
      holds_lock (point (control y i)) \<and> \<not> holds_lock p \<and> \<not> b"
    and y': "file_lock y' = b" "control y' = (control y)(i := t)" "point t = p"
  shows "lock_ok y'"
proof -
  have old: "file_lock y \<longleftrightarrow> (\<exists>i. holds_lock (point (control y i)))"
    "\<And>i j. holds_lock (point (control y i)) \<Longrightarrow> holds_lock (point (control y j)) \<Longrightarrow> i = j"
    using ok by (auto simp: lock_ok_def)
  have hd: "holds_lock (point (control y' j)) = (if j = i then holds_lock p else holds_lock (point (control y j)))" for j
    using y' by simp
  from step show ?thesis
  proof (elim disjE conjE)
    assume same: "holds_lock p = holds_lock (point (control y i))" "b = file_lock y"
    then have "holds_lock (point (control y' j)) = holds_lock (point (control y j))" for j by (simp add: hd)
    with same y'(1) ok show ?thesis by (simp add: lock_ok_def)
  qed (unfold lock_ok_def hd y'(1), use old in \<open>auto split: if_splits\<close>)
qed

lemma files_ok_thread:
  assumes inv: "sys_inv B y" and on: "tstate (srv y) i \<noteq> None" and acts: "thread_acts i y = Some y'"
  shows "files_ok y'"
  using assms
proof (cases rule: thread_acts_cases)
  case (1 es e a a' t' w)
  let ?p = "point (control y i)" and ?p' = "point t'" and ?F = "client_fds (srv y)" and ?D = "dom (files (dev y))"
  have files: "\<And>n. n \<in> ?D \<Longrightarrow> \<exists>i out. device_of (point (control y i)) = Some out \<and> n = unat out"
    and fds: "\<And>j out. device_of (point (control y j)) = Some out \<Longrightarrow> out \<notin> ?F"
    and opn: "\<And>j out. device_of (point (control y j)) = Some out \<Longrightarrow> \<not> shutting (phase (srv y)) \<Longrightarrow> unat out \<in> ?D"
    using inv unfolding sys_inv_def files_ok_def by blast+
  have uniq: "holds_lock (point (control y j)) \<Longrightarrow> holds_lock ?p \<Longrightarrow> j = i" for j
    using inv unfolding sys_inv_def lock_ok_def by blast
  have sub: "sockets w \<subseteq> ?F" using step_sockets [OF 1(8)] by (auto split: if_split_asm)
  have ctl: "device_of (point (control y' j)) = (if j = i then device_of ?p' else device_of (point (control y j)))" for j
    using 1(9) by simp
  have D': "dom (files (dev y')) = file_doms w" "client_fds (srv y') = sockets w" "phase (srv y') = phase (srv y)"
    using 1(9) by (simp_all add: file_doms_def)
  have goalI: "files_ok y'"
    if "\<And>n. n \<in> file_doms w \<Longrightarrow> \<exists>j out. device_of (point (control y' j)) = Some out \<and> n = unat out"
      "\<And>j out. device_of (point (control y' j)) = Some out \<Longrightarrow> out \<notin> sockets w"
      "\<And>j out. device_of (point (control y' j)) = Some out \<Longrightarrow> \<not> shutting (phase (srv y)) \<Longrightarrow> unat out \<in> file_doms w"
    unfolding files_ok_def D' using that by blast
  from step_files [OF 1(8)] show ?thesis
  proof (elim disjE exE conjE)
    assume same: "device_of ?p' = device_of ?p" "file_doms w = file_doms (view i y)"
    then have ctl': "device_of (point (control y' j)) = device_of (point (control y j))" for j by (simp add: ctl)
    show ?thesis by (rule goalI) (use ctl' files fds opn sub same(2) in auto)
  next
    fix out
    assume op: "?p = At_open" "device_of ?p' = Some out" "file_doms w = insert (unat out) (file_doms (view i y))" "out \<notin> sockets (view i y)"
    then have none: "device_of (point (control y j)) = None" for j
      using uniq [of j] device_holds [of "point (control y j)"] by (cases "device_of (point (control y j))") (auto simp: holds_lock_def)
    then have "?D = {}" using files by fastforce
    then show ?thesis
      by (intro goalI) (use op none sub in \<open>auto simp: ctl split: if_split_asm intro: exI [of _ i]\<close>)
  next
    fix out
    assume cl: "device_of ?p = Some out" "device_of ?p' = None" "file_doms w = file_doms (view i y) - {unat out}"
    have none: "device_of (point (control y j)) = None" if "j \<noteq> i" for j
      using uniq [of j] device_holds [OF cl(1)] device_holds [of "point (control y j)"] that
      by (cases "device_of (point (control y j))") auto
    have "?D \<subseteq> {unat out}" using files none cl(1) by (metis option.discI option.inject singletonI subsetI)
    then show ?thesis
      by (intro goalI) (use cl none in \<open>auto simp: ctl split: if_split_asm\<close>)
  next
    assume cl: "device_of ?p' = device_of ?p" "status ?p = Running" "file_doms w = file_doms (view i y) - {unat (client_fd a)}"
    then have ctl': "device_of (point (control y' j)) = device_of (point (control y j))" for j by (simp add: ctl)
    have ne: "unat out \<noteq> unat (client_fd a)" if "device_of (point (control y j)) = Some out" "\<not> shutting (phase (srv y))" for j out
    proof -
      have "client_fd a \<in> ?F"
        by (rule running_connected [of _ i "t_conn e"])
          (use inv 1 cl(2) that(2) in \<open>auto simp: sys_inv_def shutting_def\<close>)
      with fds [OF that(1)] show ?thesis by (auto simp: word_unat_eq_iff [symmetric])
    qed
    show ?thesis by (rule goalI) (use ctl' files fds opn sub cl(3) ne in auto)
  qed
qed

lemma thread_acts_inv:
  assumes inv: "sys_inv B y" and on: "tstate (srv y) i \<noteq> None" and acts: "thread_acts i y = Some y'"
  shows "sys_inv B y'"
  using assms
proof (cases rule: thread_acts_cases)
  case (1 es e a a' t' w)
  have "srv_inv (srv y')" using srv.steps_inv [OF thread_acts_srv [OF assms]] inv by (simp add: sys_inv_def)
  moreover have "drv_inv B (dev y')"
    using drv.steps_inv [of "dev y" "machine w" B] thread_acts_dev(1) [OF inv 1(8)] inv 1(9) by (simp add: sys_inv_def)
  moreover have "threads_ok y'"
    using inv thread_acts_dev(2) [OF inv 1(8)] 1(9) stands_status step_not_start [OF 1(8)]
    by (auto simp: sys_inv_def threads_ok_def)
  moreover have "lock_ok y'"
    by (rule lock_ok_thread [of y "point t'" i "mutex_held w" y' t'])
      (use inv step_lock [OF 1(8)] 1(9) in \<open>simp_all add: sys_inv_def\<close>)
  moreover have "files_ok y'" by (rule files_ok_thread [OF assms])
  ultimately show ?thesis by (simp add: sys_inv_def)
qed

section \<open>Every step\<close>

lemma sys_main_inv:
  assumes inv: "sys_inv B y" and st: "main_step (srv y) s"
    and new: "\<forall>fd \<in> client_fds s - client_fds (srv y). files (dev y) (unat fd) = None"
  shows "sys_inv B (y\<lparr>srv := s\<rparr>)"
proof -
  note other = main_step_other [OF st]
  have "srv_inv s" by (rule srv_step_inv [OF srv_main [OF st]]) (use inv in \<open>simp add: sys_inv_def\<close>)
  moreover have "threads_ok (y\<lparr>srv := s\<rparr>)"
    using threads_ok_main [of y s "dev y"] other inv by (simp add: sys_inv_def)
  moreover have "lock_ok (y\<lparr>srv := s\<rparr>)" using inv by (simp add: sys_inv_def lock_ok_def)
  moreover have "out \<notin> client_fds s \<and> (\<not> shutting (phase s) \<longrightarrow> unat out \<in> dom (files (dev y)))"
    if out: "device_of (point (control y i)) = Some out" for i out
  proof -
    have old: "out \<notin> client_fds (srv y)" "\<not> shutting (phase (srv y)) \<Longrightarrow> unat out \<in> dom (files (dev y))"
      using inv out unfolding sys_inv_def files_ok_def by blast+
    moreover have "\<not> shutting (phase (srv y))" if "out \<in> client_fds s"
      using that old(1) other [of 0] by (auto simp: shutting_def)
    ultimately show ?thesis using new other by auto
  qed
  ultimately show ?thesis using inv by (simp add: sys_inv_def files_ok_def)
qed

lemma sys_close_inv:
  assumes inv: "sys_inv B y" and ph: "phase (srv y) = Drain" "\<not> SLIST_EMPTY (thread_list (srv y))"
    and cl: "drain_close (srv y) = Some s"
  shows "sys_inv B (y\<lparr>srv := s, dev := device_close fd (dev y)\<rparr>)" and "srv_step (srv y) s"
proof -
  have st: "main_step (srv y) s" by (rule main_close [OF ph cl])
  then show step: "srv_step (srv y) s" by (rule srv_main)
  have "srv_inv s" by (rule srv_step_inv [OF step]) (use inv in \<open>simp add: sys_inv_def\<close>)
  moreover have "drv_inv B (device_close fd (dev y))"
    using drv.steps_inv [OF device_close_step] inv by (simp add: sys_inv_def)
  moreover have "threads_ok (y\<lparr>srv := s, dev := device_close fd (dev y)\<rparr>)"
    by (rule threads_ok_main) (use inv main_step_other [OF st] in \<open>simp_all add: sys_inv_def\<close>)
  moreover have "client_fds s \<subseteq> client_fds (srv y)" "shutting (phase s)"
    using cl by (auto simp: drain_close_def bind_eq_Some_conv shutting_def)
  ultimately show "sys_inv B (y\<lparr>srv := s, dev := device_close fd (dev y)\<rparr>)"
    using inv by (auto simp: sys_inv_def files_ok_def lock_ok_def device_close_files)
qed

lemma sys_step_inv: "sys_inv B y \<Longrightarrow> sys_step y y' \<Longrightarrow> sys_inv B y'"
  by (erule sys_step.cases) (auto intro: sys_main_inv sys_close_inv(1) thread_acts_inv)

lemma sys_step_parts:
  assumes inv: "sys_inv B y" and st: "sys_step y y'"
  shows "srv_step\<^sup>*\<^sup>* (srv y) (srv y') \<and> drv_step\<^sup>*\<^sup>* (dev y) (dev y')"
  using st
proof cases
  case (sys_main s)
  then show ?thesis using srv_main [of "srv y" s] by auto
next
  case (sys_close s fd)
  then show ?thesis using sys_close_inv(2) [OF inv sys_close(2-4)] device_close_step [of "dev y" fd] by auto
next
  case (sys_thread i)
  from inv sys_thread have "drv_step\<^sup>*\<^sup>* (dev y) (dev y')"
  proof (cases rule: thread_acts_cases)
    case (1 es e a a' t' w)
    then show ?thesis using thread_acts_dev(1) [OF inv 1(8)] by simp
  qed
  with thread_acts_srv [OF inv sys_thread] show ?thesis by simp
qed

lemma sys_init_inv:
  assumes init: "sys_init B y"
  shows "sys_inv B y"
proof -
  have start: "point (control y i) = At_lock \<and> length (recv_buffer (control y i)) = BUFFER_SIZE \<and>
      length (send_buffer (control y i)) = BUFFER_SIZE" for i
  proof -
    obtain rb sb where "control y i = thread_start rb sb" "length rb = BUFFER_SIZE" "length sb = BUFFER_SIZE"
      using init unfolding sys_init_def by blast
    then show ?thesis by (simp add: thread_start_def)
  qed
  have "tstate (srv y) = Map.empty" using init
    by (auto simp: sys_init_def srv_init_def run_server_start_def srv_blank_def Let_def split: option.splits)
  moreover have "files (dev y) = Map.empty" using init by (auto simp: sys_init_def drv_init_def)
  ultimately show ?thesis
    using init srv_init_inv [of "srv y"] drv_init_inv [of B "dev y"] start
    by (simp add: sys_init_def sys_inv_def threads_ok_def lock_ok_def files_ok_def holds_lock_def)
qed

interpretation sys_srv: simulation "sys_init B" sys_step "sys_inv B" srv srv_step for B
  by unfold_locales (use sys_init_inv sys_step_inv sys_step_parts in blast)+

interpretation sys_dev: simulation "sys_init B" sys_step "sys_inv B" dev drv_step for B
  by unfold_locales (use sys_step_parts in blast)+

end
