(* ===== verification/Thread_View.thy ===== *)
theory Thread_View
  imports System_Invariant
begin

text \<open>
  The world of a single thread. Of the sockets of the process a thread uses only its own, until it has
  closed it; a step of the thread does the same whether the others are there or not. So the state of
  the system, seen by one thread, is the state of a connection by itself; as long as the thread holds the
  mutex and the server is not shutting down, the steps of the others do not change it.
\<close>

section \<open>Only the own socket\<close>

definition narrow :: "c_int set \<Rightarrow> session \<Rightarrow> session" where
  "narrow S w = w\<lparr>sockets := sockets w \<inter> S\<rparr>"

lemma narrow_sel [simp]:
  "machine (narrow S w) = machine w" "kern (narrow S w) = kern w" "open_rc (narrow S w) = open_rc w"
  "inbox (narrow S w) = inbox w" "outbox (narrow S w) = outbox w" "sends (narrow S w) = sends w"
  "sockets (narrow S w) = sockets w \<inter> S" "mutex_held (narrow S w) = mutex_held w"
  by (simp_all add: narrow_def)

lemma narrow_upd [simp]:
  "(narrow S w)\<lparr>machine := d\<rparr> = narrow S (w\<lparr>machine := d\<rparr>)" "(narrow S w)\<lparr>inbox := es\<rparr> = narrow S (w\<lparr>inbox := es\<rparr>)"
  "(narrow S w)\<lparr>outbox := bs\<rparr> = narrow S (w\<lparr>outbox := bs\<rparr>)" "(narrow S w)\<lparr>sends := ts\<rparr> = narrow S (w\<lparr>sends := ts\<rparr>)"
  "(narrow S w)\<lparr>mutex_held := b\<rparr> = narrow S (w\<lparr>mutex_held := b\<rparr>)"
  "(narrow S w)\<lparr>sockets := F\<rparr> = w\<lparr>sockets := F\<rparr>"
  by (simp_all add: narrow_def)

lemma narrow_device:
  "session_read fd n (narrow S w) = map_option (\<lambda>(r, bs, w). (r, bs, narrow S w)) (session_read fd n w)"
  "session_write fd bs (narrow S w) = map_option (\<lambda>(r, w). (r, narrow S w)) (session_write fd bs w)"
  "session_ioctl fd c arg (narrow S w) = map_option (\<lambda>(r, w). (r, narrow S w)) (session_ioctl fd c arg w)"
  by (auto simp: session_read_def session_write_def session_ioctl_def Let_def split: option.split bind_split)

lemma narrow_socket:
  assumes "fd \<in> S"
  shows "session_recv fd n (narrow S w) = map_option (\<lambda>(r, bs, w). (r, bs, narrow S w)) (session_recv fd n w)"
    and "session_send fd bs (narrow S w) = map_option (\<lambda>(r, w). (r, narrow S w)) (session_send fd bs w)"
  using assms by (auto simp: session_recv_def session_send_def Let_def split: list.split recv_event.split)

lemma narrow_close: "session_close fd (narrow S w) = map_option (narrow S) (session_close fd w)"
proof -
  have "sockets w \<inter> S - {fd} = (sockets w - {fd}) \<inter> S" by blast
  then show ?thesis by (auto simp: session_close_def narrow_def split: option.split prod.split)
qed

lemma narrow_closed: "session_close fd w = Some w' \<Longrightarrow> narrow {fd} w' = narrow {} w'"
  using session_close_effect(1) [of fd w w'] by (simp add: narrow_def)

lemma narrow_open:
  "sint (open_rc w) < 0 \<or> open_rc w \<notin> sockets w \<Longrightarrow>
   session_open (narrow S w) = map_option (\<lambda>(r, w). (r, narrow S w)) (session_open w)"
  by (auto simp: session_open_def aesd_open_def Let_def)

lemma narrow_mutex:
  "lock_mutex session_env m (narrow S w) = map_option (narrow S) (lock_mutex session_env m w)"
  "unlock_mutex session_env m (narrow S w) = map_option (narrow S) (unlock_mutex session_env m w)"
  by (auto simp: lock_mutex_def unlock_mutex_def session_lock_def session_unlock_def)

section \<open>The steps\<close>

definition own_fd :: "connection_thread_args \<Rightarrow> point \<Rightarrow> c_int set" where
  "own_fd a p = (if status p = Running then {client_fd a} else {})"

definition narrowed :: "session config \<Rightarrow> session config" where
  "narrowed = (\<lambda>(a, t, w). (a, t, narrow (own_fd a (point t)) w))"

lemma narrow_step_recv:
  assumes "cl \<in> S"
  shows "step_recv session_env cl out t (narrow S w) =
    map_option (\<lambda>(t, w). (t, narrow S w)) (step_recv session_env cl out t w)"
  unfolding step_recv_def session_env_sel Let_def
  by (auto simp: narrow_socket [OF assms] bind_map_option split: bind_split intro!: Option.bind_cong)

lemma narrow_step_read:
  "step_read session_env out t (narrow S w) = map_option (\<lambda>(t, w). (t, narrow S w)) (step_read session_env out t w)"
  unfolding step_read_def session_env_sel Let_def
  by (auto simp: narrow_device bind_map_option split: bind_split intro!: Option.bind_cong)

lemma open_free: "session_open w = Some r \<Longrightarrow> sint (open_rc w) < 0 \<or> open_rc w \<notin> sockets w"
  by (auto simp: session_open_def Let_def split: if_split_asm)

lemma step_narrow:
  assumes "point t \<noteq> At_exit" and opn: "point t = At_open \<Longrightarrow> sint (open_rc w) < 0 \<or> open_rc w \<notin> sockets w"
  shows "thread_step session_env a t (narrow (own_fd a (point t)) w) = map_option narrowed (thread_step session_env a t w)"
proof (cases "point t")
  case (At_recv out)
  have "status (point t') = Running" if "step_recv session_env (client_fd a) out t w = Some (t', w')" for t' w'
    using transfer_step(3) [of a t w a t' w'] that At_recv by (simp add: thread_step_def)
  with At_recv show ?thesis
    by (auto simp: thread_step_def own_fd_def narrowed_def narrow_step_recv bind_map_option split: bind_split
        intro!: Option.bind_cong)
next
  case (At_read out)
  have "status (point t') = Running" if "step_read session_env out t w = Some (t', w')" for t' w'
    using transfer_step(3) [of a t w a t' w'] that At_read by (simp add: thread_step_def)
  with At_read show ?thesis
    by (auto simp: thread_step_def own_fd_def narrowed_def narrow_step_read bind_map_option split: bind_split
        intro!: Option.bind_cong)
next
  case At_open
  then show ?thesis
    using narrow_open [OF opn [OF At_open]]
    by (auto simp: thread_step_def own_fd_def narrowed_def bind_map_option split: bind_split intro!: Option.bind_cong)
qed (use assms in \<open>auto simp: thread_step_def own_fd_def narrowed_def narrow_device narrow_socket narrow_mutex
    narrow_close narrow_closed bind_map_option split: bind_split intro!: Option.bind_cong\<close>)

section \<open>What a thread sees of the system\<close>

definition local_state :: "nat \<Rightarrow> system \<Rightarrow> session config option" where
  "local_state i y =
     do { c \<leftarrow> targ (srv y) i; a \<leftarrow> conns (srv y) c; Some (narrowed (a, control y i, view i y)) }"

lemma own_step:
  assumes inv: "sys_inv B y" and on: "tstate (srv y) i \<noteq> None" and acts: "thread_acts i y = Some y'"
    and ne: "point (control y i) \<noteq> At_exit"
  obtains x x' where "local_state i y = Some x" "local_state i y' = Some x'" "thread_move session_env x x'"
  using inv on acts
proof (cases rule: thread_acts_cases)
  case (1 es e a a' t' w)
  have "sint (open_rc (view i y)) < 0 \<or> open_rc (view i y) \<notin> sockets (view i y)" if "point (control y i) = At_open"
    using that 1(8) open_free [of "view i y"] by (auto simp: thread_step_def bind_eq_Some_conv)
  from step_narrow [OF ne this] 1(8)
  have "thread_move session_env (narrowed (a, control y i, view i y)) (narrowed (a', t', w))"
    by (simp add: thread_move_def narrowed_def)
  moreover have "view i y' = w" "control y' i = t'" using 1(9) by (simp_all add: view_def)
  then have "local_state i y' = Some (narrowed (a', t', w))"
    using 1(4,9) by (simp add: local_state_def del: view_sel)
  moreover have "local_state i y = Some (narrowed (a, control y i, view i y))" using 1(4,5) by (simp add: local_state_def)
  ultimately show thesis using that by blast
qed

section \<open>The other threads\<close>

text \<open>A thread that holds the mutex has an entry.\<close>

lemma holder:
  assumes inv: "sys_inv B y" and hold: "holds_lock (point (control y i))"
  shows "tstate (srv y) i = Some (status (point (control y i)))" and "file_lock y"
    and "status (point (control y i)) \<in> {Running, Leaving, Ending}"
proof -
  show st: "status (point (control y i)) \<in> {Running, Leaving, Ending}"
    using hold by (cases "point (control y i)") (auto simp: holds_lock_def)
  have "stands (tstate (srv y) i) (point (control y i))" using inv by (simp add: sys_inv_def threads_ok_def)
  with hold st show "tstate (srv y) i = Some (status (point (control y i)))"
    by (cases "(tstate (srv y) i, point (control y i))" rule: stands.cases) (auto simp: holds_lock_def)
  show "file_lock y" using inv hold unfolding sys_inv_def lock_ok_def by blast
qed

lemma outside_step:
  assumes "thread_step session_env a t w = Some (a', t', w')" and "\<not> holds_lock (point t)"
    and "mutex_held w \<or> point t \<noteq> At_lock"
  shows "w' = w \<or> point t = At_client \<and> session_close (client_fd a) w = Some w'"
  using assms by (cases "point t") (auto simp: thread_step_def bind_eq_Some_conv holds_lock_def dest: session_mutex_effect)

lemma step_releases:
  assumes st: "thread_step session_env a t w = Some (a', t', w')" and "holds_lock (point t)" and "\<not> holds_lock (point t')"
  shows "point t' \<in> {At_exit, At_client, At_return}"
proof (cases "transferring (point t)")
  case True
  with transfer_step(2) [OF st True] transferring_points [OF True] assms(3) show ?thesis by (simp add: holds_lock_def)
next
  case False
  with assms show ?thesis
    by (cases "point t") (auto simp: thread_step_def bind_eq_Some_conv holds_lock_def split: if_split_asm)
qed

lemma step_opening:
  assumes st: "thread_step session_env a t w = Some (a', t', w')" and "holds_lock (point t)"
  shows "point t' \<noteq> At_open"
proof (cases "transferring (point t)")
  case True
  with transfer_step(2) [OF st True] transferring_points [OF True] show ?thesis by auto
next
  case False
  with assms show ?thesis
    by (cases "point t") (auto simp: thread_step_def bind_eq_Some_conv holds_lock_def split: if_split_asm)
qed

text \<open>Two threads that run have different sockets.\<close>

lemma running_apart:
  assumes ok: "srv_ok es s" and e: "e \<in> set es" "e' \<in> set es" "t_id e \<noteq> t_id e'"
    and run: "tstate s (t_id e) = Some Running" "tstate s (t_id e') = Some Running" and ph: "\<forall>a. phase s \<noteq> Join a"
  shows "fd_of s e \<noteq> fd_of s e'"
proof -
  have own: "owns s x" if "x \<in> set es" "tstate s (t_id x) = Some Running" for x
  proof -
    have "entry_ok s x" using ok that(1) by (simp add: srv_ok_def entries_ok_def)
    with that(2) ph show ?thesis by (auto simp: entry_ok_def owns_def incomplete_def)
  qed
  have "distinct (map (fd_of s) (filter (owns s) es))" by (rule owned_distinct) (use ok in \<open>simp add: srv_ok_def\<close>)
  moreover have "e \<in> set (filter (owns s) es)" "e' \<in> set (filter (owns s) es)" using own e run by auto
  ultimately show ?thesis using e(3) by (metis distinct_map inj_onD)
qed

lemma other_thread:
  assumes inv: "sys_inv B y" and hold: "holds_lock (point (control y i))" and ph: "\<not> shutting (phase (srv y))"
    and j: "j \<noteq> i" and on: "tstate (srv y) j \<noteq> None" and acts: "thread_acts j y = Some y'"
  shows "local_state i y' = local_state i y"
  using inv on acts
proof (cases rule: thread_acts_cases)
  case (1 es e a a' t' w)
  note mine = holder [OF inv hold]
  let ?s = "srv y" and ?p = "point (control y i)"
  have ent: "entries_ok es ?s" using 1(1) by (simp add: srv_ok_def)
  obtain e' where e': "e' \<in> set es" "t_id e' = i" "entry_ok ?s e'"
    using ent mine(1) by (rule thread_of_entry) (use mine(3) in auto)
  then obtain b where b: "targ ?s i = Some (t_conn e')" "conns ?s (t_conn e') = Some b" by (auto simp: entry_ok_def)
  have "t_conn e' \<noteq> t_conn e"
    using ent e'(1,2) 1(2,3) j unfolding entries_ok_def distinct_map by (metis inj_onD)
  then have args: "targ (srv y') i = Some (t_conn e')" "conns (srv y') (t_conn e') = Some b" "control y' i = control y i"
    "world y' i = world y i"
    using 1(9) b j by simp_all
  have "\<not> holds_lock (point (control y j))" using inv hold j unfolding sys_inv_def lock_ok_def by blast
  from outside_step [OF 1(8) this] mine(2)
  have w: "w = view j y \<or> point (control y j) = At_client \<and> session_close (client_fd a) (view j y) = Some w" by simp
  have nj: "\<forall>a. phase ?s \<noteq> Join a" using ph by (auto simp: shutting_def)
  have "machine w = dev y \<and> mutex_held w = file_lock y \<and> sockets w \<inter> own_fd b ?p = client_fds ?s \<inter> own_fd b ?p"
    using w
  proof
    assume cl: "point (control y j) = At_client \<and> session_close (client_fd a) (view j y) = Some w"
    have "client_fd a \<in> client_fds ?s"
      by (rule running_connected [of _ j "t_conn e"]) (use inv 1 cl nj in \<open>simp_all add: sys_inv_def\<close>)
    then have "unat (client_fd a) \<notin> dom (files (dev y))"
      using inv unfolding sys_inv_def files_ok_def by (metis word_unat_eq_iff)
    then have dev: "files (dev y) (unat (client_fd a)) = None" by blast
    have "client_fd b \<noteq> client_fd a" if "status ?p = Running"
      using running_apart [OF 1(1) e'(1) 1(2)] e'(2) 1(3,5,6) b(2) j mine(1) that cl nj by (simp add: fd_of_def)
    then show ?thesis using cl dev by (auto simp: session_close_def own_fd_def)
  qed simp
  then have "narrow (own_fd b ?p) (view i y') = narrow (own_fd b ?p) (view i y)"
    using args 1(9) by (simp add: view_def narrow_def)
  with args b show ?thesis by (simp add: local_state_def narrowed_def)
qed

section \<open>The main thread\<close>

lemma accept_client_keeps:
  assumes "accept_client tData thr rc i datap fd peer len s = Some s'"
  shows "client_fds s' = insert fd (client_fds s)" and "j \<noteq> i \<Longrightarrow> targ s' j = targ s j"
    and "tData \<noteq> Some c \<Longrightarrow> conns s' c = conns s c"
  using assms
  by (cases tData; cases thr; cases datap; cases "rc = 0";
      auto simp: accept_client_def bind_eq_Some_conv Let_def split: if_split_asm)+

lemma other_main:
  assumes inv: "sys_inv B y" and hold: "holds_lock (point (control y i))"
    and st: "main_step (srv y) s" and ph: "\<not> shutting (phase s)"
  shows "local_state i (y\<lparr>srv := s\<rparr>) = local_state i y"
proof -
  note mine = holder [OF inv hold]
  let ?s = "srv y" and ?p = "point (control y i)"
  obtain es where ok: "srv_ok es ?s" using inv by (auto simp: sys_inv_def srv_inv_def)
  then have ent: "entries_ok es ?s" by (simp add: srv_ok_def)
  then obtain e where e: "e \<in> set es" "t_id e = i" "entry_ok ?s e"
    using mine(1) by (rule thread_of_entry) (use mine(3) in auto)
  then obtain a where a: "targ ?s i = Some (t_conn e)" "conns ?s (t_conn e) = Some a" by (auto simp: entry_ok_def)
  have nj: "\<forall>a. phase ?s \<noteq> Join a" using ph main_step_other [OF st] by (auto simp: shutting_def)
  have own: "own_fd a ?p \<subseteq> client_fds ?s"
    using running_connected [OF _ _ a nj] inv mine(1) by (simp add: own_fd_def sys_inv_def)
  have "targ s i = targ ?s i \<and> conns s (t_conn e) = Some a \<and> client_fds s \<inter> own_fd a ?p = client_fds ?s \<inter> own_fd a ?p"
    using st
  proof cases
    case (main_reap n)
    then obtain s1 p where s1: "reap_body n ?s = Some s1" "s = s1\<lparr>phase := Reap p\<rparr>"
      by (auto simp: reap_step_def bind_eq_Some_conv)
    from reap_step_result [OF ok main_reap] obtain us e' vs where es: "es = us @ e' # vs"
      and "(\<exists>p. s = ?s\<lparr>phase := p\<rparr>) \<or> (\<exists>l p. s = (released e' l ?s)\<lparr>phase := p\<rparr> \<and> tstate ?s (t_id e') = Some Finished)"
      by blast
    moreover have "t_conn e \<noteq> t_conn e'" if "tstate ?s (t_id e') = Some Finished"
    proof -
      have "e \<noteq> e'" using that e(2) mine(1,3) by auto
      then show ?thesis using ent e(1) es unfolding entries_ok_def distinct_map by (metis inj_onD in_set_conv_decomp)
    qed
    ultimately show ?thesis using a by (auto simp: released_def)
  next
    case (main_accept fd tData thr datap i' rc peer len)
    have "fd \<notin> own_fd a ?p" using own main_accept(2) by blast
    moreover have "i' \<noteq> i" using main_accept(6) mine(1) by auto
    moreover have "tData \<noteq> Some (t_conn e)" using main_accept(3) a(2) by auto
    ultimately show ?thesis using accept_client_keeps(2) [OF main_accept(7), of i] accept_client_keeps(1,3) [OF main_accept(7)] a
      by auto
  next
    case (main_join n)
    then show ?thesis using nj by simp
  qed (use a ph in \<open>auto simp: shutting_def shutdown_handler_def run_server_end_def drain_close_def bind_eq_Some_conv\<close>)
  then have "targ s i = targ ?s i" "conns s (t_conn e) = Some a"
    and "narrow (own_fd a ?p) (view i (y\<lparr>srv := s\<rparr>)) = narrow (own_fd a ?p) (view i y)"
    by (simp_all add: view_def narrow_def)
  with a show ?thesis by (simp add: local_state_def narrowed_def)
qed

end
