(* ===== verification/System_Serial.thy ===== *)
theory System_Serial
  imports Thread_View Server_Sequence
begin

text \<open>
  The threads of the system one after the other. From its lock to its unlock a thread makes the
  steps that it would make alone on the device, whatever the other threads and the main thread do in
  between, as long as the server is not shutting down; so what the clients get and what the device holds
  is what they would get, and it would hold, if the connections were served one by one in
  the order in which their threads got the mutex.
\<close>

section \<open>Critical sections\<close>

text \<open>A step of the system that is not, and does not lead, into the shutdown.\<close>

definition serving :: "system \<Rightarrow> system \<Rightarrow> bool" where
  "serving y y' \<longleftrightarrow> sys_step y y' \<and> \<not> shutting (phase (srv y'))"

lemma serving_cases:
  assumes inv: "sys_inv B y" and st: "serving y y'"
  obtains (main) s where "main_step (srv y) s" "y' = y\<lparr>srv := s\<rparr>" "\<not> shutting (phase s)"
    | (thread) j where "tstate (srv y) j \<noteq> None" "thread_acts j y = Some y'" "\<not> shutting (phase (srv y))"
proof -
  have ph: "\<not> shutting (phase (srv y'))" using st by (simp add: serving_def)
  from st have "sys_step y y'" by (simp add: serving_def)
  then show thesis
  proof cases
    case (sys_main s)
    with ph main show thesis by simp
  next
    case (sys_close s fd)
    then have "shutting (phase (srv y'))" by (auto simp: drain_close_def bind_eq_Some_conv shutting_def)
    with ph show thesis by simp
  next
    case (sys_thread j)
    from inv sys_thread have "phase (srv y') = phase (srv y)" by (cases rule: thread_acts_cases) simp
    with ph sys_thread thread show thesis by simp
  qed
qed

text \<open>While a thread holds the mutex, the steps of the others do not touch it, and its own are those it would make alone.\<close>

lemma section_step:
  assumes inv: "sys_inv B y" and st: "serving y y'" and hold: "holds_lock (point (control y i))"
  shows "thread_acts i y = Some y' \<and> (\<exists>x x'. local_state i y = Some x \<and> local_state i y' = Some x' \<and> thread_move session_env x x') \<or>
    local_state i y' = local_state i y \<and> control y' i = control y i"
  using inv st
proof (cases rule: serving_cases)
  case (main s)
  then show ?thesis using other_main [OF inv hold] by simp
next
  case (thread j)
  show ?thesis
  proof (cases "j = i")
    case True
    have "point (control y i) \<noteq> At_exit" using hold by (auto simp: holds_lock_def)
    from own_step [OF inv thread(1,2) [unfolded True] this] thread(2) True show ?thesis by metis
  next
    case False
    have "control y' i = control y i" using thread(2) False by (auto simp: thread_acts_def bind_eq_Some_conv)
    then show ?thesis using other_thread [OF inv hold thread(3) False thread(1,2)] by simp
  qed
qed

section \<open>One section\<close>

text \<open>What a client sends, and what its socket takes.\<close>

definition visit_of :: "system \<Rightarrow> nat \<Rightarrow> visit" where
  "visit_of y i = (inbox (world y i), sends (world y i))"

text \<open>A thread about to lock the mutex, on a device that holds \<open>l\<close>.\<close>

definition entering :: "addr set \<Rightarrow> session \<Rightarrow> alog \<Rightarrow> session config \<Rightarrow> bool" where
  "entering B w0 l = (\<lambda>(a, t, w).
     point t = At_lock \<and> length (recv_buffer t) = BUFFER_SIZE \<and> length (send_buffer t) = BUFFER_SIZE \<and>
     w = w0\<lparr>machine := machine w, sockets := {client_fd a}, mutex_held := False\<rparr> \<and> outbox w = [] \<and>
     dev_inv B (ks (machine w)) \<and> dev_abs (ks (machine w)) = l \<and> files (machine w) = Map.empty \<and> kernel_ok (kern w))"

lemma section_left:
  assumes "\<not> holds_lock (point t)" and "point t \<noteq> At_lock" and "point t \<noteq> At_flags"
  shows "\<exists>a' w'. resume session_env a t w = Some (a', w') \<and> ks (machine w') = ks (machine w) \<and> outbox w' = outbox w"
proof -
  obtain w' where "session_close (client_fd a) w = Some w'" "ks (machine w') = ks (machine w)" "outbox w' = outbox w"
    by (cases "files (machine w) (unat (client_fd a))") (auto simp: session_close_def split: prod.split)
  with assms show ?thesis by (cases "point t") (simp_all add: resume_def holds_lock_def)
qed

lemma entering_cases:
  assumes "entering B w0 l x0"
  obtains a t w where "x0 = (a, t, w)" "point t = At_lock" "length (recv_buffer t) = BUFFER_SIZE" "length (send_buffer t) = BUFFER_SIZE"
    "dev_inv B (ks (machine w))" "dev_abs (ks (machine w)) = l" "files (machine w) = Map.empty" "kernel_ok (kern w)" "outbox w = []"
    "kern w = kern w0" "open_rc w = open_rc w0" "inbox w = inbox w0" "sends w = sends w0" "sockets w = {client_fd a}" "\<not> mutex_held w"
proof -
  obtain a t w where x: "x0 = (a, t, w)" by (cases x0)
  with assms have w: "w = w0\<lparr>machine := machine w, sockets := {client_fd a}, mutex_held := False\<rparr>" by (simp add: entering_def)
  have "kern w = kern w0" "open_rc w = open_rc w0" "inbox w = inbox w0" "sends w = sends w0" "sockets w = {client_fd a}"
    "\<not> mutex_held w"
    by (subst w, simp)+
  with assms x that show thesis by (simp add: entering_def)
qed

text \<open>What the thread does alone is specified, if its descriptor for the device is not the one of its socket.\<close>

lemma entering_exact:
  assumes x0: "entering B w0 l (a, t, w)" and up: "kernel_up (kern w0)" "memory_for B N (kern w0)"
    and N: "length (pending l) + inbox_bytes (inbox w0) \<le> N"
    and fd: "0 \<le> sint (open_rc w)" "open_rc w \<noteq> client_fd a"
  shows "serves B (recv_buffer t) (send_buffer t) a w (spec_connection (inbox w0) (sends w0) l)"
  using x0
proof (rule entering_cases)
  fix a' t' w'
  assume x: "(a, t, w) = (a', t', w')" and bufs: "length (recv_buffer t') = BUFFER_SIZE" "length (send_buffer t') = BUFFER_SIZE"
    and "dev_inv B (ks (machine w'))" "dev_abs (ks (machine w')) = l" "files (machine w') = Map.empty" "kernel_ok (kern w')"
    "kern w' = kern w0" "inbox w' = inbox w0" "sends w' = sends w0" "sockets w' = {client_fd a'}" "\<not> mutex_held w'"
  with fd have "session_ready B w" by (simp add: session_ready_def)
  from connection_exact [OF this, of "recv_buffer t" "send_buffer t" N a] show ?thesis
    using up N x bufs \<open>kern w' = _\<close> \<open>inbox w' = _\<close> \<open>sends w' = _\<close> \<open>sockets w' = _\<close> \<open>dev_abs _ = l\<close>
    by (simp add: arrivals_def answers_def)
qed

lemma section_result:
  assumes x0: "entering B w0 l x0" and up: "kernel_up (kern w0)" "memory_for B N (kern w0)"
    and N: "length (pending l) + inbox_bytes (inbox w0) \<le> N"
    and mv: "moves session_env x0 (a', t', w')"
    and left: "\<not> holds_lock (point t')" "point t' \<noteq> At_lock" "point t' \<noteq> At_flags"
  shows "if sint (open_rc w0) < 0 then dev_abs (ks (machine w')) = l
    else \<exists>ok. spec_connection (inbox w0) (sends w0) l = Some (dev_abs (ks (machine w')), outbox w', ok)"
proof -
  obtain a t w where x: "x0 = (a, t, w)" and t: "point t = At_lock"
    and w: "dev_abs (ks (machine w)) = l" "outbox w = []"
    and sel: "open_rc w = open_rc w0" "sockets w = {client_fd a}" "\<not> mutex_held w"
    using x0 by (rule entering_cases)
  let ?rb = "recv_buffer t" and ?sb = "send_buffer t"
  obtain a'' w'' where res: "resume session_env a' t' w' = Some (a'', w'')"
    and w'': "ks (machine w'') = ks (machine w')" "outbox w'' = outbox w'"
    using section_left [OF left] by blast
  have th: "connection_thread session_env ?rb ?sb a w = Some (a'', w'')"
    using moves_resume [OF mv [unfolded x]] res t by (simp add: resume_def)
  show ?thesis
  proof (cases "sint (open_rc w0) < 0")
    case True
    with serve_open_fails [of w ?rb ?sb a] th sel w'' w(1) show ?thesis by simp
  next
    case False
    have "session_open (w\<lparr>mutex_held := True\<rparr>) \<noteq> None"
    proof
      assume "session_open (w\<lparr>mutex_held := True\<rparr>) = None"
      with th sel show False by (simp add: connection_thread_def lock_mutex_def session_lock_def Let_def)
    qed
    then have "open_rc w \<noteq> client_fd a" using False sel by (auto simp: session_open_def Let_def)
    then have "serves B ?rb ?sb a w (spec_connection (inbox w0) (sends w0) l)"
      using entering_exact [OF x0 [unfolded x] up N] False sel by simp
    with th w'' w(2) False show ?thesis by (auto simp: serves_def served_def split: option.split_asm)
  qed
qed

section \<open>One section after the other\<close>

lemma spec_all_snoc:
  "spec_all (vs @ [v]) l =
     do { (rs, l) \<leftarrow> spec_all vs l; (l, r, ok) \<leftarrow> spec_connection (fst v) (snd v) l; Some (rs @ [r], l) }"
  by (induction vs arbitrary: l) (auto split: bind_splits)

lemma fits_snoc:
  "fits N (vs @ [v]) l \<Longrightarrow> spec_all vs l = Some (rs, l') \<Longrightarrow> length (pending l') + inbox_bytes (fst v) \<le> N"
  by (induction vs arbitrary: l rs) (auto simp: bind_eq_Some_conv)

text \<open>The kernel serves every thread, and in whatever order they come no command outgrows its memory.\<close>

definition able :: "addr set \<Rightarrow> nat \<Rightarrow> system \<Rightarrow> bool" where
  "able B N y \<longleftrightarrow>
     (\<forall>i. kernel_up (kern (world y i)) \<and> memory_for B N (kern (world y i))) \<and>
     (\<forall>is. distinct is \<longrightarrow> fits N (map (visit_of y) is) empty_log)"

text \<open>The threads that have given the mutex back after they had opened the device.\<close>

definition done_threads :: "system \<Rightarrow> system \<Rightarrow> nat set" where
  "done_threads y0 y =
     {i. point (control y i) \<noteq> At_lock \<and> \<not> holds_lock (point (control y i)) \<and> 0 \<le> sint (open_rc (world y0 i))}"

text \<open>
  \<open>is\<close> lists them, their clients got what they get when served one by one in this order, and
  that leaves \<open>l\<close>.
\<close>

definition served_order :: "system \<Rightarrow> nat list \<Rightarrow> alog \<Rightarrow> system \<Rightarrow> bool" where
  "served_order y0 is l y \<longleftrightarrow>
     distinct is \<and> set is = done_threads y0 y \<and>
     spec_all (map (visit_of y0) is) empty_log = Some (map (\<lambda>i. outbox (world y i)) is, l)"

text \<open>The thread \<open>i\<close> is inside its section, which it has entered when the device held \<open>l\<close>.\<close>

definition inside :: "addr set \<Rightarrow> system \<Rightarrow> alog \<Rightarrow> system \<Rightarrow> nat \<Rightarrow> bool" where
  "inside B y0 l y i \<longleftrightarrow> holds_lock (point (control y i)) \<and>
     (\<exists>x0 x. local_state i y = Some x \<and> entering B (world y0 i) l x0 \<and> moves session_env x0 x)"

definition serial :: "addr set \<Rightarrow> system \<Rightarrow> nat list \<Rightarrow> system \<Rightarrow> bool" where
  "serial B y0 is y \<longleftrightarrow>
     (\<forall>i. point (control y i) = At_lock \<longrightarrow> world y i = world y0 i) \<and>
     (\<exists>l. served_order y0 is l y \<and> (if file_lock y then \<exists>i. inside B y0 l y i else dev_abs (ks (dev y)) = l))"

lemma serialI:
  assumes "\<And>i. point (control y i) = At_lock \<Longrightarrow> world y i = world y0 i" and "served_order y0 is l y"
    and "file_lock y \<Longrightarrow> inside B y0 l y i" and "\<not> file_lock y \<Longrightarrow> dev_abs (ks (dev y)) = l"
  shows "serial B y0 is y"
  unfolding serial_def using assms by (intro conjI exI [of _ l]) auto

lemma serialE:
  assumes "serial B y0 is y"
  obtains l i where "\<And>i. point (control y i) = At_lock \<Longrightarrow> world y i = world y0 i" "served_order y0 is l y"
    "file_lock y \<Longrightarrow> inside B y0 l y i" "\<not> file_lock y \<Longrightarrow> dev_abs (ks (dev y)) = l"
  using assms unfolding serial_def by (auto split: if_split_asm)

lemma inside_same:
  "inside B y0 l y i \<Longrightarrow> control y' i = control y i \<Longrightarrow> local_state i y' = local_state i y \<Longrightarrow> inside B y0 l y' i"
  by (simp add: inside_def)

lemma served_order_same:
  assumes "served_order y0 is l y" and "done_threads y0 y' = done_threads y0 y"
    and "\<And>i. i \<in> set is \<Longrightarrow> outbox (world y' i) = outbox (world y i)"
  shows "served_order y0 is l y'"
  using assms map_cong [OF refl, of "is" "\<lambda>i. outbox (world y' i)" "\<lambda>i. outbox (world y i)"]
  by (simp add: served_order_def)

lemma done_threads_same:
  assumes "control y' = (control y)(j := t)" and "holds_lock (point t) = holds_lock (point (control y j))"
    and "point t = At_lock \<longleftrightarrow> point (control y j) = At_lock"
  shows "done_threads y0 y' = done_threads y0 y"
  using assms by (auto simp: done_threads_def)

text \<open>A thread outside its section.\<close>

lemma outside_acts:
  assumes inv: "sys_inv B y" and on: "tstate (srv y) j \<noteq> None" and acts: "thread_acts j y = Some y'"
    and out: "\<not> holds_lock (point (control y j))" and pt: "file_lock y \<or> point (control y j) \<noteq> At_lock"
  shows "\<exists>t w. control y' = (control y)(j := t) \<and> point t \<noteq> At_lock \<and> \<not> holds_lock (point t) \<and>
    point (control y j) \<noteq> At_lock \<and>
    world y' = (world y)(j := w) \<and> outbox w = outbox (world y j) \<and> ks (dev y') = ks (dev y) \<and> file_lock y' = file_lock y"
  using inv on acts
proof (cases rule: thread_acts_cases)
  case (1 es e a a' t' w)
  have w: "w = view j y \<or> point (control y j) = At_client \<and> session_close (client_fd a) (view j y) = Some w"
    using outside_step [OF 1(8) out] pt by simp
  then have "mutex_held w = file_lock y" "outbox w = outbox (world y j)" "ks (machine w) = ks (dev y)"
    by (auto simp: session_close_def split: option.split_asm prod.split_asm)
  moreover have lk: "point (control y j) \<noteq> At_lock"
    using 1(8) pt by (auto simp: thread_step_def bind_eq_Some_conv dest!: session_mutex_effect(1))
  moreover have "\<not> holds_lock (point t')"
    using 1(8) out lk by (cases "point (control y j)") (auto simp: thread_step_def bind_eq_Some_conv holds_lock_def)
  ultimately show ?thesis using step_not_start [OF 1(8)] 1(9) by auto
qed

lemma serial_outside:
  assumes inv: "sys_inv B y" and ser: "serial B y0 is y" and on: "tstate (srv y) j \<noteq> None"
    and acts: "thread_acts j y = Some y'" and ph: "\<not> shutting (phase (srv y))"
    and out: "\<not> holds_lock (point (control y j))" and pt: "file_lock y \<or> point (control y j) \<noteq> At_lock"
  shows "serial B y0 is y'"
proof -
  from outside_acts [OF inv on acts out pt] obtain t w where
    y': "control y' = (control y)(j := t)" "world y' = (world y)(j := w)" "ks (dev y') = ks (dev y)" "file_lock y' = file_lock y"
    and t: "point t \<noteq> At_lock" "\<not> holds_lock (point t)" "point (control y j) \<noteq> At_lock" "outbox w = outbox (world y j)"
    by blast
  have dn: "done_threads y0 y' = done_threads y0 y" by (rule done_threads_same [OF y'(1)]) (use t out in auto)
  have box: "outbox (world y' i) = outbox (world y i)" for i using y'(2) t(4) by simp
  have keep: "inside B y0 l y' i" if "inside B y0 l y i" for l i
  proof -
    have hold: "holds_lock (point (control y i))" "j \<noteq> i" using that out by (auto simp: inside_def)
    from inside_same [OF that _ other_thread [OF inv hold(1) ph hold(2) on acts]] hold(2) y'(1) show ?thesis by simp
  qed
  from ser show ?thesis
  proof (rule serialE)
    fix l i
    assume "served_order y0 is l y" "file_lock y \<Longrightarrow> inside B y0 l y i" "\<not> file_lock y \<Longrightarrow> dev_abs (ks (dev y)) = l"
      and "\<And>i. point (control y i) = At_lock \<Longrightarrow> world y i = world y0 i"
    with served_order_same [OF _ dn box] keep y' t show ?thesis by (intro serialI [of y' y0 "is" l B i]) (auto split: if_split_asm)
  qed
qed

lemma serial_enters:
  assumes inv: "sys_inv B y" and ser: "serial B y0 is y" and on: "tstate (srv y) j \<noteq> None"
    and acts: "thread_acts j y = Some y'" and ph: "\<not> shutting (phase (srv y))"
    and pt: "point (control y j) = At_lock" and free: "\<not> file_lock y"
  shows "serial B y0 is y'"
  using inv on acts
proof (cases rule: thread_acts_cases)
  case (1 es e a a' t' w)
  have w: "w = (view j y)\<lparr>mutex_held := True\<rparr>" "t' = (control y j)\<lparr>point := At_open\<rparr>"
    using 1(8) pt by (auto simp: thread_step_def bind_eq_Some_conv dest!: session_mutex_effect(1))
  have none: "\<not> holds_lock (point (control y i))" for i using inv free unfolding sys_inv_def lock_ok_def by blast
  have nofiles: "files (dev y) = Map.empty"
  proof -
    have "dom (files (dev y)) = {}" using inv none device_holds unfolding sys_inv_def files_ok_def by blast
    then show ?thesis by simp
  qed
  have y': "control y' = (control y)(j := t')" "world y' = (world y)(j := w)" "file_lock y'" using 1(9) w(1) by simp_all
  have dn: "done_threads y0 y' = done_threads y0 y"
    using y'(1) w(2) pt by (auto simp: done_threads_def holds_lock_def)
  have box: "outbox (world y' i) = outbox (world y i)" for i using y'(2) w(1) by simp
  have hold: "holds_lock (point (control y' j))" using y'(1) w(2) by (simp add: holds_lock_def)
  obtain x0 x where x: "local_state j y = Some x0" "local_state j y' = Some x" "thread_move session_env x0 x"
    using inv on acts by (rule own_step) (use pt in simp)
  have sock: "client_fd a \<in> client_fds (srv y)"
    by (rule running_connected [of _ j "t_conn e"]) (use inv 1 pt ph in \<open>auto simp: sys_inv_def shutting_def\<close>)
  obtain l where l: "served_order y0 is l y" "dev_abs (ks (dev y)) = l"
    and start: "\<And>i. point (control y i) = At_lock \<Longrightarrow> world y i = world y0 i"
    using ser by (rule serialE) (use free in auto)
  have bufs: "length (recv_buffer (control y j)) = BUFFER_SIZE" "length (send_buffer (control y j)) = BUFFER_SIZE"
    "outbox (world y j) = []" "kernel_ok (kern (world y j))" and "drv_inv B (dev y)"
    using inv pt by (auto simp: sys_inv_def threads_ok_def)
  moreover have "x0 = (a, control y j, narrow {client_fd a} (view j y))"
    using x(1) 1(4,5) pt by (simp add: local_state_def narrowed_def own_fd_def)
  ultimately have "entering B (world y0 j) l x0"
    using pt l(2) nofiles sock free start [OF pt] by (simp add: entering_def drv_inv_def)
  with hold x(2,3) have "inside B y0 l y' j" unfolding inside_def by blast
  with served_order_same [OF l(1) dn box] y' w(2) start show ?thesis
    by (intro serialI [of y' y0 "is" l B j]) (auto split: if_split_asm)
qed

text \<open>The thread that holds the mutex is the one inside its section, and what it may receive fits the memory.\<close>

lemma serial_inside:
  assumes inv: "sys_inv B y" and hold: "holds_lock (point (control y i))" and ser: "serial B y0 is y" and able: "able B N y0"
  obtains l x0 x where "served_order y0 is l y" "local_state i y = Some x" "entering B (world y0 i) l x0" "moves session_env x0 x"
    "i \<notin> set is" "length (pending l) + inbox_bytes (inbox (world y0 i)) \<le> N"
proof -
  have lk: "file_lock y" by (rule holder(2) [OF inv hold])
  have uniq: "holds_lock (point (control y k)) \<Longrightarrow> k = i" for k
    using inv hold unfolding sys_inv_def lock_ok_def by blast
  from ser obtain l where so: "served_order y0 is l y" and "inside B y0 l y i"
    by (rule serialE) (metis lk uniq inside_def)
  moreover have notin: "i \<notin> set is" using so hold by (simp add: served_order_def done_threads_def)
  then have "distinct (is @ [i])" using so by (simp add: served_order_def)
  then have "fits N (map (visit_of y0) (is @ [i])) empty_log" using able unfolding able_def by blast
  then have "length (pending l) + inbox_bytes (inbox (world y0 i)) \<le> N"
    using fits_snoc [of N "map (visit_of y0) is" "visit_of y0 i"] so by (simp add: served_order_def visit_of_def)
  ultimately show thesis using that notin unfolding inside_def by blast
qed

text \<open>The holder makes a step, or gives the mutex back.\<close>

lemma serial_holder:
  assumes inv: "sys_inv B y" and ser: "serial B y0 is y" and able: "able B N y0"
    and on: "tstate (srv y) i \<noteq> None" and acts: "thread_acts i y = Some y'"
    and hold: "holds_lock (point (control y i))"
  shows "\<exists>js. serial B y0 (is @ js) y'"
  using inv on acts
proof (cases rule: thread_acts_cases)
  case (1 es e a a' t' w)
  let ?p = "point (control y i)"
  have y': "control y' = (control y)(i := t')" "world y' = (world y)(i := w)" "dev y' = machine w" "file_lock y' = mutex_held w"
    using 1(9) by simp_all
  have lk: "file_lock y" by (rule holder(2) [OF inv hold])
  obtain l x0 x1 where l: "served_order y0 is l y" "local_state i y = Some x1" "entering B (world y0 i) l x0"
    "moves session_env x0 x1" and notin: "i \<notin> set is"
    and fit: "length (pending l) + inbox_bytes (inbox (world y0 i)) \<le> N"
    using inv hold ser able by (rule serial_inside)
  obtain x x' where x: "local_state i y = Some x" "local_state i y' = Some x'" "thread_move session_env x x'"
    using inv on acts by (rule own_step) (use hold in \<open>auto simp: holds_lock_def\<close>)
  then have mv: "moves session_env x0 x'" using l(2,4) by auto
  have untouched: "point (control y' k) = At_lock \<Longrightarrow> world y' k = world y0 k" for k
    using ser y' step_not_start [OF 1(8)] by (auto simp: serial_def split: if_split_asm)
  have box: "map (\<lambda>k. outbox (world y' k)) is = map (\<lambda>k. outbox (world y k)) is" using notin y'(2) by auto
  show ?thesis
  proof (cases "holds_lock (point t')")
    case True
    have "done_threads y0 y' = done_threads y0 y"
      by (rule done_threads_same [OF y'(1)]) (use True hold in \<open>auto simp: holds_lock_def\<close>)
    with l(1) box have so: "served_order y0 is l y'" by (simp add: served_order_def)
    have "file_lock y'" using step_lock [OF 1(8)] True hold lk y'(4) by simp
    moreover have "holds_lock (point (control y' i))" using True y'(1) by simp
    then have "inside B y0 l y' i" unfolding inside_def using x(2) l(3) mv by blast
    ultimately have "serial B y0 is y'" using so untouched by (intro serialI [of y' y0 "is" l B i]) auto
    then show ?thesis by (intro exI [of _ "[]"]) simp
  next
    case False
    have free: "\<not> file_lock y'" using step_lock [OF 1(8)] False hold y'(4) by simp
    have pts: "point t' \<noteq> At_lock" "point t' \<noteq> At_flags"
      using step_releases [OF 1(8) hold False] by auto
    let ?w = "narrow (own_fd a' (point t')) (view i y')"
    have x': "x' = (a', t', ?w)" using x(2) 1(4) y'(1) by (auto simp: local_state_def narrowed_def 1(9))
    have w: "ks (machine ?w) = ks (dev y')" "outbox ?w = outbox (world y' i)" by simp_all
    let ?js = "if sint (open_rc (world y0 i)) < 0 then [] else [i]"
    have res: "if sint (open_rc (world y0 i)) < 0 then dev_abs (ks (dev y')) = l
      else \<exists>ok. spec_connection (inbox (world y0 i)) (sends (world y0 i)) l = Some (dev_abs (ks (dev y')), outbox (world y' i), ok)"
      using section_result [OF l(3) _ _ fit mv [unfolded x'] False pts] able unfolding able_def w by blast
    have "done_threads y0 y' = set ?js \<union> done_threads y0 y"
      using y'(1) pts False hold by (auto simp: done_threads_def)
    then have "served_order y0 (is @ ?js) (dev_abs (ks (dev y'))) y'"
      using l(1) res notin box by (auto simp: served_order_def spec_all_snoc visit_of_def)
    then have "serial B y0 (is @ ?js) y'" by (rule serialI [rotated]) (use free untouched in auto)
    then show ?thesis ..
  qed
qed

lemma serial_step:
  assumes inv: "sys_inv B y" and ser: "serial B y0 is y" and able: "able B N y0" and st: "serving y y'"
  shows "\<exists>js. serial B y0 (is @ js) y'"
  using inv st
proof (cases rule: serving_cases)
  case (main s)
  have loc: "inside B y0 l y' i" if "inside B y0 l y i" for l i
    by (rule inside_same [OF that]) (use that other_main [OF inv _ main(1,3)] main(2) in \<open>simp_all add: inside_def\<close>)
  have "done_threads y0 y' = done_threads y0 y" using main(2) by (simp add: done_threads_def)
  then have "served_order y0 is l y \<Longrightarrow> served_order y0 is l y'" for l
    by (rule served_order_same [rotated]) (use main(2) in auto)
  with loc main(2) have "serial B y0 is y'" by (rule_tac serialE [OF ser], rule_tac serialI) auto
  then show ?thesis by (intro exI [of _ "[]"]) simp
next
  case (thread j)
  consider "holds_lock (point (control y j))" | "\<not> holds_lock (point (control y j))" "file_lock y \<or> point (control y j) \<noteq> At_lock"
    | "point (control y j) = At_lock" "\<not> file_lock y" by blast
  then show ?thesis
  proof cases
    case 1
    then show ?thesis by (rule serial_holder [OF inv ser able thread(1,2)])
  next
    case 2
    from serial_outside [OF inv ser thread this] show ?thesis by (intro exI [of _ "[]"]) simp
  next
    case 3
    from serial_enters [OF inv ser thread this] show ?thesis by (intro exI [of _ "[]"]) simp
  qed
qed

lemma serial_run:
  assumes "serving\<^sup>*\<^sup>* y y'" and "sys_inv B y" and "serial B y0 is y" and able: "able B N y0"
  shows "sys_inv B y' \<and> (\<exists>js. serial B y0 (is @ js) y')"
  using assms(1-3)
proof (induction rule: rtranclp_induct)
  case base
  then show ?case by (metis append_Nil2)
next
  case (step y1 y2)
  then obtain js where inv: "sys_inv B y1" and "serial B y0 (is @ js) y1" by blast
  from serial_step [OF this able step.hyps(2)] obtain ks where "serial B y0 (is @ js @ ks) y2" by auto
  moreover have "sys_inv B y2" using sys_step_inv [OF inv] step.hyps(2) by (simp add: serving_def)
  ultimately show ?case by blast
qed

lemma serial_init: "sys_init B y \<Longrightarrow> serial B y [] y"
proof -
  assume init: "sys_init B y"
  have "point (control y i) = At_lock" for i
  proof -
    obtain rb sb where "control y i = thread_start rb sb" using init unfolding sys_init_def by blast
    then show ?thesis by (simp add: thread_start_def)
  qed
  moreover have "dev_abs (ks (dev y)) = empty_log"
    using init dev_abs_zero init_device(1) by (auto simp: sys_init_def drv_init_def)
  ultimately show ?thesis
    using init by (simp add: serial_def served_order_def done_threads_def sys_init_def)
qed

end
