(* ===== verification/System_Progress.thy ===== *)
theory System_Progress
  imports System_Serial
begin

text \<open>
  The thread that holds the mutex can always go on to its unlock, by its own steps alone, unless its
  client keeps it waiting; so the mutex does not stay locked because of the other threads.
\<close>

section \<open>A section can always be finished\<close>

lemma moves_unique:
  assumes "moves E x y" and "moves E x (a, t, w)" and "point t = Returned"
  shows "moves E y (a, t, w)"
  using assms
proof (induction rule: converse_rtranclp_induct)
  case (step x x')
  have "x \<noteq> (a, t, w)" using step.hyps(1) step.prems(2) by (auto simp: thread_move_def thread_step_def)
  with step.prems(1) obtain x'' where "thread_move E x x''" "moves E x'' (a, t, w)" by (cases rule: converse_rtranclpE) auto
  moreover have "x'' = x'" using step.hyps(1) calculation(1) by (auto simp: thread_move_def split: prod.split_asm)
  ultimately show ?case using step by simp
qed simp

text \<open>A step that the thread makes alone it can make in the system.\<close>

definition own :: "nat \<Rightarrow> system \<Rightarrow> system \<Rightarrow> bool" where
  "own i y y' \<longleftrightarrow> serving y y' \<and> thread_acts i y = Some y'"

lemma alone_step:
  assumes x: "local_state i y = Some x" "thread_move session_env x x'"
    and on: "tstate (srv y) i \<noteq> None" and ph: "\<not> shutting (phase (srv y))" and ne: "point (control y i) \<noteq> At_exit"
    and opn: "point (control y i) = At_open \<Longrightarrow> sint (open_rc (world y i)) < 0 \<or> open_rc (world y i) \<notin> client_fds (srv y)"
  obtains y' where "own i y y'" "local_state i y' = Some x'"
proof -
  obtain c a where a: "targ (srv y) i = Some c" "conns (srv y) c = Some a"
    and x0: "x = narrowed (a, control y i, view i y)"
    using x(1) by (auto simp: local_state_def bind_eq_Some_conv)
  have rc: "open_rc (view i y) = open_rc (world y i)" by simp
  have "thread_step session_env a (control y i) (narrow (own_fd a (point (control y i))) (view i y)) = Some x'"
    using x(2) x0 by (simp add: thread_move_def narrowed_def)
  then have "map_option narrowed (thread_step session_env a (control y i) (view i y)) = Some x'"
    using step_narrow [OF ne, of "view i y" a] opn by simp
  then obtain a' t' w where st: "thread_step session_env a (control y i) (view i y) = Some (a', t', w)"
    and x': "x' = narrowed (a', t', w)" by auto
  let ?y = "y\<lparr>srv := (srv y)\<lparr>client_fds := sockets w, conns := (conns (srv y))(c \<mapsto> a'),
        tstate := (tstate (srv y))(i \<mapsto> status (point t'))\<rparr>,
      dev := machine w, file_lock := mutex_held w, control := (control y)(i := t'), world := (world y)(i := w)\<rparr>"
  have acts: "thread_acts i y = Some ?y" using a st by (simp add: thread_acts_def)
  moreover have "serving y ?y" using sys_thread [OF on acts] ph by (simp add: serving_def)
  moreover have "view i ?y = w" by (simp add: view_def)
  then have "local_state i ?y = Some x'" using a(1) x' by (simp add: local_state_def del: view_sel)
  ultimately show thesis using that by (simp add: own_def)
qed

lemma acts_control:
  assumes "thread_acts i y = Some y'"
  shows "point (control y' i) \<noteq> At_lock" and "j \<noteq> i \<Longrightarrow> control y' j = control y j"
proof -
  obtain a a' t' w where "thread_step session_env a (control y i) (view i y) = Some (a', t', w)"
    "control y' = (control y)(i := t')"
    using assms by (auto simp: thread_acts_def bind_eq_Some_conv)
  then show "point (control y' i) \<noteq> At_lock" "j \<noteq> i \<Longrightarrow> control y' j = control y j" using step_not_start by auto
qed

lemma finish_alone:
  assumes "moves session_env x (a, t, w)" and "point t = Returned"
    and "sys_inv B y" and "local_state i y = Some x" and "holds_lock (point (control y i))" and "\<not> shutting (phase (srv y))"
    and "point (control y i) = At_open \<Longrightarrow> sint (open_rc (world y i)) < 0 \<or> open_rc (world y i) \<notin> client_fds (srv y)"
  shows "\<exists>y'. (own i)\<^sup>*\<^sup>* y y' \<and> \<not> file_lock y'"
  using assms
proof (induction arbitrary: y rule: converse_rtranclp_induct)
  case base
  then have "control y i = t" by (auto simp: local_state_def narrowed_def bind_eq_Some_conv)
  with base show ?case by (simp add: holds_lock_def)
next
  case (step x x')
  note inv = step.prems(2) and hold = step.prems(4)
  have on: "tstate (srv y) i \<noteq> None" using holder(1) [OF inv hold] by simp
  have ne: "point (control y i) \<noteq> At_exit" using hold by (auto simp: holds_lock_def)
  obtain y' where st: "own i y y'" and x': "local_state i y' = Some x'"
    using step.prems(3) step.hyps(1) on step.prems(5) ne step.prems(6) by (rule alone_step)
  then have y': "serving y y'" "thread_acts i y = Some y'" by (simp_all add: own_def)
  have inv': "sys_inv B y'" using sys_step_inv [OF inv] y'(1) by (simp add: serving_def)
  have "file_lock y' \<longrightarrow> (\<exists>y''. (own i)\<^sup>*\<^sup>* y' y'' \<and> \<not> file_lock y'')"
  proof
    assume lk: "file_lock y'"
    from inv on y'(2) have hold': "holds_lock (point (control y' i)) \<and> point (control y' i) \<noteq> At_open"
    proof (cases rule: thread_acts_cases)
      case (1 es e a a' t' w)
      then show ?thesis using step_lock [OF 1(8)] hold lk step_opening [OF 1(8) hold] by auto
    qed
    have "\<not> shutting (phase (srv y'))" using y'(1) by (simp add: serving_def)
    with step.IH [OF step.prems(1) inv' x'] hold' show "\<exists>y''. (own i)\<^sup>*\<^sup>* y' y'' \<and> \<not> file_lock y''" by blast
  qed
  then show ?case using st by (meson converse_rtranclp_into_rtranclp r_into_rtranclp)
qed

text \<open>A thread whose descriptor for the device is taken gets no further than to its \<open>open\<close>.\<close>

lemma stuck_open:
  assumes w: "\<not> mutex_held w" "0 \<le> sint (open_rc w)" "open_rc w \<in> sockets w" and t: "point t = At_lock"
    and mv: "moves session_env (a, t, w) (a', t', w')" and ne: "point t' \<noteq> At_lock"
  shows "point t' = At_open" and "client_fd a' = client_fd a" and "open_rc w' = open_rc w"
proof -
  let ?x = "(a\<lparr>thread_complete := False\<rparr>, t\<lparr>point := At_open\<rparr>, w\<lparr>mutex_held := True\<rparr>)"
  have first: "thread_move session_env (a, t, w) x \<longleftrightarrow> x = ?x" for x
    using w(1) t by (auto simp: thread_move_def thread_step_def lock_mutex_def session_lock_def)
  have no: "\<not> thread_move session_env ?x x" for x
    using w by (auto simp: thread_move_def thread_step_def session_open_def Let_def)
  have "(a, t, w) \<noteq> (a', t', w')" using t ne by auto
  with mv obtain x where "thread_move session_env (a, t, w) x" "moves session_env x (a', t', w')"
    by (cases rule: converse_rtranclpE) auto
  then have "moves session_env ?x (a', t', w')" using first by simp
  then have "?x = (a', t', w')" by (cases rule: converse_rtranclpE) (use no in auto)
  then show "point t' = At_open" "client_fd a' = client_fd a" "open_rc w' = open_rc w" by auto
qed

lemma thread_will_return:
  assumes "connection_thread session_env (recv_buffer t) (send_buffer t) a w = Some r" and "point t = At_lock"
  shows "\<exists>a' t' w'. moves session_env (a, t, w) (a', t', w') \<and> point t' = Returned"
proof -
  have "t = thread_start (recv_buffer t) (send_buffer t)" using assms(2) by (simp add: thread_start_def)
  with thread_ends [of session_env "recv_buffer t" "send_buffer t" a w "fst r" "snd r"] assms(1) show ?thesis
    by (auto simp: ends_def)
qed

lemma section_finishes:
  assumes inv: "sys_inv B y" and ser: "serial B y0 is y" and able: "able B N y0"
    and hold: "holds_lock (point (control y i))" and ph: "\<not> shutting (phase (srv y))"
    and spec: "\<And>l. spec_connection (inbox (world y0 i)) (sends (world y0 i)) l \<noteq> None"
    and opn: "point (control y i) = At_open \<Longrightarrow> open_rc (world y i) \<notin> client_fds (srv y)"
  shows "\<exists>y'. (own i)\<^sup>*\<^sup>* y y' \<and> \<not> file_lock y'"
proof -
  obtain l x0 x where x: "local_state i y = Some x" "entering B (world y0 i) l x0" "moves session_env x0 x"
    and fit: "length (pending l) + inbox_bytes (inbox (world y0 i)) \<le> N"
    using inv hold ser able by (rule serial_inside)
  obtain a t w where x0: "x0 = (a, t, w)" and t: "point t = At_lock"
    and sel: "sockets w = {client_fd a}" "\<not> mutex_held w"
    using x(2) by (rule entering_cases)
  obtain c b where b: "targ (srv y) i = Some c" "conns (srv y) c = Some b"
    and xy: "x = (b, control y i, narrow (own_fd b (point (control y i))) (view i y))"
    using x(1) by (auto simp: local_state_def narrowed_def bind_eq_Some_conv)
  have free: "open_rc w \<noteq> client_fd a" if nonneg: "0 \<le> sint (open_rc w)"
  proof
    assume "open_rc w = client_fd a"
    then have "open_rc w \<in> sockets w" using sel(1) by simp
    note stuck = stuck_open [OF sel(2) nonneg this t x(3) [unfolded x0 xy]]
    have "point (control y i) \<noteq> At_lock" using hold by (auto simp: holds_lock_def)
    from stuck [OF this] have op: "point (control y i) = At_open" "client_fd b = client_fd a" "open_rc (world y i) = open_rc w"
      by simp_all
    have "client_fd b \<in> client_fds (srv y)"
      by (rule running_connected [OF _ _ b]) (use inv op holder(1) [OF inv hold] ph in \<open>auto simp: sys_inv_def shutting_def\<close>)
    with opn op \<open>open_rc w = client_fd a\<close> show False by simp
  qed
  have "\<exists>r. connection_thread session_env (recv_buffer t) (send_buffer t) a w = Some r"
  proof (cases "sint (open_rc w) < 0")
    case True
    with serve_open_fails [OF sel(2)] show ?thesis by blast
  next
    case False
    then have "serves B (recv_buffer t) (send_buffer t) a w (spec_connection (inbox (world y0 i)) (sends (world y0 i)) l)"
      using entering_exact [OF x(2) [unfolded x0] _ _ fit] able free by (simp add: able_def)
    with spec [of l] show ?thesis by (auto simp: serves_def split: option.split_asm)
  qed
  then obtain a' t' w' where "moves session_env (a, t, w) (a', t', w')" "point t' = Returned"
    using thread_will_return t by blast
  from finish_alone [OF moves_unique [OF x(3) [unfolded x0] this] this(2) inv x(1) hold ph] opn show ?thesis by blast
qed

end
