(* ===== verification/System_Safety.thy ===== *)
theory System_Safety
  imports System_Invariant
begin

text \<open>
  Every thread can always make its next step, in every state that the system can reach, the shutdown
  included: it only waits for the mutex, for a free descriptor number or for its client, and
  the one access outside an array that it can make is the search for a seek command in a full buffer.
\<close>

section \<open>What the system calls give\<close>

text \<open>
  An interrupted lock returns a negative code, and a copy to user space writes no more than it is asked to.
\<close>

definition kernel_bounded :: "kernel \<Rightarrow> bool" where
  "kernel_bounded K \<longleftrightarrow> sint (lock_rc K) \<le> 0 \<and> (\<forall>bs. length (fst (copy_to_user K bs)) \<le> length bs)"

lemma session_recv_bounds:
  assumes "session_recv fd n w = Some (r, bs, w')"
  shows "r = of_nat (length bs) \<and> length bs \<le> n \<or> r = - 1 \<and> bs = []"
  using assms by (auto simp: session_recv_def Let_def split: if_split_asm list.split_asm recv_event.split_asm)

lemma session_recv_None_iff: "session_recv fd n w = None \<longleftrightarrow> fd \<in> sockets w \<and> inbox w = []"
  by (auto simp: session_recv_def Let_def split: list.split recv_event.split)

lemma aesd_read_bounds:
  assumes K: "kernel_ok K" "kernel_bounded K" and count: "unat count \<le> BUFFER_SIZE"
    and rd: "aesd_read K f count pos s = Some (r, pos', bs, s')"
  shows "length bs \<le> unat count \<and> (unat r \<le> unat count \<or> bs = [] \<and> (\<exists>e :: c_int. sint e < 0 \<and> r = scast e))"
proof (cases "lock_rc K = 0")
  case False
  then have "sint (lock_rc K) \<noteq> 0" using word_eq_iff_signed [of "lock_rc K" 0] by simp
  with False rd K(2) show ?thesis
    by (auto simp: aesd_read_def bind_eq_Some_conv mutex_lock_interruptible_def kernel_bounded_def split: if_split_asm
        intro!: exI [of _ "lock_rc K"])
next
  case True
  let ?l = "s\<lparr>aesd_device := (aesd_device s)\<lparr>device_mutex := True\<rparr>\<rparr>"
  have lock: "mutex_lock_interruptible K s = Some (0, ?l)"
    using True rd by (auto simp: aesd_read_def bind_eq_Some_conv mutex_lock_interruptible_def split: if_split_asm)
  obtain x where x: "aesd_circular_buffer_find_entry_offset_for_fpos (circular_buffer (aesd_device ?l)) pos = Some x"
    using rd lock by (auto simp: aesd_read_def bind_eq_Some_conv)
  show ?thesis
  proof (cases x)
    case None
    with rd lock x have "bs = [] \<and> r = 0" by (auto simp: aesd_read_def bind_eq_Some_conv)
    then show ?thesis by simp
  next
    case (Some y)
    obtain i offset where y: "y = (i, offset)" by (cases y)
    from rd lock x Some y obtain e a src where e: "entry_at (circular_buffer (aesd_device ?l)) i = Some e" "buffptr e = Some a"
      and src0: "load_bytes (kheap ?l) a (unat offset)
        (unat (if count < entry_size e - offset then count else entry_size e - offset)) = Some src"
      by (auto simp: aesd_read_def bind_eq_Some_conv Let_def)
    let ?m = "if count < entry_size e - offset then count else entry_size e - offset"
    have src: "load_bytes (kheap ?l) a (unat offset) (unat ?m) = Some src" "bs = fst (copy_to_user K src)"
      "r = (if (ucast (snd (copy_to_user K src)) :: c_int) \<noteq> 0 then scast (ucast (snd (copy_to_user K src)) :: c_int) else ?m)"
      using rd lock x Some y e src0
      by (simp_all add: aesd_read_def Let_def case_prod_unfold bind_eq_Some_conv split: if_split_asm) blast+
    have m: "unat ?m \<le> unat count" by (simp add: word_less_nat_alt not_less)
    then have len: "length src \<le> unat count" using src(1) by (auto simp: load_bytes_def bind_eq_Some_conv split: if_split_asm)
    have left: "unat (snd (copy_to_user K src)) \<le> length src" "length (fst (copy_to_user K src)) \<le> length src"
      using K by (auto simp: kernel_ok_def copy_ok_def kernel_bounded_def)
    then have "unat (snd (copy_to_user K src)) < 2 ^ 31" using len count by (simp add: BUFFER_SIZE_def)
    then have "(scast (ucast (snd (copy_to_user K src)) :: c_int) :: ssize_t) = snd (copy_to_user K src)"
      by (rule scast_ucast_small)
    then have "unat r \<le> unat count" using src(3) m left(1) len by (auto split: if_split_asm)
    then show ?thesis using src(2) left(2) len by simp
  qed
qed

section \<open>The buffers of a thread\<close>

definition buffers_ok :: "thread_state \<Rightarrow> bool" where
  "buffers_ok t \<longleftrightarrow>
     length (recv_buffer t) = BUFFER_SIZE \<and> length (send_buffer t) = BUFFER_SIZE \<and>
     (\<forall>out bs n. point t = At_write out bs n \<longrightarrow> bs \<noteq> [] \<and> length bs \<le> BUFFER_SIZE)"

lemma step_recv_chunk:
  assumes buf: "length (recv_buffer t) = BUFFER_SIZE"
    and recv: "sys_recv E cl BUFFER_SIZE w = Some (of_nat (length bs), bs, w1)"
    and bs: "bs \<noteq> []" "length bs \<le> BUFFER_SIZE"
  shows "step_recv E cl out t w =
    do { (rc, sk) \<leftarrow> chunk_seek bs;
         Some (t\<lparr>recv_buffer := padded bs,
                 point := (if rc = 0 then At_ioctl out sk (of_nat (length bs))
                           else At_write out (upto_newline bs) (of_nat (length bs)))\<rparr>, w1) }"
proof -
  note chunk = chunk_received [OF bs]
  obtain r where r: "memchr (padded bs) newline (unat (of_nat (length bs) :: ssize_t)) = Some r"
    "first_bytes (padded bs) (unat (scast (chunk_index r (of_nat (length bs)) + 1) :: size_t)) = Some (upto_newline bs)"
    using chunk(4) by blast
  show ?thesis
    unfolding step_recv_def Let_def chunk_index_def [symmetric] no_seek_def [symmetric]
    by (cases "chunk_seek bs") (auto simp: buf recv chunk(1-3,5) r split: prod.split)
qed

lemma step_recv_nothing:
  assumes buf: "length (recv_buffer t) = BUFFER_SIZE" and recv: "sys_recv E cl BUFFER_SIZE w = Some (r, [], w1)"
    and r: "r = 0 \<or> sint r < 0"
  shows "step_recv E cl out t w = Some (t\<lparr>recv_buffer := replicate BUFFER_SIZE 0, point := At_fail_client out\<rparr>, w1)"
  using assms by (cases "r = 0") (simp_all add: step_recv_def fill_def Let_def)

lemma upto_newline_ne: "bs \<noteq> [] \<Longrightarrow> upto_newline bs \<noteq> []"
  by (simp add: upto_newline_def)

lemma step_recv_cases:
  assumes buf: "length (recv_buffer t) = BUFFER_SIZE"
  obtains (waits) "session_recv cl BUFFER_SIZE w = None" "step_recv session_env cl out t w = None"
    | (no_bytes) w1 where "step_recv session_env cl out t w =
        Some (t\<lparr>recv_buffer := replicate BUFFER_SIZE 0, point := At_fail_client out\<rparr>, w1)"
      "\<forall>n bs w1. session_recv cl BUFFER_SIZE w = Some (n, bs, w1) \<longrightarrow> bs = []"
    | (chunk) bs w1 where "session_recv cl BUFFER_SIZE w = Some (of_nat (length bs), bs, w1)" "bs \<noteq> []" "length bs \<le> BUFFER_SIZE"
      "step_recv session_env cl out t w =
        do { (rc, sk) \<leftarrow> chunk_seek bs;
             Some (t\<lparr>recv_buffer := padded bs,
                     point := (if rc = 0 then At_ioctl out sk (of_nat (length bs))
                               else At_write out (upto_newline bs) (of_nat (length bs)))\<rparr>, w1) }"
proof (cases "session_recv cl BUFFER_SIZE w")
  case None
  then show thesis using waits by (simp add: step_recv_def)
next
  case (Some y)
  obtain n bs w1 where y: "y = (n, bs, w1)" by (cases y)
  show thesis
  proof (cases "bs = []")
    case True
    then have "n = 0 \<or> sint n < 0" using session_recv_bounds [of cl BUFFER_SIZE w n bs w1] Some y by auto
    then have st: "step_recv session_env cl out t w =
        Some (t\<lparr>recv_buffer := replicate BUFFER_SIZE 0, point := At_fail_client out\<rparr>, w1)"
      using step_recv_nothing [OF buf, of session_env cl w n w1 out] Some y True by simp
    show thesis by (rule no_bytes [OF st]) (use Some y True in auto)
  next
    case False
    then have n: "n = of_nat (length bs)" "length bs \<le> BUFFER_SIZE"
      using session_recv_bounds [of cl BUFFER_SIZE w n bs w1] Some y by auto
    with step_recv_chunk [OF buf, of session_env cl w bs w1 out] Some y False chunk show thesis by simp
  qed
qed

lemma step_recv_buffers:
  assumes ok: "buffers_ok t" and st: "step_recv session_env cl out t w = Some (t', w')"
  shows "buffers_ok t'"
proof -
  have "length (recv_buffer t) = BUFFER_SIZE" using ok by (simp add: buffers_ok_def)
  then show ?thesis
  proof (cases rule: step_recv_cases [where cl = cl and w = w and out = out])
    case (chunk bs w1)
    with st ok length_upto_newline [of bs] upto_newline_ne [of bs] show ?thesis
      by (auto simp: buffers_ok_def padded_def bind_eq_Some_conv split: if_split_asm)
  qed (use st ok in \<open>auto simp: buffers_ok_def\<close>)
qed

lemma step_buffers:
  assumes ok: "buffers_ok t" and st: "thread_step session_env a t w = Some (a', t', w')"
  shows "buffers_ok t'"
proof (cases "point t")
  case (At_recv out)
  with st obtain "step_recv session_env (client_fd a) out t w = Some (t', w')" by (auto simp: thread_step_def bind_eq_Some_conv)
  then show ?thesis by (rule step_recv_buffers [OF ok])
next
  case (At_read out)
  with st ok show ?thesis
    by (auto simp: thread_step_def step_read_def fill_def bind_eq_Some_conv buffers_ok_def Let_def split: if_split_asm)
qed (use st ok in \<open>auto simp: thread_step_def bind_eq_Some_conv buffers_ok_def after_round_def split: if_split_asm\<close>)

section \<open>When a thread makes no step\<close>

text \<open>It waits for the mutex, for a descriptor number that is free, or for its client.\<close>

definition thread_waits :: "connection_thread_args \<Rightarrow> thread_state \<Rightarrow> session \<Rightarrow> bool" where
  "thread_waits a t w \<longleftrightarrow>
     point t = At_lock \<and> mutex_held w \<or>
     point t = At_open \<and> 0 \<le> sint (open_rc w) \<and> (files (machine w) (unat (open_rc w)) \<noteq> None \<or> open_rc w \<in> sockets w) \<or>
     (\<exists>out. point t = At_recv out \<and> client_fd a \<in> sockets w \<and> inbox w = [])"

text \<open>
  With the chunk that it receives next in its buffer, the search for a seek command runs off the end of the buffer, or a
  number is copied or converted past the end of its array of ten bytes.
\<close>

definition thread_overruns :: "connection_thread_args \<Rightarrow> thread_state \<Rightarrow> session \<Rightarrow> bool" where
  "thread_overruns a t w \<longleftrightarrow>
     (\<exists>out msg es. point t = At_recv out \<and> client_fd a \<in> sockets w \<and> inbox w = Chunk msg # es \<and> msg \<noteq> [] \<and>
        (search_runs_off (padded (take BUFFER_SIZE msg)) \<or> field_runs_off (padded (take BUFFER_SIZE msg))))"

lemma session_read_bounds:
  assumes inv: "drv_inv B (machine w)" and K: "kernel_ok (kern w)" "kernel_bounded (kern w)"
  shows "\<exists>r bs w'. session_read fd BUFFER_SIZE w = Some (r, bs, w') \<and> length bs \<le> BUFFER_SIZE \<and>
    (sint (ucast r :: c_int) < 0 \<or> unat (ucast r :: c_int) \<le> BUFFER_SIZE)"
proof (cases "files (machine w) (unat fd)")
  case None
  then show ?thesis by (simp add: session_read_def ucast_minus_one)
next
  case (Some f)
  let ?n = "of_nat (min BUFFER_SIZE MAX_RW_COUNT) :: size_t"
  have n: "unat ?n = BUFFER_SIZE" by (simp add: BUFFER_SIZE_def MAX_RW_COUNT_def)
  have "dev_inv B (ks (machine w))" "private_data f \<noteq> None" using inv Some by (auto simp: drv_inv_def)
  from read_total [OF this, of "kern w" ?n "f_pos f"] obtain r pos bs where
    rd: "aesd_read (kern w) f ?n (f_pos f) (ks (machine w)) = Some (r, pos, bs, ks (machine w))" by blast
  have bounds: "length bs \<le> BUFFER_SIZE" "unat r \<le> BUFFER_SIZE \<or> (\<exists>e :: c_int. sint e < 0 \<and> r = scast e)"
    using aesd_read_bounds [OF K _ rd] n by auto
  have "sint (ucast (libc_ret r) :: c_int) < 0 \<or> unat (ucast (libc_ret r) :: c_int) \<le> BUFFER_SIZE"
    using bounds(2)
  proof
    assume small: "unat r \<le> BUFFER_SIZE"
    have "libc_ret r = of_nat (unat r)" using libc_ret_count [of "unat r"] small by (simp add: BUFFER_SIZE_def)
    then have eq: "(ucast (libc_ret r) :: c_int) = of_nat (unat r)" using ucast_of_nat_int [of "unat r"] by (simp only:)
    have "unat (of_nat (unat r) :: c_int) = unat r" using small by (intro unat_of_nat_small) (simp add: BUFFER_SIZE_def)
    then show ?thesis unfolding eq using small by simp
  next
    assume "\<exists>e :: c_int. sint e < 0 \<and> r = scast e"
    then obtain e :: c_int where "sint e < 0" "r = scast e" by blast
    moreover have "(ucast (scast e :: ssize_t) :: c_int) = e" by (rule bit_word_eqI) (simp add: bit_simps)
    ultimately show ?thesis by (simp add: libc_ret_def ucast_minus_one)
  qed
  with Some rd bounds(1) show ?thesis by (simp add: session_read_def)
qed

lemma step_read_total:
  assumes "drv_inv B (machine w)" and "kernel_ok (kern w)" and "kernel_bounded (kern w)" and "length (send_buffer t) = BUFFER_SIZE"
  shows "step_read session_env out t w \<noteq> None"
proof -
  obtain r bs w' where rd: "session_read out BUFFER_SIZE w = Some (r, bs, w')" "length bs \<le> BUFFER_SIZE"
    and r: "sint (ucast r :: c_int) < 0 \<or> unat (ucast r :: c_int) \<le> BUFFER_SIZE"
    using session_read_bounds [OF assms(1-3)] by blast
  from r show ?thesis
  proof
    assume "sint (ucast r :: c_int) < 0"
    with rd assms(4) show ?thesis by (simp add: step_read_def fill_def Let_def)
  next
    assume "unat (ucast r :: c_int) \<le> BUFFER_SIZE"
    with rd assms(4) show ?thesis by (simp add: step_read_def fill_def first_bytes_def Let_def)
  qed
qed

lemma session_write_total:
  assumes inv: "drv_inv B (machine w)" and K: "kernel_ok (kern w)" and bs: "bs \<noteq> []" "length bs \<le> BUFFER_SIZE"
  shows "session_write fd bs w \<noteq> None"
proof (cases "files (machine w) (unat fd)")
  case (Some f)
  have f: "dev_inv B (ks (machine w))" "private_data f \<noteq> None" using inv Some by (auto simp: drv_inv_def)
  have n: "unat (of_nat (length bs) :: size_t) = length bs" "take MAX_RW_COUNT bs = bs"
    using bs(2) by (simp_all add: BUFFER_SIZE_def MAX_RW_COUNT_def unat_of_nat_small)
  then have "(of_nat (length bs) :: size_t) \<noteq> 0" using bs(1) by (metis length_0_conv unat_eq_zero)
  then have "aesd_write (kern w) f bs (of_nat (length bs)) (ks (machine w)) \<noteq> None"
    using write_undefined_iff [OF f(1) K f(2), of "of_nat (length bs)" bs] n bs(2) by (simp add: BUFFER_SIZE_def MAX_RW_COUNT_def)
  with Some n show ?thesis by (auto simp: session_write_def)
qed (simp add: session_write_def)

lemma session_ioctl_total:
  assumes inv: "drv_inv B (machine w)"
  shows "session_ioctl fd cmd arg w \<noteq> None"
proof (cases "files (machine w) (unat fd)")
  case (Some f)
  have f: "dev_inv B (ks (machine w))" "private_data f \<noteq> None" using inv Some by (auto simp: drv_inv_def)
  from ioctl_total [OF this, of "kern w" cmd arg] Some show ?thesis by (auto simp: session_ioctl_def Let_def)
qed (simp add: session_ioctl_def)

lemma step_recv_None_iff:
  assumes "length (recv_buffer t) = BUFFER_SIZE"
  shows "step_recv session_env cl out t w = None \<longleftrightarrow> cl \<in> sockets w \<and>
    (inbox w = [] \<or> (\<exists>msg es. inbox w = Chunk msg # es \<and> msg \<noteq> [] \<and> chunk_seek (take BUFFER_SIZE msg) = None))"
  using assms
proof (cases rule: step_recv_cases [where cl = cl and w = w and out = out])
  case waits
  then show ?thesis by (auto simp: session_recv_None_iff)
next
  case (no_bytes w1)
  then have "session_recv cl BUFFER_SIZE w \<noteq> None" by (intro notI) (simp add: step_recv_def)
  then have "\<not> (cl \<in> sockets w \<and> inbox w = [])" by (simp add: session_recv_None_iff)
  moreover have "msg = []" if "cl \<in> sockets w" "inbox w = Chunk msg # es" for msg es
  proof -
    have "take BUFFER_SIZE msg = []" using no_bytes(2) that by (auto simp: session_recv_def Let_def)
    then show ?thesis by (simp add: BUFFER_SIZE_def)
  qed
  ultimately show ?thesis using no_bytes(1) by auto
next
  case (chunk bs w1)
  then obtain msg es where "cl \<in> sockets w" "inbox w = Chunk msg # es" "bs = take BUFFER_SIZE msg"
    by (auto simp: session_recv_def Let_def split: if_split_asm list.split_asm recv_event.split_asm)
  with chunk show ?thesis by (auto simp: bind_eq_None_conv split: prod.split)
qed

lemma thread_step_None_iff:
  assumes inv: "drv_inv B (machine w)" and K: "kernel_ok (kern w)" "kernel_bounded (kern w)" and buf: "buffers_ok t"
    and pt: "point t \<noteq> Returned" and lk: "holds_lock (point t) \<Longrightarrow> mutex_held w"
  shows "thread_step session_env a t w = None \<longleftrightarrow> thread_waits a t w \<or> thread_overruns a t w"
proof -
  have bufs: "length (recv_buffer t) = BUFFER_SIZE" "length (send_buffer t) = BUFFER_SIZE" using buf by (simp_all add: buffers_ok_def)
  have cl: "session_close fd w \<noteq> None" "session_send fd bs w \<noteq> None" for fd bs
    by (auto simp: session_close_def session_send_def Let_def split: option.split prod.split)
  have un: "unlock_mutex session_env m w = None \<longleftrightarrow> \<not> mutex_held w" "lock_mutex session_env m w = None \<longleftrightarrow> mutex_held w" for m
    by (auto simp: unlock_mutex_def lock_mutex_def session_unlock_def session_lock_def)
  have op: "session_open w = None \<longleftrightarrow>
      0 \<le> sint (open_rc w) \<and> (files (machine w) (unat (open_rc w)) \<noteq> None \<or> open_rc w \<in> sockets w)"
    by (auto simp: session_open_def aesd_open_def Let_def)
  show ?thesis
  proof (cases "point t")
    case (At_recv out)
    then show ?thesis
      using step_recv_None_iff [OF bufs(1), of "client_fd a" out w]
      by (auto simp: thread_step_def thread_waits_def thread_overruns_def bind_eq_None_conv
          chunk_seek_def scan_seek_None_iff split: prod.split)
  next
    case (At_write out bs n)
    then have "session_write out bs w \<noteq> None"
      using session_write_total [OF inv K(1)] buf by (simp add: buffers_ok_def)
    with At_write show ?thesis by (auto simp: thread_step_def thread_waits_def thread_overruns_def)
  qed (use step_read_total [OF inv K bufs(2)] session_ioctl_total [OF inv] cl un op lk pt in
      \<open>auto simp: thread_step_def thread_waits_def thread_overruns_def holds_lock_def bind_eq_None_conv split: prod.split\<close>)
qed

section \<open>Every reachable state\<close>

definition safe_init :: "addr set \<Rightarrow> system \<Rightarrow> bool" where
  "safe_init B y \<longleftrightarrow> sys_init B y \<and> (\<forall>i. kernel_bounded (kern (world y i)))"

definition safe_inv :: "addr set \<Rightarrow> system \<Rightarrow> bool" where
  "safe_inv B y \<longleftrightarrow> sys_inv B y \<and> (\<forall>i. buffers_ok (control y i) \<and> kernel_bounded (kern (world y i)))"

lemma safe_init_inv:
  assumes "safe_init B y"
  shows "safe_inv B y"
proof -
  have "buffers_ok (control y i)" for i
  proof -
    obtain rb sb where "control y i = thread_start rb sb" "length rb = BUFFER_SIZE" "length sb = BUFFER_SIZE"
      using assms unfolding safe_init_def sys_init_def by blast
    then show ?thesis by (simp add: buffers_ok_def thread_start_def)
  qed
  with assms sys_init_inv show ?thesis by (simp add: safe_init_def safe_inv_def)
qed

lemma safe_step_inv:
  assumes inv: "safe_inv B y" and st: "sys_step y y'"
  shows "safe_inv B y'"
proof -
  have sys: "sys_inv B y" using inv by (simp add: safe_inv_def)
  have "\<forall>i. buffers_ok (control y' i) \<and> kernel_bounded (kern (world y' i))"
    using st
  proof cases
    case (sys_thread i)
    with sys show ?thesis
    proof (cases rule: thread_acts_cases)
      case (1 es e a a' t' w)
      then show ?thesis
        using inv step_buffers [OF _ 1(8)] thread_acts_dev(2) [OF sys 1(8)] by (simp add: safe_inv_def)
    qed
  qed (use inv in \<open>simp_all add: safe_inv_def\<close>)
  with sys_step_inv [OF sys st] show ?thesis by (simp add: safe_inv_def)
qed

interpretation safe: invariant_system "safe_init B" sys_step "safe_inv B" for B
  by unfold_locales (use safe_init_inv safe_step_inv in blast)+

lemma acts_None_iff:
  assumes inv: "safe_inv B y" and st: "tstate (srv y) i = Some st" "st \<noteq> Finished" "st \<noteq> Joined"
  shows "\<exists>c a. targ (srv y) i = Some c \<and> conns (srv y) c = Some a \<and>
    (thread_acts i y = None \<longleftrightarrow> thread_waits a (control y i) (view i y) \<or> thread_overruns a (control y i) (view i y))"
proof -
  have sys: "sys_inv B y" using inv by (simp add: safe_inv_def)
  then obtain es where "entries_ok es (srv y)" by (auto simp: sys_inv_def srv_inv_def srv_ok_def)
  then obtain e where "e \<in> set es" "t_id e = i" "entry_ok (srv y) e" using st(1,3) by (rule thread_of_entry)
  then obtain a where a: "targ (srv y) i = Some (t_conn e)" "conns (srv y) (t_conn e) = Some a" by (auto simp: entry_ok_def)
  have "stands (Some st) (point (control y i))" using sys st(1) by (auto simp: sys_inv_def threads_ok_def dest: spec [of _ i])
  then have ret: "point (control y i) \<noteq> Returned" using st(2,3) by (cases st) auto
  have lk: "file_lock y" if "holds_lock (point (control y i))" using sys that unfolding sys_inv_def lock_ok_def by blast
  have "thread_step session_env a (control y i) (view i y) = None \<longleftrightarrow>
      thread_waits a (control y i) (view i y) \<or> thread_overruns a (control y i) (view i y)"
    by (rule thread_step_None_iff [of B]) (use inv sys ret lk in \<open>simp_all add: safe_inv_def sys_inv_def threads_ok_def\<close>)
  moreover have "thread_acts i y = None \<longleftrightarrow> thread_step session_env a (control y i) (view i y) = None"
    using a by (auto simp: thread_acts_def bind_eq_None_conv split: prod.split_asm)
  ultimately show ?thesis using a by (intro exI [of _ "t_conn e"] exI [of _ a]) simp
qed

end
