(* ===== verification/Server_Liveness.thy ===== *)
theory Server_Liveness
  imports Server_Invariant
begin

text \<open>
  The shutdown of \<open>run_server\<close> as a progress argument. Once \<open>quit\<close> is set every step that changes
  the state goes down in a lexicographic order: the main thread moves towards its return, threads
  come closer to their end, and the loop over the list has fewer elements left. Until the return
  some such step is possible.
\<close>

section \<open>The order\<close>

text \<open>How far the main thread is from its return when \<open>quit\<close> is set.\<close>

fun stage :: "phase \<Rightarrow> nat" where
  "stage (Reap _) = 4"
| "stage Accept = 3"
| "stage Check = 2"
| "stage Drain = 1"
| "stage (Join _) = 1"
| "stage (Exited _) = 0"

definition running :: "server \<Rightarrow> nat set" where
  "running s = {i. tstate s i = Some Running}"

definition leaving :: "server \<Rightarrow> nat set" where
  "leaving s = {i. tstate s i = Some Leaving}"

definition ending :: "server \<Rightarrow> nat set" where
  "ending s = {i. tstate s i = Some Ending}"

definition thread_work :: "server \<Rightarrow> nat" where
  "thread_work s = 3 * card (running s) + 2 * card (leaving s) + card (ending s)"

text \<open>
  The number of elements from a pointer on; a list that ends has one length. An iteration of the
  final loop takes two steps.
\<close>

definition seg_length :: "(addr \<rightharpoonup> 'd snode) \<Rightarrow> ptr \<Rightarrow> nat" where
  "seg_length h p = (THE n. \<exists>xs. slist_seg h p xs NULL \<and> length xs = n)"

lemma seg_length: "slist_seg h p xs NULL \<Longrightarrow> seg_length h p = length xs"
  unfolding seg_length_def by (rule the_equality) (auto dest: seg_functional)

definition loop_work :: "server \<Rightarrow> nat" where
  "loop_work s =
     2 * seg_length (nodes (thread_list s))
       (case phase s of Reap p \<Rightarrow> p | _ \<Rightarrow> slh_first (thread_list s)) +
     (if phase s = Drain then 1 else 0)"

definition closer :: "(server \<times> server) set" where
  "closer = inv_image (less_than <*lex*> less_than <*lex*> less_than)
     (\<lambda>s. (stage (phase s), thread_work s, loop_work s))"

lemma wf_closer: "wf closer"
  unfolding closer_def by (intro wf_inv_image wf_lex_prod wf_less_than)

lemma closerI:
  "stage (phase t) < stage (phase s) \<Longrightarrow> (t, s) \<in> closer"
  "phase t = phase s \<Longrightarrow> thread_work t < thread_work s \<Longrightarrow> (t, s) \<in> closer"
  "stage (phase t) = stage (phase s) \<Longrightarrow> thread_work t = thread_work s \<Longrightarrow> loop_work t < loop_work s \<Longrightarrow>
   (t, s) \<in> closer"
  by (auto simp: closer_def)

section \<open>The steps\<close>

lemma entries_seg:
  assumes "entries_ok (us @ vs) s"
  shows "slist_seg (nodes (thread_list s)) (case vs of [] \<Rightarrow> NULL | v # _ \<Rightarrow> Some (t_node v)) (map t_node vs) NULL"
proof -
  obtain r where "slist_seg (nodes (thread_list s)) r (map t_node vs) NULL"
    using assms by (auto simp: entries_ok_def slist_holds_def seg_append)
  then show ?thesis by (cases vs) auto
qed

lemma threads_finite:
  assumes "entries_ok es s"
  shows "finite (running s)" "finite (leaving s)" "finite (ending s)"
proof -
  have "running s \<union> leaving s \<union> ending s \<subseteq> t_id ` set es"
    using assms by (auto simp: entries_ok_def running_def leaving_def ending_def)
  then have "finite (running s \<union> leaving s \<union> ending s)" by (rule finite_subset) simp
  then show "finite (running s)" "finite (leaving s)" "finite (ending s)" by simp_all
qed

text \<open>Joining a thread that has returned is no work.\<close>

lemma released_work:
  assumes "tstate s (t_id e) = Some Finished"
  shows "thread_work (released e l s) = thread_work s"
proof -
  have "running (released e l s) = running s" "leaving (released e l s) = leaving s" "ending (released e l s) = ending s"
    using assms by (auto simp: running_def leaving_def ending_def released_def)
  then show ?thesis by (simp add: thread_work_def)
qed

lemma thread_work_other [simp]:
  "thread_work (s\<lparr>phase := p\<rparr>) = thread_work s" "thread_work (s\<lparr>client_fds := fds\<rparr>) = thread_work s"
  by (simp_all add: thread_work_def running_def leaving_def ending_def)

text \<open>A thread that goes on to a later place.\<close>

fun weight :: "tstatus option \<Rightarrow> nat" where
  "weight (Some Running) = 3"
| "weight (Some Leaving) = 2"
| "weight (Some Ending) = 1"
| "weight _ = 0"

lemma card_except:
  assumes "finite A"
  shows "card A = card (A - {j}) + (if j \<in> A then 1 else 0)"
  using assms card.remove [of A j] by auto

lemma thread_work_except:
  assumes "finite (running s)" "finite (leaving s)" "finite (ending s)"
  shows "thread_work s = weight (tstate s j) + 3 * card (running s - {j}) + 2 * card (leaving s - {j}) + card (ending s - {j})"
proof -
  have w: "weight (tstate s j) = 3 * (if j \<in> running s then 1 else 0) + 2 * (if j \<in> leaving s then 1 else 0) +
      (if j \<in> ending s then 1 else 0)"
    by (cases "tstate s j" rule: weight.cases) (simp_all add: running_def leaving_def ending_def)
  show ?thesis
    using card_except [OF assms(1), of j] card_except [OF assms(2), of j] card_except [OF assms(3), of j]
    unfolding thread_work_def w by linarith
qed

lemma thread_step_closer:
  assumes ok: "entries_ok es s" and t: "tstate t = (tstate s)(i \<mapsto> st)" "phase t = phase s"
    and down: "weight (Some st) < weight (tstate s i)"
  shows "(t, s) \<in> closer"
proof (rule closerI(2) [OF t(2)])
  note fin = threads_finite [OF ok]
  have "running t \<subseteq> insert i (running s)" "leaving t \<subseteq> insert i (leaving s)" "ending t \<subseteq> insert i (ending s)"
    using t(1) by (auto simp: running_def leaving_def ending_def split: if_splits)
  then have fin': "finite (running t)" "finite (leaving t)" "finite (ending t)"
    using fin by (auto intro: finite_subset)
  have "running t - {i} = running s - {i}" "leaving t - {i} = leaving s - {i}" "ending t - {i} = ending s - {i}"
    using t(1) by (auto simp: running_def leaving_def ending_def)
  then show "thread_work t < thread_work s"
    using thread_work_except [OF fin, of i] thread_work_except [OF fin', of i] t(1) down by simp
qed

lemma reap_step_closer:
  assumes ok: "srv_ok es s" and ph: "phase s = Reap (Some a)" and st: "reap_step a s = Some t"
  shows "(t, s) \<in> closer"
proof -
  have ent: "entries_ok es s" using ok by (simp add: srv_ok_def)
  from reap_step_result [OF assms] obtain us e vs where es: "es = us @ e # vs" "a = t_node e" and
    res: "t = s\<lparr>phase := Reap (case vs of [] \<Rightarrow> NULL | v # _ \<Rightarrow> Some (t_node v))\<rparr> \<or>
     (\<exists>l. t = (released e l s)\<lparr>phase := Reap (case vs of [] \<Rightarrow> NULL | v # _ \<Rightarrow> Some (t_node v))\<rparr> \<and>
       entries_ok (us @ vs) t \<and> tstate s (t_id e) = Some Finished)" by blast
  have ph': "phase t = Reap (case vs of [] \<Rightarrow> NULL | v # _ \<Rightarrow> Some (t_node v))" using res by auto
  have "\<exists>ws. entries_ok (ws @ vs) t" using res
  proof
    assume "t = s\<lparr>phase := Reap (case vs of [] \<Rightarrow> NULL | v # _ \<Rightarrow> Some (t_node v))\<rparr>"
    then show ?thesis using ent es by (intro exI [of _ "us @ [e]"]) simp
  qed blast
  then have "loop_work t = 2 * length vs"
    using seg_length [OF entries_seg [of _ vs t]] ph' by (auto simp: loop_work_def)
  moreover have "loop_work s = 2 * Suc (length vs)"
    using seg_length [OF entries_seg [of us "e # vs" s]] ent es ph by (simp add: loop_work_def)
  moreover have "thread_work t = thread_work s" using res released_work [of s e] by auto
  ultimately show ?thesis using ph ph' by (intro closerI(3)) auto
qed

lemma entries_loop_work:
  assumes "entries_ok es s" and "\<nexists>p. phase s = Reap p"
  shows "loop_work s = 2 * length es + (if phase s = Drain then 1 else 0)"
proof -
  have "slist_seg (nodes (thread_list s)) (slh_first (thread_list s)) (map t_node es) NULL"
    using assms(1) by (simp add: entries_ok_def slist_holds_def)
  from seg_length [OF this] assms(2) show ?thesis by (auto simp: loop_work_def split: phase.split)
qed

lemma drain_close_closer:
  assumes ok: "entries_ok (e # vs) s" and ph: "phase s = Drain" and st: "drain_close s = Some t"
  shows "(t, s) \<in> closer"
proof -
  obtain fds where t: "t = s\<lparr>client_fds := fds, phase := Join (t_node e)\<rparr>"
    using drain_close_result [OF ok] st by auto
  have "loop_work t < loop_work s"
    using entries_loop_work [of "e # vs" t] entries_loop_work [OF ok] ok ph t by simp
  with ph t show ?thesis by (intro closerI(3)) simp_all
qed

lemma drain_join_closer:
  assumes ok: "entries_ok (e # vs) s" and ph: "phase s = Join (t_node e)"
    and st: "drain_join (t_node e) s = Some t"
  shows "(t, s) \<in> closer"
proof -
  obtain l where t: "t = (released e l s)\<lparr>phase := Drain\<rparr>" "entries_ok vs t"
    and fin: "tstate s (t_id e) = Some Finished" using drain_join_release [OF ok st] by blast
  have "loop_work t < loop_work s"
    using entries_loop_work [OF t(2)] entries_loop_work [OF ok] ph t(1) by simp
  moreover have "thread_work t = thread_work s" using released_work [of s e l] fin t(1) by simp
  ultimately show ?thesis using ph t(1) by (intro closerI(3)) simp_all
qed

lemma accept_client_sel:
  "accept_client tData thr rc i datap fd peer len s = Some t \<Longrightarrow> phase t = Check \<and> (quit s \<longrightarrow> quit t)"
  by (cases tData; cases thr; cases datap; cases "rc = 0")
    (auto simp: accept_client_def bind_eq_Some_conv Let_def)

lemma quit_step:
  assumes "srv_step s t" and "quit s"
  shows "quit t"
  using assms
proof (cases rule: srv_step_cases)
  case (srv_reap a)
  then show ?thesis using assms(2)
    by (auto simp: reap_step_def reap_body_def bind_eq_Some_conv dest!: reap_free_stops split: if_splits)
next
  case (srv_accept fd tData thr datap i rc peer len)
  then show ?thesis using accept_client_sel assms(2) by blast
next
  case srv_close
  then show ?thesis using drain_stops(1) assms(2) by blast
next
  case (srv_join a)
  then show ?thesis using drain_stops(2) assms(2) by blast
qed (auto simp: run_server_end_def thread_close_def thread_flags_def thread_return_def shutdown_handler_def bind_eq_Some_conv)

text \<open>Every step goes down, except a signal, which changes nothing any more.\<close>

lemma quitting_step_closer:
  assumes "srv_inv s" and "quit s" and st: "srv_step s t"
  shows "t = s \<or> (t, s) \<in> closer"
proof -
  obtain es where ok: "srv_ok es s" using assms(1) by (auto simp: srv_inv_def)
  then have ent: "entries_ok es s" by (simp add: srv_ok_def)
  from st show ?thesis
  proof (cases rule: srv_step_cases)
    case (srv_reap a)
    then show ?thesis using reap_step_closer [OF ok] by blast
  next
    case (srv_accept fd tData thr datap i rc peer len)
    then have "phase t = Check" using accept_client_sel by blast
    with srv_accept(1) show ?thesis by (simp add: closerI(1))
  next
    case srv_close
    then obtain e vs where "es = e # vs" using entries_ok_Nil_iff [OF ent] by (cases es) auto
    then show ?thesis using drain_close_closer ent srv_close by blast
  next
    case (srv_join a)
    then obtain e vs where "es = e # vs" "a = t_node e" using ok by (auto simp: srv_ok_def phase_ok_def)
    then show ?thesis using drain_join_closer ent srv_join by blast
  next
    case (thr_close i)
    then have "(t, s) \<in> closer"
      using thread_step_closer [OF ent, of t i Leaving] by (auto simp: thread_close_def bind_eq_Some_conv)
    then show ?thesis ..
  next
    case (thr_flags i success)
    then have "(t, s) \<in> closer"
      using thread_step_closer [OF ent, of t i Ending] by (auto simp: thread_flags_def bind_eq_Some_conv)
    then show ?thesis ..
  next
    case (thr_return i)
    then have "(t, s) \<in> closer"
      using thread_step_closer [OF ent, of t i Finished] by (auto simp: thread_return_def)
    then show ?thesis ..
  next
    case (thr_open_failed i)
    then have "(t, s) \<in> closer"
      using thread_step_closer [OF ent, of t i Finished] by (auto simp: thread_return_def)
    then show ?thesis ..
  qed (use assms(2) in \<open>auto simp: run_server_end_def shutdown_handler_def closerI(1)\<close>)
qed

text \<open>Before the return there is a step that changes the state.\<close>

lemma thread_return_changes: "tstate s i = Some st \<Longrightarrow> st \<noteq> Finished \<Longrightarrow> thread_return i s \<noteq> s"
  by (auto simp: thread_return_def dest!: arg_cong [where f = tstate] fun_cong [where x = i])

lemma closer_neq: "(t, s) \<in> closer \<Longrightarrow> t \<noteq> s"
  using wf_closer wf_not_refl by fastforce

lemma quitting_not_stuck:
  assumes "srv_inv s" and "quit s" and "\<nexists>rc. phase s = Exited rc"
  shows "\<exists>t. srv_step s t \<and> t \<noteq> s"
proof -
  obtain es where ok: "srv_ok es s" using assms(1) by (auto simp: srv_inv_def)
  then have ent: "entries_ok es s" by (simp add: srv_ok_def)
  have moves: "\<exists>t. srv_step s t \<and> t \<noteq> s" if "srv_step s (s\<lparr>phase := p\<rparr>)" "p \<noteq> phase s" for p
  proof -
    have "phase (s\<lparr>phase := p\<rparr>) \<noteq> phase s" using that(2) by simp
    then show ?thesis using that(1) by metis
  qed
  show ?thesis
  proof (cases "phase s")
    case Check
    then show ?thesis using moves [of Drain] srv_quit assms(2) by simp
  next
    case (Reap p)
    show ?thesis
    proof (cases p)
      case None
      then show ?thesis using moves [of Accept] srv_pass_end [of s] Reap by simp
    next
      case (Some a)
      show ?thesis
      proof (cases "\<exists>i. tstate s i = Some Ending")
        case True
        then show ?thesis using thr_return thread_return_changes by blast
      next
        case False
        then obtain t where t: "reap_step a s = Some t" using reap_step_total [OF ok] Reap Some by auto
        then show ?thesis using srv_reap [of s a t] reap_step_closer [OF ok] closer_neq Reap Some by blast
      qed
    qed
  next
    case Accept
    then show ?thesis using moves [of Check] srv_accept_none by simp
  next
    case Drain
    show ?thesis
    proof (cases "SLIST_EMPTY (thread_list s)")
      case True
      have "phase (run_server_end s) \<noteq> phase s" using Drain by (simp add: run_server_end_def)
      then show ?thesis using srv_end [OF Drain True] by metis
    next
      case False
      then obtain e vs where es: "es = e # vs" using entries_ok_Nil_iff [OF ent] by (cases es) auto
      obtain t where "drain_close s = Some t" using drain_close_total [OF ok False] by blast
      then show ?thesis
        using srv_close [OF Drain False] drain_close_closer [of e vs s t] Drain ent es closer_neq by blast
    qed
  next
    case (Join a)
    obtain e vs where es: "es = e # vs" "a = t_node e" using ok Join by (auto simp: srv_ok_def phase_ok_def)
    then have eo: "entry_ok s e" using ent by (simp add: entries_ok_def)
    then have "tstate s (t_id e) \<in> {Some Running, Some Leaving, Some Ending, Some Finished}"
      by (simp add: entry_ok_def)
    then show ?thesis
    proof (elim insertE emptyE)
      assume "tstate s (t_id e) = Some Finished"
      then obtain t where "drain_join a s = Some t" using drain_join_result [of e vs s] ent es by blast
      then show ?thesis
        using srv_join [OF Join] drain_join_closer [of e vs s t] Join ent es closer_neq by blast
    next
      assume lv: "tstate s (t_id e) = Some Leaving"
      obtain t where t: "thread_flags (t_id e) True s = Some t" "tstate t (t_id e) = Some Ending"
        using eo by (auto simp: entry_ok_def thread_flags_def)
      then show ?thesis using thr_flags [OF lv t(1)] lv by force
    qed (use thr_return thr_open_failed thread_return_changes in blast)+
  next
    case (Exited rc)
    with assms(3) show ?thesis by blast
  qed
qed

interpretation shut: progress_system srv_init srv_step srv_inv quit "\<lambda>s. \<exists>rc. phase s = Exited rc" closer
  by unfold_locales (use wf_closer quit_step quitting_step_closer quitting_not_stuck in blast)+

text \<open>The value that is returned: a server that was not refused its mutex or its socket returns 0.\<close>

lemma exits_with_zero:
  assumes "srv_step s t" and "phase s \<noteq> Exited rc" and "phase t = Exited rc"
  shows "rc = 0"
  using assms
proof (cases rule: srv_step_cases)
  case (srv_reap a)
  then show ?thesis using assms(3) by (auto simp: reap_step_def bind_eq_Some_conv)
next
  case (srv_accept fd tData thr datap i rc peer len)
  then show ?thesis using assms(3) accept_client_sel by fastforce
next
  case srv_close
  then show ?thesis using drain_stops(1) [of s t] assms(3) by auto
next
  case (srv_join a)
  then show ?thesis using drain_stops(2) [of a s t] assms(3) by simp
qed (use assms in \<open>auto simp: run_server_end_def thread_close_def thread_flags_def thread_return_def shutdown_handler_def
    bind_eq_Some_conv split: if_splits\<close>)

end
