(* ===== verification/Queue_Links.thy ===== *)
theory Queue_Links
  imports Prelude
begin

text \<open>
  What the queue families of \<open>server/queue.h\<close> share. A \<open>struct type **\<close> of those macros points
  to a link: the first-element field of a head or the next-element field of an element. A family
  is seen through up to three views of its memory: the pointer stored in a link, the link an
  element's back pointer points to, and the link a head's tail pointer points to. The lemmas say
  how each view represents a set of lists, one per head, when an element is linked in or out, when
  one list is appended to another and when two heads are exchanged. The loops over the elements
  are shared too.
\<close>

section \<open>Links\<close>

datatype link = At_head nat | At_elem addr

type_synonym lists = "nat \<rightharpoonup> addr list"

abbreviation (input) first_ptr :: "addr list \<Rightarrow> ptr" where
  "first_ptr xs \<equiv> (case xs of [] \<Rightarrow> NULL | x # _ \<Rightarrow> Some x)"

text \<open>The link that ends the elements \<open>xs\<close> after the link \<open>l\<close>.\<close>

definition end_link :: "link \<Rightarrow> addr list \<Rightarrow> link" where
  "end_link l xs = (if xs = [] then l else At_elem (last xs))"

lemma end_link_simps [simp]:
  "end_link l [] = l"
  "end_link l (a # xs) = end_link (At_elem a) xs"
  "end_link l (xs @ ys) = end_link (end_link l xs) ys"
  by (auto simp: end_link_def)

lemma end_link_elem: "end_link (At_elem a) xs = At_elem (last (a # xs))"
  by (simp add: end_link_def)

lemma end_link_cases: "end_link l xs = l \<or> (\<exists>a \<in> set xs. end_link l xs = At_elem a)"
  by (simp add: end_link_def)

lemma end_link_head_eq [simp]: "end_link (At_head h) xs = At_head h' \<longleftrightarrow> h = h' \<and> xs = []"
  by (auto simp: end_link_def)

lemma head_eq_end_link [simp]: "At_head h' = end_link (At_head h) xs \<longleftrightarrow> h = h' \<and> xs = []"
  by (auto simp: end_link_def)

lemma end_link_head_elem: "end_link (At_head h) xs = At_elem a \<Longrightarrow> a \<in> set xs"
  by (auto simp: end_link_def split: if_splits)

section \<open>A list of elements behind a link\<close>

fun linked :: "(link \<Rightarrow> ptr option) \<Rightarrow> link \<Rightarrow> addr list \<Rightarrow> bool" where
  "linked rd l [] \<longleftrightarrow> rd l = Some NULL"
| "linked rd l (a # xs) \<longleftrightarrow> rd l = Some (Some a) \<and> linked rd (At_elem a) xs"

fun chained :: "(link \<Rightarrow> ptr option) \<Rightarrow> link \<Rightarrow> addr list \<Rightarrow> bool" where
  "chained rd l [] \<longleftrightarrow> True"
| "chained rd l (a # xs) \<longleftrightarrow> rd l = Some (Some a) \<and> chained rd (At_elem a) xs"

fun backed :: "(addr \<Rightarrow> link option) \<Rightarrow> link \<Rightarrow> addr list \<Rightarrow> bool" where
  "backed pv l [] \<longleftrightarrow> True"
| "backed pv l (a # xs) \<longleftrightarrow> pv a = Some l \<and> backed pv (At_elem a) xs"

lemma linked_append [simp]:
  "linked rd l (xs @ ys) \<longleftrightarrow> chained rd l xs \<and> linked rd (end_link l xs) ys"
  by (induction xs arbitrary: l) auto

lemma backed_append [simp]:
  "backed pv l (xs @ ys) \<longleftrightarrow> backed pv l xs \<and> backed pv (end_link l xs) ys"
  by (induction xs arbitrary: l) auto

lemma linked_read: "linked rd l xs \<Longrightarrow> rd l = Some (first_ptr xs)"
  by (cases xs) auto

lemma linked_chained: "linked rd l xs \<longleftrightarrow> chained rd l xs \<and> rd (end_link l xs) = Some NULL"
  using linked_append [of rd l xs "[]"] by simp

lemma linked_defined: "linked rd l xs \<Longrightarrow> a \<in> set xs \<Longrightarrow> rd (At_elem a) \<noteq> None"
proof (induction xs arbitrary: l)
  case Nil
  then show ?case by simp
next
  case (Cons b xs)
  then show ?case by (cases xs) auto
qed

lemma linked_functional: "linked rd l xs \<Longrightarrow> linked rd l ys \<Longrightarrow> xs = ys"
proof (induction xs arbitrary: l ys)
  case Nil
  then show ?case by (cases ys) auto
next
  case (Cons a xs)
  then show ?case by (cases ys) auto
qed

text \<open>A list that ends visits no element twice.\<close>

lemma linked_distinct:
  assumes "linked rd l xs"
  shows "distinct xs"
proof (rule ccontr)
  assume "\<not> distinct xs"
  then obtain us a vs ws where xs: "xs = us @ [a] @ vs @ [a] @ ws"
    using not_distinct_decomp by blast
  with assms have "linked rd (At_elem a) (vs @ [a] @ ws)" and "linked rd (At_elem a) ws" by simp_all
  then have "vs @ [a] @ ws = ws" by (rule linked_functional)
  then have "length (vs @ [a] @ ws) = length ws" by simp
  then show False by simp
qed

lemma linked_frame:
  "linked rd l xs \<Longrightarrow> rd' l = rd l \<Longrightarrow> (\<And>a. a \<in> set xs \<Longrightarrow> rd' (At_elem a) = rd (At_elem a)) \<Longrightarrow>
   linked rd' l xs"
  by (induction xs arbitrary: l) auto

lemma chained_update:
  "chained rd l xs \<Longrightarrow> k \<notin> set (butlast (l # map At_elem xs)) \<Longrightarrow> chained (rd(k := v)) l xs"
  by (induction xs arbitrary: l) (auto split: if_splits)

lemma linked_update:
  "linked rd l xs \<Longrightarrow> k \<noteq> l \<Longrightarrow> k \<notin> At_elem ` set xs \<Longrightarrow> linked (rd(k := v)) l xs"
  by (induction xs arbitrary: l) auto

lemma backed_frame:
  "backed pv l xs \<Longrightarrow> (\<And>a. a \<in> set xs \<Longrightarrow> pv' a = pv a) \<Longrightarrow> backed pv' l xs"
  by (induction xs arbitrary: l) auto

lemma backed_update: "backed pv l xs \<Longrightarrow> a \<notin> set xs \<Longrightarrow> backed (pv(a := v)) l xs"
  by (erule backed_frame) auto

text \<open>The link before an element is among the links before the end.\<close>

lemma end_not_before:
  assumes "distinct (us @ ws)"
  shows "end_link (At_head h) us \<notin> set (butlast (At_head h # map At_elem us))"
proof (cases us rule: rev_cases)
  case (snoc vs b)
  with assms show ?thesis by (auto simp: butlast_append)
qed simp

section \<open>The lists of a memory\<close>

definition members :: "lists \<Rightarrow> addr set" where
  "members Q = \<Union> (set ` ran Q)"

definition separate :: "lists \<Rightarrow> bool" where
  "separate Q \<longleftrightarrow>
     (\<forall>h k xs ys. h \<noteq> k \<longrightarrow> Q h = Some xs \<longrightarrow> Q k = Some ys \<longrightarrow> set xs \<inter> set ys = {})"

definition links :: "(link \<Rightarrow> ptr option) \<Rightarrow> lists \<Rightarrow> bool" where
  "links rd Q \<longleftrightarrow> separate Q \<and> (\<forall>h xs. Q h = Some xs \<longrightarrow> linked rd (At_head h) xs)"

definition backs :: "(addr \<Rightarrow> link option) \<Rightarrow> lists \<Rightarrow> bool" where
  "backs pv Q \<longleftrightarrow> (\<forall>h xs. Q h = Some xs \<longrightarrow> backed pv (At_head h) xs)"

definition tails :: "(nat \<Rightarrow> link option) \<Rightarrow> lists \<Rightarrow> bool" where
  "tails lp Q \<longleftrightarrow> (\<forall>h xs. Q h = Some xs \<longrightarrow> lp h = Some (end_link (At_head h) xs))"

lemma membersI: "Q h = Some xs \<Longrightarrow> a \<in> set xs \<Longrightarrow> a \<in> members Q"
  by (auto simp: members_def ran_def)

lemma members_update: "a \<notin> set xs \<Longrightarrow> a \<notin> members Q \<Longrightarrow> a \<notin> members (Q(h \<mapsto> xs))"
  by (auto simp: members_def ran_def split: if_splits)

lemma members_empty: "a \<notin> members (\<lambda>h. if h \<in> H then Some [] else None)"
  by (auto simp: members_def ran_def)

lemma linksD: "links rd Q \<Longrightarrow> Q h = Some xs \<Longrightarrow> linked rd (At_head h) xs"
  by (simp add: links_def)

lemma backsD: "backs pv Q \<Longrightarrow> Q h = Some xs \<Longrightarrow> backed pv (At_head h) xs"
  by (simp add: backs_def)

lemma tailsD: "tails lp Q \<Longrightarrow> Q h = Some xs \<Longrightarrow> lp h = Some (end_link (At_head h) xs)"
  by (simp add: tails_def)

lemma separateD: "separate Q \<Longrightarrow> h \<noteq> k \<Longrightarrow> Q h = Some xs \<Longrightarrow> Q k = Some ys \<Longrightarrow> set xs \<inter> set ys = {}"
  unfolding separate_def by blast

lemma separate_update:
  assumes "separate Q" and "\<And>k ys. k \<noteq> h \<Longrightarrow> Q k = Some ys \<Longrightarrow> set xs \<inter> set ys = {}"
  shows "separate (Q(h \<mapsto> xs))"
  using assms unfolding separate_def by (auto split: if_splits) (metis disjoint_iff)+

lemma links_defined: "links rd Q \<Longrightarrow> a \<in> members Q \<Longrightarrow> rd (At_elem a) \<noteq> None"
  using linked_defined by (fastforce simp: links_def members_def ran_def)

text \<open>The elements of the other heads.\<close>

text \<open>An element that is taken out of its list is in no list.\<close>

lemma removed_outside:
  assumes "separate Q" and "Q h = Some (us @ a # ws)" and "distinct (us @ a # ws)"
  shows "a \<notin> members (Q(h \<mapsto> us @ ws))"
proof -
  have "a \<notin> set ys" if "(Q(h \<mapsto> us @ ws)) k = Some ys" for k ys
    using that assms(3) separateD [OF assms(1) _ _ assms(2), of k ys] by (cases "k = h") auto
  then show ?thesis unfolding members_def ran_def by blast
qed

text \<open>What an element that is in no list holds does not matter.\<close>

lemma links_outside:
  assumes "links rd Q" and "a \<notin> members Q"
  shows "links (rd(At_elem a := v)) Q"
proof -
  have "linked (rd(At_elem a := v)) (At_head h) xs" if "Q h = Some xs" for h xs
  proof (rule linked_update [OF linksD [OF assms(1) that]])
    show "At_elem a \<notin> At_elem ` set xs" using assms(2) membersI [of Q h xs a] that by blast
  qed simp
  then show ?thesis using assms(1) by (simp add: links_def)
qed

lemma backs_outside:
  assumes "backs pv Q" and "a \<notin> members Q"
  shows "backs (pv(a := v)) Q"
proof -
  have "a \<notin> set xs" if "Q h = Some xs" for h xs using assms(2) membersI [of Q h xs a] that by blast
  with assms(1) show ?thesis by (auto simp: backs_def backed_update)
qed

definition others :: "lists \<Rightarrow> nat \<Rightarrow> addr set" where
  "others Q h = members (Q(h := None))"

lemma in_others: "a \<in> others Q h \<longleftrightarrow> (\<exists>k xs. k \<noteq> h \<and> Q k = Some xs \<and> a \<in> set xs)"
  by (auto simp: others_def members_def ran_def split: if_splits)

lemma others_members: "others Q h \<subseteq> members Q"
  using in_others membersI by blast

lemma others_disjoint: "separate Q \<Longrightarrow> Q h = Some xs \<Longrightarrow> a \<in> set xs \<Longrightarrow> a \<notin> others Q h"
  by (auto simp: in_others dest: separateD)

lemma others_emptied: "a \<in> others (Q(k \<mapsto> [])) h \<Longrightarrow> a \<in> others Q h \<and> a \<in> others Q k"
  by (auto simp: in_others split: if_splits)

text \<open>A change that leaves the other lists alone.\<close>

lemma links_update:
  assumes "links rd Q" and "linked rd' (At_head h) xs" and "set xs \<inter> others Q h = {}"
    and "\<And>k. k \<noteq> h \<Longrightarrow> rd' (At_head k) = rd (At_head k)"
    and "\<And>b. b \<in> others Q h \<Longrightarrow> rd' (At_elem b) = rd (At_elem b)"
  shows "links rd' (Q(h \<mapsto> xs))"
proof -
  have "separate (Q(h \<mapsto> xs))"
    by (rule separate_update) (use assms(1,3) in_others [of _ Q h] in \<open>fastforce simp: links_def\<close>)+
  moreover have "linked rd' (At_head k) ys" if "(Q(h \<mapsto> xs)) k = Some ys" for k ys
  proof (cases "k = h")
    case False
    with that have k: "Q k = Some ys" by simp
    show ?thesis
      by (rule linked_frame [OF linksD [OF assms(1) k]]) (use False k assms(4,5) in \<open>auto simp: in_others\<close>)
  qed (use that assms(2) in simp)
  ultimately show ?thesis by (simp add: links_def)
qed

lemma backs_update:
  assumes "backs pv Q" and "backed pv' (At_head h) xs"
    and "\<And>b. b \<in> others Q h \<Longrightarrow> pv' b = pv b"
  shows "backs pv' (Q(h \<mapsto> xs))"
  unfolding backs_def
proof (intro allI impI)
  fix k ys
  assume k: "(Q(h \<mapsto> xs)) k = Some ys"
  show "backed pv' (At_head k) ys"
  proof (cases "k = h")
    case False
    with k have k': "Q k = Some ys" by simp
    show ?thesis
      by (rule backed_frame [OF backsD [OF assms(1) k']]) (use False k' assms(3) in \<open>auto simp: in_others\<close>)
  qed (use k assms(2) in simp)
qed

lemma tails_update:
  assumes "tails lp Q" and "lp' h = Some (end_link (At_head h) xs)" and "\<And>k. k \<noteq> h \<Longrightarrow> lp' k = lp k"
  shows "tails lp' (Q(h \<mapsto> xs))"
  using assms by (auto simp: tails_def)

section \<open>Linking an element in and out\<close>

text \<open>The list of one head around a link: the elements before it and after it.\<close>

lemma linked_insert:
  assumes "linked rd (At_head h) (us @ ws)" and "a \<notin> set (us @ ws)"
  shows "linked (rd(At_elem a \<mapsto> first_ptr ws, end_link (At_head h) us \<mapsto> Some a)) (At_head h) (us @ a # ws)"
proof -
  let ?l = "end_link (At_head h) us"
  have d: "distinct (us @ ws)" using assms(1) by (rule linked_distinct)
  have la: "?l \<noteq> At_elem a" using assms(2) by (auto dest: end_link_head_elem)
  have "chained (rd(At_elem a \<mapsto> first_ptr ws, ?l \<mapsto> Some a)) (At_head h) us"
    using assms end_not_before [OF d]
    by (intro chained_update) (auto dest!: in_set_butlastD)
  moreover have "linked (rd(At_elem a \<mapsto> first_ptr ws, ?l \<mapsto> Some a)) (At_elem a) ws"
  proof (cases ws)
    case (Cons b vs)
    with assms have "linked rd (At_elem b) vs" by simp
    then have "linked (rd(At_elem a \<mapsto> Some b, ?l \<mapsto> Some a)) (At_elem b) vs"
      using assms(2) d Cons end_link_head_elem [of h us b] end_link_head_elem [of h us]
      by (intro linked_update) auto
    with Cons la show ?thesis by simp
  qed (use la in simp)
  ultimately show ?thesis by simp
qed

lemma linked_remove:
  assumes "linked rd (At_head h) (us @ a # ws)"
  shows "linked (rd(end_link (At_head h) us \<mapsto> first_ptr ws)) (At_head h) (us @ ws)"
proof -
  let ?l = "end_link (At_head h) us"
  have d: "distinct (us @ a # ws)" using assms by (rule linked_distinct)
  then have du: "distinct (us @ ws)" by auto
  have "chained (rd(?l \<mapsto> first_ptr ws)) (At_head h) us"
    using assms end_not_before [OF du] by (intro chained_update) auto
  moreover have "linked (rd(?l \<mapsto> first_ptr ws)) ?l ws"
  proof (cases ws)
    case (Cons b vs)
    with assms have "linked rd (At_elem b) vs" by simp
    then have "linked (rd(?l \<mapsto> Some b)) (At_elem b) vs"
      using d Cons end_link_head_elem [of h us b] end_link_head_elem [of h us]
      by (intro linked_update) auto
    with Cons show ?thesis by simp
  qed simp
  ultimately show ?thesis by simp
qed

lemma links_insert:
  assumes L: "links rd Q" and h: "Q h = Some (us @ ws)" and a: "a \<notin> members Q"
  shows "links (rd(At_elem a \<mapsto> first_ptr ws, end_link (At_head h) us \<mapsto> Some a)) (Q(h \<mapsto> us @ a # ws))"
proof (rule links_update [OF L])
  have au: "a \<notin> set (us @ ws)" using membersI [of Q h "us @ ws" a] h a by blast
  show "linked (rd(At_elem a \<mapsto> first_ptr ws, end_link (At_head h) us \<mapsto> Some a)) (At_head h) (us @ a # ws)"
    using linked_insert [OF linksD [OF L h] au] .
  have sep: "separate Q" using L by (simp add: links_def)
  show "set (us @ a # ws) \<inter> others Q h = {}"
    using others_disjoint [OF sep h] others_members a by fastforce
  fix b
  assume "b \<in> others Q h"
  then have "b \<noteq> a" and "b \<notin> set us" using others_disjoint [OF sep h] others_members a by fastforce+
  then show "(rd(At_elem a \<mapsto> first_ptr ws, end_link (At_head h) us \<mapsto> Some a)) (At_elem b) = rd (At_elem b)"
    using end_link_head_elem [of h us b] by auto
qed simp

lemma links_remove:
  assumes L: "links rd Q" and h: "Q h = Some (us @ a # ws)"
  shows "links (rd(end_link (At_head h) us \<mapsto> first_ptr ws)) (Q(h \<mapsto> us @ ws))"
proof (rule links_update [OF L])
  show "linked (rd(end_link (At_head h) us \<mapsto> first_ptr ws)) (At_head h) (us @ ws)"
    using linked_remove [OF linksD [OF L h]] .
  have sep: "separate Q" using L by (simp add: links_def)
  show "set (us @ ws) \<inter> others Q h = {}" using others_disjoint [OF sep h] by fastforce
  fix b
  assume "b \<in> others Q h"
  then have "b \<notin> set us" using others_disjoint [OF sep h] by fastforce
  then show "(rd(end_link (At_head h) us \<mapsto> first_ptr ws)) (At_elem b) = rd (At_elem b)"
    using end_link_head_elem [of h us b] by auto
qed simp

lemma backs_insert:
  assumes B: "backs pv Q" and h: "Q h = Some (us @ ws)" and a: "a \<notin> members Q"
    and sep: "separate Q" and d: "distinct (us @ ws)"
    and a': "pv' a = Some (end_link (At_head h) us)" and w: "ws \<noteq> [] \<Longrightarrow> pv' (hd ws) = Some (At_elem a)"
    and rest: "\<And>b. b \<noteq> a \<Longrightarrow> b \<notin> set (take 1 ws) \<Longrightarrow> pv' b = pv b"
  shows "backs pv' (Q(h \<mapsto> us @ a # ws))"
proof (rule backs_update [OF B])
  have au: "a \<notin> set (us @ ws)" using membersI [of Q h "us @ ws" a] h a by blast
  have bk: "backed pv (At_head h) (us @ ws)" by (rule backsD [OF B h])
  have "backed pv' (At_head h) us"
    by (rule backed_frame [of pv]) (use bk au d in \<open>auto intro!: rest dest!: in_set_takeD\<close>)
  moreover have "backed pv' (At_elem a) ws"
  proof (cases ws)
    case (Cons b vs)
    have "backed pv' (At_elem b) vs"
      by (rule backed_frame [of pv]) (use bk au d Cons in \<open>auto intro!: rest\<close>)
    with w Cons show ?thesis by simp
  qed simp
  ultimately show "backed pv' (At_head h) (us @ a # ws)" using a' by simp
  fix b
  assume "b \<in> others Q h"
  then have "b \<noteq> a" and "b \<notin> set ws" using others_disjoint [OF sep h] others_members a by fastforce+
  then show "pv' b = pv b" using rest by (auto dest!: in_set_takeD)
qed

lemma backs_remove:
  assumes B: "backs pv Q" and h: "Q h = Some (us @ a # ws)"
    and sep: "separate Q" and d: "distinct (us @ a # ws)"
    and w: "ws \<noteq> [] \<Longrightarrow> pv' (hd ws) = Some (end_link (At_head h) us)"
    and rest: "\<And>b. b \<notin> set (take 1 ws) \<Longrightarrow> pv' b = pv b"
  shows "backs pv' (Q(h \<mapsto> us @ ws))"
proof (rule backs_update [OF B])
  have bk: "backed pv (At_head h) (us @ a # ws)" by (rule backsD [OF B h])
  have "backed pv' (At_head h) us"
    by (rule backed_frame [of pv]) (use bk d in \<open>auto intro!: rest dest!: in_set_takeD\<close>)
  moreover have "backed pv' (end_link (At_head h) us) ws"
  proof (cases ws)
    case (Cons b vs)
    have "backed pv' (At_elem b) vs"
      by (rule backed_frame [of pv]) (use bk d Cons in \<open>auto intro!: rest\<close>)
    with w Cons show ?thesis by simp
  qed simp
  ultimately show "backed pv' (At_head h) (us @ ws)" by simp
  fix b
  assume "b \<in> others Q h"
  then have "b \<notin> set ws" using others_disjoint [OF sep h] by fastforce
  then show "pv' b = pv b" using rest by (auto dest!: in_set_takeD)
qed

lemma tails_insert:
  assumes "tails lp Q" and "Q h = Some (us @ ws)"
  shows "tails (if ws = [] then lp(h \<mapsto> At_elem a) else lp) (Q(h \<mapsto> us @ a # ws))"
  using assms by (auto simp: tails_def end_link_def)

lemma tails_remove:
  assumes "tails lp Q" and "Q h = Some (us @ a # ws)"
  shows "tails (if ws = [] then lp(h \<mapsto> end_link (At_head h) us) else lp) (Q(h \<mapsto> us @ ws))"
  using assms by (auto simp: tails_def end_link_def)

section \<open>Emptying, appending and exchanging lists\<close>

lemma links_init:
  assumes "links rd Q"
  shows "links (rd(At_head h \<mapsto> NULL)) (Q(h \<mapsto> []))"
  by (rule links_update [OF assms]) auto

lemma backs_init: "backs pv Q \<Longrightarrow> backs pv (Q(h \<mapsto> []))"
  by (rule backs_update) auto

lemma tails_init: "tails lp Q \<Longrightarrow> tails (lp(h \<mapsto> At_head h)) (Q(h \<mapsto> []))"
  by (rule tails_update) auto

text \<open>A list that is given another head keeps its elements.\<close>

lemma linked_rehead:
  "linked rd l xs \<Longrightarrow> linked (rd(At_head k \<mapsto> first_ptr xs)) (At_head k) xs"
  by (cases xs) (auto intro: linked_update)

lemma linked_concat:
  assumes "linked rd (At_head h) xs" and "linked rd l ys" and "set xs \<inter> set ys = {}"
  shows "linked (rd(end_link (At_head h) xs \<mapsto> first_ptr ys)) (At_head h) (xs @ ys)"
proof -
  let ?l = "end_link (At_head h) xs"
  have d: "distinct (xs @ [])" using linked_distinct [OF assms(1)] by simp
  have "chained (rd(?l \<mapsto> first_ptr ys)) (At_head h) xs"
    using assms(1) end_not_before [OF d] by (intro chained_update) (auto simp: linked_chained)
  moreover have "linked (rd(?l \<mapsto> first_ptr ys)) ?l ys"
  proof (cases ys)
    case (Cons b vs)
    then have "linked rd (At_elem b) vs" using assms(2) by simp
    then have "linked (rd(?l \<mapsto> Some b)) (At_elem b) vs"
      using assms(3) Cons end_link_head_elem [of h xs b] end_link_head_elem [of h xs]
      by (intro linked_update) auto
    with Cons show ?thesis by simp
  qed simp
  ultimately show ?thesis by simp
qed

lemma links_concat:
  assumes L: "links rd Q" and hk: "h \<noteq> k" and h: "Q h = Some xs" and k: "Q k = Some ys"
  shows "links (rd(end_link (At_head h) xs \<mapsto> first_ptr ys, At_head k \<mapsto> NULL)) (Q(h \<mapsto> xs @ ys, k \<mapsto> []))"
proof -
  have sep: "separate Q" using L by (simp add: links_def)
  have dis: "set xs \<inter> set ys = {}" by (rule separateD [OF sep hk h k])
  have "links (rd(end_link (At_head h) xs \<mapsto> first_ptr ys, At_head k \<mapsto> NULL)) (Q(k \<mapsto> [], h \<mapsto> xs @ ys))"
  proof (rule links_update [OF links_init [OF L, of k]])
    show "linked (rd(end_link (At_head h) xs \<mapsto> first_ptr ys, At_head k \<mapsto> NULL)) (At_head h) (xs @ ys)"
      by (rule linked_update [OF linked_concat [OF linksD [OF L h] linksD [OF L k] dis]]) (use hk in auto)
    show "set (xs @ ys) \<inter> others (Q(k \<mapsto> [])) h = {}"
      using others_disjoint [OF sep h] others_disjoint [OF sep k] by (auto dest!: others_emptied)
    fix b
    assume "b \<in> others (Q(k \<mapsto> [])) h"
    then have "b \<notin> set xs" using others_disjoint [OF sep h] by (auto dest!: others_emptied)
    then show "(rd(end_link (At_head h) xs \<mapsto> first_ptr ys, At_head k \<mapsto> NULL)) (At_elem b) =
        (rd(At_head k \<mapsto> NULL)) (At_elem b)"
      using end_link_head_elem [of h xs b] by auto
  qed (use hk in auto)
  then show ?thesis using hk by (simp add: fun_upd_twist)
qed

lemma backs_concat:
  assumes B: "backs pv Q" and hk: "h \<noteq> k" and h: "Q h = Some xs" and k: "Q k = Some ys"
    and sep: "separate Q" and d: "distinct ys"
    and w: "ys \<noteq> [] \<Longrightarrow> pv' (hd ys) = Some (end_link (At_head h) xs)"
    and rest: "\<And>b. b \<notin> set (take 1 ys) \<Longrightarrow> pv' b = pv b"
  shows "backs pv' (Q(h \<mapsto> xs @ ys, k \<mapsto> []))"
proof -
  have dis: "set xs \<inter> set ys = {}" by (rule separateD [OF sep hk h k])
  have same: "pv' b = pv b" if "b \<notin> set ys" for b using that rest by (auto dest!: in_set_takeD)
  have "backs pv' (Q(k \<mapsto> [], h \<mapsto> xs @ ys))"
  proof (rule backs_update [OF backs_init [OF B, of k]])
    have "backed pv' (At_head h) xs" by (rule backed_frame [OF backsD [OF B h]]) (use dis same in auto)
    moreover have "backed pv' (end_link (At_head h) xs) ys"
    proof (cases ys)
      case (Cons b vs)
      have "backed pv' (At_elem b) vs"
        by (rule backed_frame [of pv]) (use backsD [OF B k] d Cons in \<open>auto intro!: rest\<close>)
      with w Cons show ?thesis by simp
    qed simp
    ultimately show "backed pv' (At_head h) (xs @ ys)" by simp
    fix b
    assume "b \<in> others (Q(k \<mapsto> [])) h"
    then have "b \<notin> set ys" using others_disjoint [OF sep k] by (auto dest!: others_emptied)
    then show "pv' b = pv b" by (rule same)
  qed
  then show ?thesis using hk by (simp add: fun_upd_twist)
qed

lemma links_swap:
  assumes L: "links rd Q" and hk: "h \<noteq> k" and h: "Q h = Some xs" and k: "Q k = Some ys"
  shows "links (rd(At_head h \<mapsto> first_ptr ys, At_head k \<mapsto> first_ptr xs)) (Q(h \<mapsto> ys, k \<mapsto> xs))"
proof -
  have sep: "separate Q" using L by (simp add: links_def)
  have dis: "set xs \<inter> set ys = {}" by (rule separateD [OF sep hk h k])
  have 1: "links (rd(At_head k \<mapsto> NULL)) (Q(k \<mapsto> []))" by (rule links_init [OF L])
  have 2: "links (rd(At_head k \<mapsto> NULL, At_head h \<mapsto> first_ptr ys)) (Q(k \<mapsto> [], h \<mapsto> ys))"
  proof (rule links_update [OF 1])
    show "linked (rd(At_head k \<mapsto> NULL, At_head h \<mapsto> first_ptr ys)) (At_head h) ys"
      using linked_update [OF linked_rehead [OF linksD [OF L k], of h], of "At_head k" "Some NULL"] hk
      by (subst fun_upd_twist) auto
    show "set ys \<inter> others (Q(k \<mapsto> [])) h = {}"
      using others_disjoint [OF sep k] by (auto dest!: others_emptied)
  qed auto
  have "links (rd(At_head k \<mapsto> NULL, At_head h \<mapsto> first_ptr ys, At_head k \<mapsto> first_ptr xs))
      (Q(k \<mapsto> [], h \<mapsto> ys, k \<mapsto> xs))"
  proof (rule links_update [OF 2])
    show "linked (rd(At_head k \<mapsto> NULL, At_head h \<mapsto> first_ptr ys, At_head k \<mapsto> first_ptr xs)) (At_head k) xs"
      using linked_update [OF linked_rehead [OF linksD [OF L h], of k], of "At_head h" "Some (first_ptr ys)"] hk
      by (simp add: fun_upd_twist [of "At_head k" "At_head h"]) fastforce
    show "set xs \<inter> others (Q(k \<mapsto> [], h \<mapsto> ys)) k = {}"
      using others_disjoint [OF sep h] dis hk by (fastforce simp: in_others split: if_splits)
  qed auto
  then show ?thesis using hk by (simp add: fun_upd_twist)
qed

lemma backed_rehead:
  assumes "backed pv l xs" and "distinct xs" and "xs \<noteq> [] \<Longrightarrow> pv' (hd xs) = Some k"
    and "\<And>b. b \<in> set (tl xs) \<Longrightarrow> pv' b = pv b"
  shows "backed pv' k xs"
  using assms by (cases xs) (auto intro: backed_frame)

lemma backs_swap:
  assumes B: "backs pv Q" and hk: "h \<noteq> k" and h: "Q h = Some xs" and k: "Q k = Some ys"
    and sep: "separate Q" and d: "distinct xs" "distinct ys"
    and w: "xs \<noteq> [] \<Longrightarrow> pv' (hd xs) = Some (At_head k)" "ys \<noteq> [] \<Longrightarrow> pv' (hd ys) = Some (At_head h)"
    and rest: "\<And>b. b \<notin> set (take 1 xs) \<Longrightarrow> b \<notin> set (take 1 ys) \<Longrightarrow> pv' b = pv b"
  shows "backs pv' (Q(h \<mapsto> ys, k \<mapsto> xs))"
proof -
  have dis: "set xs \<inter> set ys = {}" by (rule separateD [OF sep hk h k])
  have tls: "pv' b = pv b" if "b \<in> set (tl xs) \<or> b \<in> set (tl ys)" for b
    using that dis d by (cases xs; cases ys) (auto intro!: rest)
  have same: "pv' b = pv b" if "b \<notin> set xs" "b \<notin> set ys" for b
    using that by (intro rest) (auto dest!: in_set_takeD)
  have "backed pv' (At_head h) ys" using backsD [OF B k] d(2) w(2) tls by (rule backed_rehead) auto
  moreover have "backed pv' (At_head k) xs" using backsD [OF B h] d(1) w(1) tls by (rule backed_rehead) auto
  moreover have "backed pv' (At_head j) zs" if "j \<noteq> h" "j \<noteq> k" "Q j = Some zs" for j zs
    by (rule backed_frame [OF backsD [OF B that(3)]])
      (use same separateD [OF sep that(1,3) h] separateD [OF sep that(2,3) k] in blast)
  ultimately show ?thesis using hk by (auto simp: backs_def)
qed

lemma tails_concat:
  assumes "tails lp Q" and "h \<noteq> k" and "Q h = Some xs" and "Q k = Some ys" and "ys \<noteq> []"
  shows "tails (lp(h := lp k, k \<mapsto> At_head k)) (Q(h \<mapsto> xs @ ys, k \<mapsto> []))"
  using assms by (auto simp: tails_def end_link_def)

lemma tails_swap:
  assumes "tails lp Q" and "h \<noteq> k" and "Q h = Some xs" and "Q k = Some ys"
    and "lp' h = Some (if ys = [] then At_head h else end_link (At_head k) ys)"
    and "lp' k = Some (if xs = [] then At_head k else end_link (At_head h) xs)"
    and "\<And>j. j \<noteq> h \<Longrightarrow> j \<noteq> k \<Longrightarrow> lp' j = lp j"
  shows "tails lp' (Q(h \<mapsto> ys, k \<mapsto> xs))"
  using assms by (auto simp: tails_def end_link_def)

section \<open>Loops over the elements\<close>

text \<open>
  The search of the removal and concatenation macros of the families without back pointers:
  \<open>while (NEXT(curelm) != stop) curelm = NEXT(curelm)\<close>.
\<close>

partial_function (option) walk_until :: "(ptr \<Rightarrow> ptr option) \<Rightarrow> ptr \<Rightarrow> ptr \<Rightarrow> ptr option" where
  "walk_until nx stop curelm =
     do { n \<leftarrow> nx curelm; if n \<noteq> stop then walk_until nx stop n else Some curelm }"

text \<open>
  The bodies of the \<open>for\<close> macros: the plain one reads the next pointer after the body has run,
  the safe one before. \<open>nx\<close> reads it in the current state.
\<close>

partial_function (option) for_each ::
    "('s \<Rightarrow> ptr \<Rightarrow> ptr option) \<Rightarrow> (addr \<Rightarrow> 's \<Rightarrow> 's option) \<Rightarrow> ptr \<Rightarrow> 's \<Rightarrow> 's option" where
  "for_each nx body var s =
     (case var of
        None \<Rightarrow> Some s
      | Some a \<Rightarrow> do { s \<leftarrow> body a s; var \<leftarrow> nx s var; for_each nx body var s })"

partial_function (option) for_each_safe ::
    "('s \<Rightarrow> ptr \<Rightarrow> ptr option) \<Rightarrow> (addr \<Rightarrow> 's \<Rightarrow> 's option) \<Rightarrow> ptr \<Rightarrow> 's \<Rightarrow> 's option" where
  "for_each_safe nx body var s =
     (case var of
        None \<Rightarrow> Some s
      | Some a \<Rightarrow> do { tvar \<leftarrow> nx s var; s \<leftarrow> body a s; for_each_safe nx body tvar s })"

text \<open>Reading the next pointer of an element; a null pointer cannot be followed.\<close>

definition follow :: "(link \<Rightarrow> ptr option) \<Rightarrow> ptr \<Rightarrow> ptr option" where
  "follow rd p = do { a \<leftarrow> p; rd (At_elem a) }"

text \<open>The elements of \<open>xs\<close> in the order in which \<open>nx\<close> leads from one to the next.\<close>

fun visits :: "(ptr \<Rightarrow> ptr option) \<Rightarrow> addr list \<Rightarrow> bool" where
  "visits nx [] \<longleftrightarrow> True"
| "visits nx (a # xs) \<longleftrightarrow> nx (Some a) = Some (first_ptr xs) \<and> visits nx xs"

lemma linked_visits: "linked rd l xs \<Longrightarrow> visits (follow rd) xs"
  by (induction xs arbitrary: l) (auto simp: follow_def linked_read)

lemma walk_until_visits:
  assumes "visits nx (us @ b # ws)" and "distinct (us @ b # ws)"
  shows "walk_until nx (first_ptr ws) (first_ptr (us @ [b])) = Some (Some b)"
  using assms
proof (induction us)
  case Nil
  then show ?case by (subst walk_until.simps) simp
next
  case (Cons c us)
  have "first_ptr (us @ b # ws) \<noteq> first_ptr ws"
    using Cons.prems(2) by (cases us; cases ws) auto
  moreover have "first_ptr (us @ b # ws) = first_ptr (us @ [b])" by (cases us) auto
  ultimately show ?case using Cons by (subst walk_until.simps) simp
qed

lemma for_each_fold:
  assumes "P xs s"
    and "\<And>a ws s s'. P (a # ws) s \<Longrightarrow> body a s = Some s' \<Longrightarrow> nx s' (Some a) = Some (first_ptr ws) \<and> P ws s'"
  shows "for_each nx body (first_ptr xs) s = fold_option body xs s"
  using assms(1)
proof (induction xs arbitrary: s)
  case Nil
  show ?case by (subst for_each.simps) simp
next
  case (Cons a xs)
  then show ?case using assms(2) [OF Cons.prems]
    by (subst for_each.simps) (auto split: bind_splits)
qed

lemma for_each_safe_fold:
  assumes "P xs s"
    and "\<And>a ws s. P (a # ws) s \<Longrightarrow> nx s (Some a) = Some (first_ptr ws)"
    and "\<And>a ws s s'. P (a # ws) s \<Longrightarrow> body a s = Some s' \<Longrightarrow> P ws s'"
  shows "for_each_safe nx body (first_ptr xs) s = fold_option body xs s"
  using assms(1)
proof (induction xs arbitrary: s)
  case Nil
  show ?case by (subst for_each_safe.simps) simp
next
  case (Cons a xs)
  then show ?case using assms(2,3) [OF Cons.prems]
    by (subst for_each_safe.simps) (auto split: bind_splits)
qed

text \<open>The body that records the elements it is given, over a memory it does not change.\<close>

definition collect :: "addr \<Rightarrow> 'm \<times> addr list \<Rightarrow> ('m \<times> addr list) option" where
  "collect a s = Some (fst s, snd s @ [a])"

lemma collect_pair [simp]: "collect a (m, ys) = Some (m, ys @ [a])"
  by (simp add: collect_def)

lemma fold_collect: "fold_option collect xs (m, ys) = Some (m, ys @ xs)"
  by (induction xs arbitrary: ys) auto

lemma collect_keeps: "collect a s = Some s' \<Longrightarrow> fst s' = fst s"
  by (auto simp: collect_def)

lemma visits_suffix: "visits nx (xs @ ys) \<Longrightarrow> visits nx ys"
  by (induction xs) auto

text \<open>An iteration that starts anywhere in the order of the pointers, plain or safe.\<close>

lemma visits_collect:
  assumes "visits (nx m) xs"
  shows "for_each (\<lambda>s. nx (fst s)) collect (first_ptr xs) (m, ys) = Some (m, ys @ xs)"
    and "for_each_safe (\<lambda>s. nx (fst s)) collect (first_ptr xs) (m, ys) = Some (m, ys @ xs)"
proof -
  let ?P = "\<lambda>ws s. visits (nx m) ws \<and> fst s = m"
  have "for_each (\<lambda>s. nx (fst s)) collect (first_ptr xs) (m, ys) = fold_option collect xs (m, ys)"
    by (rule for_each_fold [where P = ?P]) (use assms in \<open>auto dest!: collect_keeps\<close>)
  then show "for_each (\<lambda>s. nx (fst s)) collect (first_ptr xs) (m, ys) = Some (m, ys @ xs)"
    by (simp add: fold_collect)
  have "for_each_safe (\<lambda>s. nx (fst s)) collect (first_ptr xs) (m, ys) = fold_option collect xs (m, ys)"
    by (rule for_each_safe_fold [where P = ?P]) (use assms in \<open>auto dest!: collect_keeps\<close>)
  then show "for_each_safe (\<lambda>s. nx (fst s)) collect (first_ptr xs) (m, ys) = Some (m, ys @ xs)"
    by (simp add: fold_collect)
qed

text \<open>Back pointers lead through the elements in reverse.\<close>

definition link_elem :: "link \<Rightarrow> ptr" where
  "link_elem l = (case l of At_head _ \<Rightarrow> NULL | At_elem a \<Rightarrow> Some a)"

lemma link_elem_end: "link_elem (end_link (At_head h) xs) = first_ptr (rev xs)"
  by (cases xs rule: rev_cases) (auto simp: link_elem_def end_link_def)

lemma backed_visits_rev:
  assumes "backed pv (At_head h) xs"
    and "\<And>a us ws. xs = us @ a # ws \<Longrightarrow> pv a = Some (end_link (At_head h) us) \<Longrightarrow>
      pr (Some a) = Some (link_elem (end_link (At_head h) us))"
  shows "visits pr (rev xs)"
  using assms
proof (induction xs rule: rev_induct)
  case (snoc a xs)
  have "visits pr (rev xs)"
  proof (rule snoc.IH)
    show "backed pv (At_head h) xs" using snoc.prems(1) by simp
    show "pr (Some b) = Some (link_elem (end_link (At_head h) us))"
      if "xs = us @ b # ws" "pv b = Some (end_link (At_head h) us)" for b us ws
      using snoc.prems(2) [of us b "ws @ [a]"] that by simp
  qed
  moreover have "pr (Some a) = Some (first_ptr (rev xs))"
    using snoc.prems(2) [of xs a "[]"] snoc.prems(1) by (simp add: link_elem_end)
  ultimately show ?case by simp
qed simp

text \<open>
  In a linked list the back pointers are right if the first one addresses the head and that of
  each next element addresses the element before it.
\<close>

lemma backed_iff_next:
  assumes "linked rd l xs"
  shows "backed pv l xs \<longleftrightarrow> (\<forall>a. rd l = Some (Some a) \<longrightarrow> pv a = Some l) \<and>
    (\<forall>a \<in> set xs. \<forall>b. rd (At_elem a) = Some (Some b) \<longrightarrow> pv b = Some (At_elem a))"
  using assms by (induction xs arbitrary: l) auto

end
