(* ===== verification/Slist_Loops.thy ===== *)
theory Slist_Loops
  imports Slist Queue_Links
begin

text \<open>
  The remaining iterations of the \<open>SLIST\<close> macros: those that start at a given element, and the one
  that hands its body the address of the link that points to the current element.
\<close>

definition SLIST_HEAD_INITIALIZER :: ptr where
  "SLIST_HEAD_INITIALIZER = NULL"

definition SLIST_FOREACH_FROM ::
    "('s \<Rightarrow> 'd slist) \<Rightarrow> (addr \<Rightarrow> 's \<Rightarrow> 's option) \<Rightarrow> ptr \<Rightarrow> 's \<Rightarrow> 's option" where
  "SLIST_FOREACH_FROM get body var s =
     SLIST_FOREACH get body (if var \<noteq> NULL then var else SLIST_FIRST (get s)) s"

definition SLIST_FOREACH_FROM_SAFE ::
    "('s \<Rightarrow> 'd slist) \<Rightarrow> (addr \<Rightarrow> 's \<Rightarrow> 's option) \<Rightarrow> ptr \<Rightarrow> 's \<Rightarrow> 's option" where
  "SLIST_FOREACH_FROM_SAFE get body var s =
     SLIST_FOREACH_SAFE get body (if var \<noteq> NULL then var else SLIST_FIRST (get s)) s"

text \<open>Reading a link: the field of the head, whatever the name of the head, or that of an element.\<close>

fun slist_link :: "'d slist \<Rightarrow> link \<Rightarrow> ptr option" where
  "slist_link l (At_head _) = Some (SLIST_FIRST l)"
| "slist_link l (At_elem a) = SLIST_NEXT l (Some a)"

partial_function (option) prevptr_loop ::
    "('s \<Rightarrow> 'd slist) \<Rightarrow> (addr \<Rightarrow> link \<Rightarrow> 's \<Rightarrow> 's option) \<Rightarrow> link \<Rightarrow> 's \<Rightarrow> 's option" where
  "prevptr_loop get body varp s =
     do { var \<leftarrow> slist_link (get s) varp;
          (case var of
             None \<Rightarrow> Some s
           | Some a \<Rightarrow> do { s \<leftarrow> body a varp s; prevptr_loop get body (At_elem a) s }) }"

definition SLIST_FOREACH_PREVPTR ::
    "('s \<Rightarrow> 'd slist) \<Rightarrow> (addr \<Rightarrow> link \<Rightarrow> 's \<Rightarrow> 's option) \<Rightarrow> 's \<Rightarrow> 's option" where
  "SLIST_FOREACH_PREVPTR get body s = prevptr_loop get body (At_head 0) s"

section \<open>The list as links\<close>

lemma slist_holds_linked: "slist_holds l xs \<longleftrightarrow> linked (slist_link l) (At_head h) xs"
proof -
  have "slist_seg (nodes l) p xs NULL \<longleftrightarrow> linked (slist_link l) k xs" if "slist_link l k = Some p" for p k
    using that
  proof (induction xs arbitrary: p k)
    case (Cons a xs)
    show ?case
    proof (cases "nodes l a")
      case None
      then have "\<not> linked (slist_link l) (At_elem a) xs" by (cases xs) (simp_all add: SLIST_NEXT_def)
      with None Cons.prems show ?thesis by simp
    next
      case (Some n)
      then show ?thesis using Cons.IH [of "At_elem a" "sle_next n"] Cons.prems
        by (simp add: SLIST_NEXT_def)
    qed
  qed simp
  then show ?thesis by (simp add: slist_holds_def SLIST_FIRST_def)
qed

lemma slist_visits: "slist_holds l xs \<Longrightarrow> visits (SLIST_NEXT l) xs"
proof -
  assume "slist_holds l xs"
  then have "visits (follow (slist_link l)) xs"
    using slist_holds_linked [of l xs 0] linked_visits by blast
  moreover have "follow (slist_link l) = SLIST_NEXT l"
    by (auto simp: fun_eq_iff follow_def SLIST_NEXT_def split: bind_splits)
  ultimately show ?thesis by simp
qed

text \<open>The iterations of this family are the shared ones.\<close>

lemma SLIST_FOREACH_shared: "SLIST_FOREACH fst collect (first_ptr xs) (l, ys) = Some (l, ys @ xs)"
  if "visits (SLIST_NEXT l) xs"
  using that
proof (induction xs arbitrary: ys)
  case Nil
  show ?case by (subst SLIST_FOREACH.simps) simp
next
  case (Cons a xs)
  then show ?case by (subst SLIST_FOREACH.simps) simp
qed

lemma SLIST_FOREACH_SAFE_shared: "SLIST_FOREACH_SAFE fst collect (first_ptr xs) (l, ys) = Some (l, ys @ xs)"
  if "visits (SLIST_NEXT l) xs"
  using that
proof (induction xs arbitrary: ys)
  case Nil
  show ?case by (subst SLIST_FOREACH_SAFE.simps) simp
next
  case (Cons a xs)
  then show ?case by (subst SLIST_FOREACH_SAFE.simps) simp
qed

lemma SLIST_FROM_first:
  assumes "slist_holds l xs"
  shows "SLIST_FOREACH_FROM fst collect NULL (l, []) = Some (l, xs)"
    and "SLIST_FOREACH_FROM_SAFE fst collect NULL (l, []) = Some (l, xs)"
  using SLIST_FOREACH_shared [OF slist_visits [OF assms]] SLIST_FOREACH_SAFE_shared [OF slist_visits [OF assms]]
    SLIST_FIRST_list [OF assms]
  by (simp_all add: SLIST_FOREACH_FROM_def SLIST_FOREACH_FROM_SAFE_def)

lemma SLIST_FROM_element:
  assumes "slist_holds l (us @ a # ws)"
  shows "SLIST_FOREACH_FROM fst collect (Some a) (l, []) = Some (l, a # ws)"
    and "SLIST_FOREACH_FROM_SAFE fst collect (Some a) (l, []) = Some (l, a # ws)"
proof -
  have "visits (SLIST_NEXT l) (a # ws)" using slist_visits [OF assms] by (rule visits_suffix)
  then show "SLIST_FOREACH_FROM fst collect (Some a) (l, []) = Some (l, a # ws)"
    "SLIST_FOREACH_FROM_SAFE fst collect (Some a) (l, []) = Some (l, a # ws)"
    using SLIST_FOREACH_shared [of l "a # ws"] SLIST_FOREACH_SAFE_shared [of l "a # ws"]
    by (simp_all add: SLIST_FOREACH_FROM_def SLIST_FOREACH_FROM_SAFE_def)
qed

text \<open>The body of the last iteration gets each element with the link that points to it.\<close>

definition collect_links :: "addr \<Rightarrow> link \<Rightarrow> 'm \<times> (addr \<times> link) list \<Rightarrow> ('m \<times> (addr \<times> link) list) option" where
  "collect_links a k s = Some (fst s, snd s @ [(a, k)])"

lemma collect_links_pair [simp]: "collect_links a k (m, ys) = Some (m, ys @ [(a, k)])"
  by (simp add: collect_links_def)

lemma prevptr_linked:
  assumes "linked (slist_link l) k xs"
  shows "prevptr_loop fst collect_links k (l, ys) =
    Some (l, ys @ zip xs (butlast (k # map At_elem xs)))"
  using assms
proof (induction xs arbitrary: k ys)
  case Nil
  then show ?case by (subst prevptr_loop.simps) simp
next
  case (Cons a xs)
  then show ?case by (subst prevptr_loop.simps) simp
qed

lemma SLIST_FOREACH_PREVPTR_lists:
  assumes "slist_holds l xs"
  shows "SLIST_FOREACH_PREVPTR fst collect_links (l, []) =
    Some (l, zip xs (butlast (At_head 0 # map At_elem xs)))"
  using prevptr_linked [of l "At_head 0" xs "[]"] assms slist_holds_linked [of l xs 0]
  by (simp add: SLIST_FOREACH_PREVPTR_def)

end
