(* ===== verification/Socket_Properties.thy ===== *)
theory Socket_Properties
  imports Server_Liveness Server_Properties Slist_Loops
begin

text \<open>
  The properties of \<open>run_server\<close> and of \<open>main\<close>, with a concrete run of the server.
\<close>

section \<open>A concrete run\<close>

definition demo_server :: server where
  "demo_server = run_server_start (Some 9) 0 srv_blank"

text \<open>One connection has been accepted on descriptor 5 and given to thread 1.\<close>

definition demo_serving :: server where
  "demo_serving = demo_server
     \<lparr>thread_list := \<lparr>nodes = [3 \<mapsto> \<lparr>sle_next = NULL, sdata = \<lparr>connection = Some 1, thread = Some 2\<rparr>\<rparr>],
                      slh_first = Some 3\<rparr>,
      conns := [1 \<mapsto> demo_args\<lparr>file_mutex := 9\<rparr>], tids := [2 \<mapsto> 1], tstate := [1 \<mapsto> Running], targ := [1 \<mapsto> 1],
      client_fds := {5}\<rparr>"

lemma demo_server_init: "srv_init demo_server"
  by (auto simp: srv_init_def demo_server_def)

lemma demo_server_eq:
  "demo_server = srv_blank\<lparr>mutex_block := Some 9, phase := Check\<rparr>"
  by (simp add: demo_server_def run_server_start_def SLIST_INIT_def srv_blank_def)

lemma demo_accept_step:
  "main_step (demo_server\<lparr>phase := Accept\<rparr>) demo_serving" "main_step demo_server (demo_server\<lparr>phase := Reap NULL\<rparr>)"
  "main_step (demo_server\<lparr>phase := Reap NULL\<rparr>) (demo_server\<lparr>phase := Accept\<rparr>)"
proof -
  let ?r = "demo_server\<lparr>phase := Reap NULL\<rparr>" and ?a = "demo_server\<lparr>phase := Accept\<rparr>"
  show "main_step demo_server ?r"
    using main_pass [of demo_server] by (simp add: demo_server_eq srv_blank_def SLIST_FIRST_def)
  show "main_step ?r ?a" using main_pass_end [of ?r] by simp
  have "accept_client (Some 1) (Some 2) 0 1 (Some 3) 5 (client_addr demo_args) (client_len demo_args) ?a =
      Some demo_serving"
    by (simp add: accept_client_def demo_serving_def demo_server_eq srv_blank_def demo_args_def
        SLIST_INSERT_HEAD_def set_next_def SLIST_FIRST_def Let_def)
  then show "main_step ?a demo_serving"
    by (rule main_accept [rotated -1]) (simp_all add: demo_server_eq srv_blank_def)
qed

lemma demo_accepting: "srv_step\<^sup>*\<^sup>* demo_server (demo_server\<lparr>phase := Accept\<rparr>)"
  using demo_accept_step(2,3) srv_main by (meson converse_rtranclp_into_rtranclp rtranclp.rtrancl_refl)

lemma demo_accepts: "srv_step\<^sup>*\<^sup>* demo_server demo_serving"
  using demo_accepting demo_accept_step(1) srv_main by (meson rtranclp.rtrancl_into_rtrancl)

section \<open>The life of the server\<close>

text \<open>
  C8: in every state that \<open>run_server\<close> reaches, whatever connections arrive, threads end, system
  calls fail and signals come, the list of threads is intact: it ends, its elements are exactly
  the allocated nodes, each points to its own block of arguments and its own thread
  identifier, both allocated and shared with no other element, the thread has not been joined, and
  every thread that has not been joined is in the list.
\<close>

theorem server_list_intact:
  assumes "srv_init s0" and "srv_step\<^sup>*\<^sup>* s0 s"
  shows "\<exists>es. slist_holds (thread_list s) (map t_node es) \<and> dom (nodes (thread_list s)) = t_node ` set es \<and>
    (\<forall>e \<in> set es. entry_ok s e) \<and>
    distinct (map t_node es) \<and> distinct (map t_conn es) \<and> distinct (map t_cell es) \<and> distinct (map t_id es) \<and>
    (\<forall>i st. tstate s i = Some st \<longrightarrow> st = Joined \<or> i \<in> t_id ` set es)"
  using srv.reachable_inv [OF assms] by (auto simp: srv_inv_def srv_ok_def entries_ok_def)

theorem server_list_intact_witness:
  "\<exists>es :: tentry list. slist_holds (thread_list demo_serving) (map t_node es) \<and> {3} = t_node ` set es"
proof -
  have "dom (nodes (thread_list demo_serving)) = {3}" by (simp add: demo_serving_def)
  moreover obtain es :: "tentry list" where "slist_holds (thread_list demo_serving) (map t_node es)"
    "dom (nodes (thread_list demo_serving)) = t_node ` set es"
    using server_list_intact [OF demo_server_init demo_accepts] by blast
  ultimately show ?thesis by (intro exI [of _ es]) simp
qed

text \<open>
  C14: no step of the main thread follows a dangling pointer, frees a block twice or joins a thread
  twice, with one exception. In every reachable state the pass over the list goes on, once the threads
  that have set their flag have returned; the final loop closes the socket of the first element at
  any time and goes on once the threads have returned; and the start of an accepted connection is
  undefined exactly when the allocation of the list node fails after its thread has been started: the
  null pointer is written through.
\<close>

theorem server_no_undefined_behaviour:
  assumes "srv_init s0" and "srv_step\<^sup>*\<^sup>* s0 s"
  shows "(phase s = Reap (Some a) \<and> (\<forall>i. tstate s i \<noteq> Some Ending) \<longrightarrow> reap_step a s \<noteq> None) \<and>
    (phase s = Drain \<and> \<not> SLIST_EMPTY (thread_list s) \<longrightarrow> drain_close s \<noteq> None) \<and>
    (phase s = Join a \<and> (\<forall>i st. tstate s i = Some st \<longrightarrow> st = Finished \<or> st = Joined) \<longrightarrow>
      drain_join a s \<noteq> None) \<and>
    (phase s = Accept \<longrightarrow>
      (accept_client tData thr rc i datap fd peer len s = None \<longleftrightarrow>
       tData \<noteq> NULL \<and> thr \<noteq> NULL \<and> rc = 0 \<and> datap = NULL))"
proof -
  obtain es where ok: "srv_ok es s" using srv.reachable_inv [OF assms] by (auto simp: srv_inv_def)
  then show ?thesis
    using reap_step_total [OF ok] drain_close_total [OF ok] drain_join_total [OF ok] accept_client_total [OF ok]
    by (intro conjI impI) simp_all
qed

theorem server_no_undefined_behaviour_witness:
  "reap_step 3 (demo_serving\<lparr>phase := Reap (Some 3)\<rparr>) \<noteq> None"
proof -
  have "srv_step demo_serving (demo_serving\<lparr>phase := Reap (Some 3)\<rparr>)"
    using srv_pass [of demo_serving] by (simp add: demo_serving_def demo_server_eq srv_blank_def SLIST_FIRST_def)
  with demo_accepts have "srv_step\<^sup>*\<^sup>* demo_server (demo_serving\<lparr>phase := Reap (Some 3)\<rparr>)" by simp
  from server_no_undefined_behaviour [OF demo_server_init this, of 3] show ?thesis
    by (simp add: demo_serving_def del: not_None_eq)
qed




text \<open>
  C31: when \<open>run_server\<close> has returned 0 the list is empty, every thread has been joined and the mutex
  is freed; of the blocks of arguments, of thread identifiers and of the sockets of clients at most
  one each is left, lost by the failed start of a connection that led to the shutdown.
\<close>

theorem server_exit_clean:
  assumes "srv_init s0" and "srv_step\<^sup>*\<^sup>* s0 s" and "phase s = Exited 0"
  shows "nodes (thread_list s) = Map.empty \<and> SLIST_EMPTY (thread_list s) \<and> mutex_block s = NULL \<and>
    (\<forall>i st. tstate s i = Some st \<longrightarrow> st = Joined) \<and>
    card (dom (conns s)) \<le> 1 \<and> card (dom (tids s)) \<le> 1 \<and> (\<exists>fd. client_fds s \<subseteq> {fd})"
proof -
  obtain es where ok: "srv_ok es s" using srv.reachable_inv [OF assms(1,2)] by (auto simp: srv_inv_def)
  with assms(3) have es: "es = []" and m: "mutex_block s = NULL" by (auto simp: srv_ok_def phase_ok_def)
  have ent: "entries_ok [] s" using ok es by (simp add: srv_ok_def)
  have "\<exists>c t. dom (conns s) \<subseteq> {c} \<and> dom (tids s) \<subseteq> {t}"
    using ok es by (auto simp: srv_ok_def lost_ok_def lost_def)
  then obtain c t where "dom (conns s) \<subseteq> {c}" "dom (tids s) \<subseteq> {t}" by blast
  then have "card (dom (conns s)) \<le> card {c}" "card (dom (tids s)) \<le> card {t}"
    by (auto intro: card_mono simp del: card_insert_disjoint)
  moreover have "\<exists>fd. client_fds s \<subseteq> {fd}" using ok es by (auto simp: srv_ok_def fds_ok_def)
  ultimately show ?thesis using ent m entries_ok_Nil_iff [OF ent] by (auto simp: entries_ok_def)
qed

text \<open>A run that ends: the signal comes while a thread runs, which is then joined.\<close>

definition demo_returned :: server where
  "demo_returned = demo_serving\<lparr>quit := True, tstate := [1 \<mapsto> Finished]\<rparr>"

lemma demo_drain_entries:
  "entries_ok [\<lparr>t_node = 3, t_conn = 1, t_cell = 2, t_id = 1\<rparr>] (demo_returned\<lparr>phase := Drain\<rparr>)"
  by (simp add: entries_ok_def entry_ok_def demo_returned_def demo_serving_def slist_holds_def demo_args_def)

lemma demo_returns: "srv_step\<^sup>*\<^sup>* demo_server demo_returned"
proof -
  have "srv_step demo_serving (shutdown_handler SIGTERM demo_serving)" by (rule srv_signal)
  moreover have "srv_step (shutdown_handler SIGTERM demo_serving) demo_returned"
    using thr_open_failed [of "shutdown_handler SIGTERM demo_serving" 1]
    by (simp add: shutdown_handler_def demo_serving_def demo_returned_def thread_return_def)
  ultimately show ?thesis using demo_accepts by (meson rtranclp.rtrancl_into_rtrancl)
qed

text \<open>
  C17: the shutdown happens: in every infinite run of the server in which \<open>quit\<close> is set at some
  moment, whatever the main thread is doing then and however many connections are open, and in
  which the main thread and the connection threads are not kept from going on for ever (whenever
  some step would change the state, a step that changes it is taken later; signals may keep
  arriving), \<open>run_server\<close> returns, with value 0 if it ever got to its loop.
\<close>

theorem server_shutdown_inevitable:
  assumes "srv_init (f 0)" and "\<forall>n. srv_step (f n) (f (Suc n))" and "quit (f k)"
    and "\<forall>n. (\<exists>t. srv_step (f n) t \<and> t \<noteq> f n) \<longrightarrow> (\<exists>m \<ge> n. f (Suc m) \<noteq> f m)"
  shows "\<exists>n \<ge> k. \<exists>rc. phase (f n) = Exited rc \<and> (phase (f 0) = Check \<longrightarrow> rc = 0)"
proof -
  have "srv_step\<^sup>*\<^sup>* (f 0) (f n)" for n
    by (induction n) (use assms(2) in \<open>auto intro: rtranclp.rtrancl_into_rtrancl\<close>)
  then have "srv_inv (f k)" using srv.reachable_inv [OF assms(1)] by blast
  then obtain n rc where n: "n \<ge> k" "phase (f n) = Exited rc"
    using shut.inevitable [of f k] assms(2-4) by blast
  have "rc = 0" if "phase (f 0) = Check"
  proof -
    have "\<forall>rc. phase (f n) = Exited rc \<longrightarrow> rc = 0"
      by (induction n) (use that assms(2) exits_with_zero in \<open>auto, metis\<close>)
    with n(2) show ?thesis by blast
  qed
  with n show ?thesis by blast
qed

text \<open>A run with a signal before the first connection; after the return only signals come.\<close>

fun demo_run :: "nat \<Rightarrow> server" where
  "demo_run 0 = demo_server"
| "demo_run (Suc 0) = demo_server\<lparr>quit := True\<rparr>"
| "demo_run (Suc (Suc 0)) = demo_server\<lparr>quit := True, phase := Drain\<rparr>"
| "demo_run (Suc (Suc (Suc n))) = run_server_end (demo_server\<lparr>quit := True, phase := Drain\<rparr>)"

lemma demo_run_steps: "srv_step (demo_run n) (demo_run (Suc n))"
proof (cases n rule: demo_run.cases)
  case 1
  then show ?thesis using srv_signal [of demo_server SIGINT] by (simp add: shutdown_handler_def)
next
  case 2
  then show ?thesis using srv_quit [of "demo_server\<lparr>quit := True\<rparr>"] by (simp add: demo_server_eq)
next
  case 3
  then show ?thesis using srv_end [of "demo_server\<lparr>quit := True, phase := Drain\<rparr>"]
    by (simp add: demo_server_eq srv_blank_def SLIST_EMPTY_def)
next
  case (4 m)
  then show ?thesis using srv_signal [of "demo_run n" SIGINT]
    by (simp add: shutdown_handler_def run_server_end_def demo_server_eq srv_blank_def)
qed

lemma demo_run_fair: "(\<exists>t. srv_step (demo_run n) t \<and> t \<noteq> demo_run n) \<Longrightarrow> \<exists>m \<ge> n. demo_run (Suc m) \<noteq> demo_run m"
proof (cases n rule: demo_run.cases)
  case (4 m)
  let ?s = "run_server_end (demo_server\<lparr>quit := True, phase := Drain\<rparr>)"
  have s: "phase ?s = Exited 0" "tstate ?s = Map.empty" "quit ?s"
    by (simp_all add: run_server_end_def demo_server_eq srv_blank_def)
  have "t = ?s" if "srv_step ?s t" for t
    using that by (cases rule: srv_step_cases) (use s in \<open>auto simp: shutdown_handler_def\<close>)
  moreover assume "\<exists>t. srv_step (demo_run n) t \<and> t \<noteq> demo_run n"
  ultimately show ?thesis using 4 by auto
qed (auto intro!: exI [of _ n] dest: arg_cong [where f = phase] arg_cong [where f = quit]
    simp: demo_server_eq srv_blank_def run_server_end_def)

theorem server_shutdown_inevitable_witness:
  "\<exists>n \<ge> 1. \<exists>rc. phase (demo_run n) = Exited rc \<and> rc = 0"
  using server_shutdown_inevitable [of demo_run 1] demo_server_init demo_run_steps demo_run_fair
  by (auto simp: demo_server_eq)

lemma demo_exits: "\<exists>s. srv_step\<^sup>*\<^sup>* demo_server s \<and> phase s = Exited 0"
proof -
  have "quit demo_returned" "phase demo_returned = Check"
    by (simp_all add: demo_returned_def demo_serving_def demo_server_eq)
  then have "srv_step demo_returned (demo_returned\<lparr>phase := Drain\<rparr>)" by (intro srv_quit)
  with demo_returns have "srv_step\<^sup>*\<^sup>* demo_server (demo_returned\<lparr>phase := Drain\<rparr>)" by simp
  moreover have "\<exists>s. srv_step\<^sup>*\<^sup>* (demo_returned\<lparr>phase := Drain\<rparr>) s \<and> phase s = Exited 0"
    by (rule drain_all [OF demo_drain_entries]) (simp_all add: demo_returned_def all_returned_def)
  ultimately show ?thesis by (meson rtranclp_trans)
qed

theorem server_exit_clean_witness:
  "\<exists>s :: server. phase s = Exited 0 \<and> nodes (thread_list s) = Map.empty \<and> card (dom (conns s)) \<le> 1"
proof -
  obtain s where s: "srv_step\<^sup>*\<^sup>* demo_server s" "phase s = Exited 0" using demo_exits by blast
  from server_exit_clean [OF demo_server_init s] s(2) show ?thesis by blast
qed

section \<open>The list of threads\<close>

text \<open>
  C32: one uninterrupted pass over the list, in a reachable state in which every thread that has set
  its flag has returned, joins and releases exactly the complete threads and keeps the others
  in their order.
\<close>

theorem pass_collects_complete:
  assumes "srv_init s0" and "srv_step\<^sup>*\<^sup>* s0 s" and "\<forall>i. tstate s i \<noteq> Some Ending"
  shows "\<exists>es s'. entries_ok es s \<and> reap_pass s = Some s' \<and>
    entries_ok (filter (\<lambda>e. \<not> complete s e) es) s'"
proof -
  obtain es where ok: "entries_ok es s"
    using srv.reachable_inv [OF assms(1,2)] by (auto simp: srv_inv_def srv_ok_def)
  with foreach_reap [of "[]" es s] assms(3) entries_ok_first [OF ok] show ?thesis
    by (auto simp: reap_pass_def)
qed

theorem pass_collects_complete_witness:
  "\<exists>es s'. entries_ok es demo_serving \<and> reap_pass demo_serving = Some s' \<and>
    entries_ok (filter (\<lambda>e. \<not> complete demo_serving e) es) s'"
  by (rule pass_collects_complete [OF demo_server_init demo_accepts]) (simp add: demo_serving_def)

text \<open>
  C33: the list macros refine lists: inserting allocated nodes at the head of an initialised list
  and then removing some of them gives the remaining ones, last inserted first; neither follows a
  null or dangling pointer, and the searches end. The iteration over what remains visits it in
  order, and the one with the address of the previous link gets each element with the link
  that points to it: the head for the first, the element before for the others.
\<close>

theorem slist_insert_remove:
  assumes "distinct ys" and "set ys \<subseteq> dom (nodes l)" and "distinct rs" and "set rs \<subseteq> set ys"
  shows "\<exists>l1 l2 xs. fold_option (\<lambda>a. SLIST_INSERT_HEAD (Some a)) ys (SLIST_INIT l) = Some l1 \<and>
    fold_option (\<lambda>a. SLIST_REMOVE (Some a)) rs l1 = Some l2 \<and>
    xs = filter (\<lambda>a. a \<notin> set rs) (rev ys) \<and>
    SLIST_FOREACH_FROM fst collect NULL (l2, []) = Some (l2, xs) \<and>
    SLIST_FOREACH_FROM_SAFE fst collect NULL (l2, []) = Some (l2, xs) \<and>
    SLIST_FOREACH_PREVPTR fst collect_links (l2, []) = Some (l2, zip xs (butlast (At_head 0 # map At_elem xs)))"
proof -
  have "set ys \<subseteq> dom (nodes (SLIST_INIT l))" using assms(2) by (simp add: SLIST_INIT_def)
  then obtain l1 where "fold_option (\<lambda>a. SLIST_INSERT_HEAD (Some a)) ys (SLIST_INIT l) = Some l1" "slist_holds l1 (rev ys)"
    using sl.insert_all [OF SLIST_INIT_holds, of ys l] assms(1) by auto
  moreover from this(2) obtain l2 where "fold_option (\<lambda>a. SLIST_REMOVE (Some a)) rs l1 = Some l2"
      "slist_holds l2 (filter (\<lambda>a. a \<notin> set rs) (rev ys))"
    using sl.remove_all [of l1 "rev ys" rs] assms by auto
  ultimately show ?thesis
    using SLIST_FROM_first SLIST_FOREACH_PREVPTR_lists by blast
qed

theorem slist_insert_remove_witness:
  "\<exists>l1 l2. fold_option (\<lambda>a. SLIST_INSERT_HEAD (Some a)) [1, 2, 3]
      (SLIST_INIT \<lparr>nodes = (\<lambda>a. Some \<lparr>sle_next = NULL, sdata = a\<rparr>), slh_first = NULL\<rparr>) = Some l1 \<and>
    fold_option (\<lambda>a. SLIST_REMOVE (Some a)) [2] l1 = Some l2 \<and>
    SLIST_FOREACH_PREVPTR fst collect_links (l2, []) = Some (l2, [(3, At_head 0), (1, At_elem 3)])"
proof -
  have "dom (\<lambda>a :: nat. Some \<lparr>sle_next = NULL, sdata = a\<rparr>) = UNIV" by auto
  then show ?thesis
    using slist_insert_remove [of "[1, 2, 3]" "\<lparr>nodes = (\<lambda>a. Some \<lparr>sle_next = NULL, sdata = a\<rparr>), slh_first = NULL\<rparr>" "[2]"]
    by auto
qed

text \<open>
  C34: the process, whatever its system calls answer. The exit status is -1 if the socket cannot be created or
  the address cannot be resolved or bound; the parent of the daemon exits with 0, and so does a process
  whose \<open>fork\<close> failed; otherwise it is what \<open>run_server\<close> returns. \<open>run_server\<close> is called exactly once if the socket
  is bound and the process is to serve (it is no daemon, or the child), and otherwise not at all; it is called on the socket that
  was created, after that is bound, and the next and last thing is to close the socket. No other descriptor
  is ever closed, and a socket that was created is closed exactly once, with two exceptions: it is closed twice when setting its
  options fails (and used after the first close), and not at all when \<open>fork\<close> fails.
\<close>

theorem main_outcome:
  assumes "server_main E argv = (rc, calls)"
    and "daemon \<longleftrightarrow> 1 < length argv \<and> argv ! 1 = ''-d''"
    and "bound \<longleftrightarrow> 0 \<le> sint (socket_rc E) \<and> getaddrinfo_rc E = 0 \<and> bind_rc E = 0"
  shows "rc = (if \<not> bound then - 1 else if daemon \<and> fork_rc E \<noteq> 0 then 0 else run_server_rc E) \<and>
    filter (\<lambda>c. \<exists>fd. c = Call_run_server fd) calls =
      (if bound \<and> (daemon \<longrightarrow> fork_rc E = 0) then [Call_run_server (socket_rc E)] else []) \<and>
    (bound \<and> (daemon \<longrightarrow> fork_rc E = 0) \<longrightarrow>
      (\<exists>pre. calls = pre @ [Call_run_server (socket_rc E), Call_close (socket_rc E)] \<and> Call_bind (socket_rc E) \<in> set pre)) \<and>
    filter (\<lambda>c. \<exists>fd. c = Call_close fd) calls =
      (if 0 \<le> sint (socket_rc E)
       then replicate ((if sint (setsockopt_rc E) < 0 then 1 else 0) +
           (if bound \<and> daemon \<and> sint (fork_rc E) < 0 then 0 else 1)) (Call_close (socket_rc E))
       else [])"
proof -
  have "sint (fork_rc E) < 0 \<Longrightarrow> fork_rc E \<noteq> 0" by auto
  then show ?thesis
    using assms by (auto simp: server_main_def stop_process_def Let_def numeral_2_eq_2 split: if_split_asm)
qed

text \<open>A server in the foreground, one whose options cannot be set, and one that gets no socket.\<close>

definition demo_main :: main_env where
  "demo_main = \<lparr>sigaction_rc = (\<lambda>_. 0), socket_rc = 3, setsockopt_rc = 0, getfl_rc = 2, getaddrinfo_rc = 0, bind_rc = 0,
      fork_rc = 0, run_server_rc = 0\<rparr>"

theorem main_outcome_witness:
  "fst (server_main demo_main [''aesdsocket'']) = 0 \<and>
   filter (\<lambda>c. \<exists>fd. c = Call_close fd) (snd (server_main (demo_main\<lparr>setsockopt_rc := - 1\<rparr>) [''aesdsocket''])) =
     [Call_close 3, Call_close 3] \<and>
   fst (server_main (demo_main\<lparr>socket_rc := - 1\<rparr>) [''aesdsocket'']) = - 1"
  using main_outcome [OF surjective_pairing refl refl, of demo_main "[''aesdsocket'']"]
    main_outcome [OF surjective_pairing refl refl, of "demo_main\<lparr>setsockopt_rc := - 1\<rparr>" "[''aesdsocket'']"]
    main_outcome [OF surjective_pairing refl refl, of "demo_main\<lparr>socket_rc := - 1\<rparr>" "[''aesdsocket'']"]
  by (simp add: demo_main_def numeral_2_eq_2)

end
