(* ===== verification/System_Properties.thy ===== *)
theory System_Properties
  imports System_Progress System_Safety Socket_Properties
begin

text \<open>
  The properties of the server and the driver together, with a concrete run: a connection is
  accepted, its thread locks the mutex and sends back the line that the client has sent.
\<close>

section \<open>Every run\<close>

text \<open>
  C3: server and driver as one system, one system call at a time. Every run of it, whatever connections
  arrive, in whatever order the threads and the main thread make their steps, whatever messages
  are sent, system calls and kernel services fail and signals come, is a run of \<open>run_server\<close> with its
  threads and at the same time a sequence of calls of the driver's file operations: the
  log that the device holds is the effect of the writes among them, one after the other. The mutex is locked if and only if some thread stands between its lock and its unlock,
  there is never more than one such thread, and a file of the device is open only for a thread that stands between its \<open>open\<close> and its
  \<open>close\<close>, so at most one is.
\<close>

theorem system_runs:
  assumes "sys_init B y0" and "sys_step\<^sup>*\<^sup>* y0 y"
  shows "srv_step\<^sup>*\<^sup>* (srv y0) (srv y) \<and> drv_step\<^sup>*\<^sup>* (dev y0) (dev y) \<and>
    log_step\<^sup>*\<^sup>* empty_log (dev_abs (ks (dev y))) \<and>
    (\<exists>ws. recorded drv_act (dev y0) ws (dev y) \<and> dev_abs (ks (dev y)) = fold spec_write ws empty_log) \<and>
    (file_lock y \<longleftrightarrow> (\<exists>i. holds_lock (point (control y i)))) \<and>
    (\<forall>i j. holds_lock (point (control y i)) \<and> holds_lock (point (control y j)) \<longrightarrow> i = j) \<and>
    (\<forall>n \<in> dom (files (dev y)). \<exists>i out. device_of (point (control y i)) = Some out \<and> n = unat out) \<and>
    card (dom (files (dev y))) \<le> 1"
proof -
  have init: "drv_init B (dev y0)" using assms(1) by (simp add: sys_init_def)
  then have "dev_abs (ks (dev y0)) = empty_log"
    using dev_abs_zero init_device(1) by (auto simp: drv_init_def)
  moreover have steps: "drv_step\<^sup>*\<^sup>* (dev y0) (dev y)" by (rule sys_dev.reachable_sim [OF assms])
  ultimately have log: "log_step\<^sup>*\<^sup>* empty_log (dev_abs (ks (dev y)))" using drv.reachable_sim [OF init] by simp
  obtain ws where ws: "recorded drv_act (dev y0) ws (dev y)" using hist.run_recorded [OF steps] by blast
  have written: "\<exists>ws. recorded drv_act (dev y0) ws (dev y) \<and> dev_abs (ks (dev y)) = fold spec_write ws empty_log"
    using ws hist.recorded_effect [OF ws drv_init_inv [OF init]] \<open>dev_abs (ks (dev y0)) = empty_log\<close> by auto
  have inv: "lock_ok y" "files_ok y" using sys_srv.reachable_inv [OF assms] by (simp_all add: sys_inv_def)
  have one: "m = n" if "m \<in> dom (files (dev y))" "n \<in> dom (files (dev y))" for m n
    using inv that device_holds unfolding lock_ok_def files_ok_def by (metis option.inject)
  then have "card (dom (files (dev y))) \<le> 1"
    by (cases "dom (files (dev y)) = {}") (simp, metis card_1_singleton_iff dom_eq_empty_conv equals0I is_singletonI' is_singleton_altdef le_refl)
  with steps log written sys_srv.reachable_sim [OF assms] inv show ?thesis by (simp add: lock_ok_def files_ok_def)
qed

text \<open>
  C4: the threads of the system run into nothing undefined, but for two things that a client can send. In every reachable state, also while
  the server shuts down and closes descriptors that threads still use, a thread that has not returned can
  make its next step, unless it waits, for the mutex, for a number for the file of the device that is not in use, or for
  its client, or the chunk that it has to receive next makes the recogniser of seek commands undefined: there is no
  terminator in the buffer and not all of the three marks, so that the search runs off its end, or
  a field for a number is too long for its array of ten bytes or fills it with digits, so that the copy or the conversion
  runs off that array. In these two cases, and when it waits, there is no step. (The kernel's lock returns \<open>0\<close> or a negative number, and its copy to user space
  writes no more than it is asked to.)
\<close>

theorem system_no_undefined_behaviour:
  assumes "sys_init B y0" and "\<forall>i. kernel_bounded (kern (world y0 i))" and "sys_step\<^sup>*\<^sup>* y0 y"
    and "tstate (srv y) i = Some st" and "st \<noteq> Finished" and "st \<noteq> Joined"
  shows "\<exists>c a. targ (srv y) i = Some c \<and> conns (srv y) c = Some a \<and>
    (thread_acts i y = None \<longleftrightarrow> thread_waits a (control y i) (view i y) \<or> thread_overruns a (control y i) (view i y))"
  by (rule acts_None_iff [OF safe.reachable_inv assms(4-6)]) (use assms(1-3) in \<open>simp_all add: safe_init_def\<close>)

text \<open>
  C2: the interleaved threads serve their clients as if they came one after the other. In every run in which
  the server does not shut down, with a kernel whose locks, copies and memory hold out, whenever the mutex is free there is an order of the threads that have
  used the device in which serving their clients one by one gives every client exactly the bytes
  that it has received and leaves the log that the device holds: whatever the clients have sent, in whatever pieces, and however
  much of the replies the sockets take. The order agrees with the course of time: at a later moment at which
  the mutex is free it has only been extended at its end.
\<close>

theorem system_serialises:
  assumes "sys_init B y0" and "able B N y0" and "serving\<^sup>*\<^sup>* y0 y" and "\<not> file_lock y"
    and "serving\<^sup>*\<^sup>* y z" and "\<not> file_lock z"
  shows "\<exists>is js. served_order y0 is (dev_abs (ks (dev y))) y \<and> served_order y0 (is @ js) (dev_abs (ks (dev z))) z"
proof -
  from serial_run [OF assms(3) sys_init_inv [OF assms(1)] serial_init [OF assms(1)] assms(2)]
  obtain "is" where y: "sys_inv B y" "serial B y0 is y" by auto
  with serial_run [OF assms(5) _ _ assms(2)] obtain js where "serial B y0 (is @ js) z" by blast
  with y(2) assms(4,6) show ?thesis by (auto simp: serial_def)
qed

text \<open>
  C18: the mutex does not stay locked because of the interleaving: in every run in which the server does not shut down,
  with a kernel whose locks, copies and memory hold out, the thread that holds the mutex can go on, by steps of its own, until it is given
  back, provided that what its client has sent lets the connection end at all, and that the number that
  \<open>open\<close> gives it is not the one of an open socket.
\<close>

theorem system_progress:
  assumes "sys_init B y0" and "able B N y0" and "serving\<^sup>*\<^sup>* y0 y" and "\<not> shutting (phase (srv y0))"
    and "holds_lock (point (control y i))"
    and "\<And>l. spec_connection (inbox (world y0 i)) (sends (world y0 i)) l \<noteq> None"
    and "point (control y i) = At_open \<Longrightarrow> open_rc (world y i) \<notin> client_fds (srv y)"
  shows "\<exists>z. (\<lambda>u v. serving u v \<and> thread_acts i u = Some v)\<^sup>*\<^sup>* y z \<and> \<not> file_lock z"
proof -
  from serial_run [OF assms(3) sys_init_inv [OF assms(1)] serial_init [OF assms(1)] assms(2)]
  obtain "is" where y: "sys_inv B y" "serial B y0 is y" by auto
  have "\<not> shutting (phase (srv y))" using assms(3,4) by (induction rule: rtranclp_induct) (simp_all add: serving_def)
  from section_finishes [OF y assms(2,5) this assms(6,7)] show ?thesis by (simp add: own_def [abs_def])
qed

section \<open>A concrete run\<close>

definition demo_system :: system where
  "demo_system =
     \<lparr>srv = demo_server, dev = demo_start, file_lock = False, control = (\<lambda>i. thread_start demo_buffer demo_buffer),
      world = (\<lambda>i. demo_session demo_line)\<rparr>"

lemma demo_system_init: "sys_init {} demo_system"
  unfolding sys_init_def using demo_buffer_length
  by (intro conjI allI exI [of _ demo_buffer])
    (simp_all add: demo_system_def demo_server_init demo_start_init demo_kernel_ok)

lemma demo_plain: "plain_line demo_line"
  by (simp add: plain_line_def demo_line_def BUFFER_SIZE_def)

lemma demo_system_able: "able {} BUFFER_SIZE demo_system"
proof -
  have "fits BUFFER_SIZE (map (\<lambda>msg. ([Chunk msg], [])) (map (\<lambda>i. demo_line) is)) empty_log" for "is" :: "nat list"
    by (rule fits_lines) (simp_all add: demo_plain empty_log_def)
  moreover have "visit_of demo_system = (\<lambda>i. ([Chunk demo_line], []))" by (simp add: visit_of_def demo_system_def fun_eq_iff)
  ultimately show ?thesis
    using demo_memory_for [of BUFFER_SIZE] demo_kernel_up
    by (simp add: able_def demo_system_def BUFFER_SIZE_def KMALLOC_MAX_SIZE_def comp_def)
qed

text \<open>The connection is accepted, and its thread locks the mutex.\<close>

definition demo_accepted :: system where
  "demo_accepted = demo_system\<lparr>srv := demo_serving\<rparr>"

lemma demo_accepted_run: "serving\<^sup>*\<^sup>* demo_system demo_accepted"
proof -
  let ?r = "demo_server\<lparr>phase := Reap NULL\<rparr>" and ?a = "demo_server\<lparr>phase := Accept\<rparr>"
  have main: "serving (demo_system\<lparr>srv := s\<rparr>) (demo_system\<lparr>srv := t\<rparr>)" if "main_step s t" "\<not> shutting (phase t)" for s t
    using sys_main [of "demo_system\<lparr>srv := s\<rparr>" t] that
    by (auto simp: serving_def shutting_def demo_system_def demo_start_def)
  have "serving demo_system (demo_system\<lparr>srv := ?r\<rparr>)"
    using main [OF demo_accept_step(2)] by (simp add: shutting_def demo_system_def)
  moreover have "serving (demo_system\<lparr>srv := ?r\<rparr>) (demo_system\<lparr>srv := ?a\<rparr>)"
    using main [OF demo_accept_step(3)] by (simp add: shutting_def)
  moreover have "serving (demo_system\<lparr>srv := ?a\<rparr>) demo_accepted"
    unfolding demo_accepted_def
    by (rule main [OF demo_accept_step(1)]) (simp add: shutting_def demo_serving_def demo_server_eq)
  ultimately show ?thesis by (meson converse_rtranclp_into_rtranclp rtranclp.rtrancl_refl)
qed

lemma demo_locks:
  obtains y where "serving demo_accepted y" "point (control y 1) = At_open" "open_rc (world y 1) = 4" "client_fds (srv y) = {5}"
    "\<forall>i. i \<noteq> 1 \<longrightarrow> point (control y i) = At_lock"
proof -
  have ready: "tstate (srv demo_accepted) 1 \<noteq> None" "\<not> shutting (phase (srv demo_accepted))"
    by (simp_all add: demo_accepted_def demo_serving_def demo_server_eq shutting_def)
  have "lock_mutex session_env 9 (view 1 demo_accepted) = Some ((view 1 demo_accepted)\<lparr>mutex_held := True\<rparr>)"
    by (simp add: lock_mutex_def session_lock_def demo_accepted_def demo_system_def)
  then obtain y where y: "thread_acts 1 demo_accepted = Some y"
    "point (control y 1) = At_open" "open_rc (world y 1) = 4" "client_fds (srv y) = {5}" "\<forall>i. i \<noteq> 1 \<longrightarrow> point (control y i) = At_lock" "phase (srv y) = phase (srv demo_accepted)"
    by (simp add: thread_acts_def thread_step_def demo_accepted_def demo_serving_def demo_system_def thread_start_def)
  with sys_thread [OF ready(1) y(1)] ready(2) have "serving demo_accepted y" by (simp add: serving_def)
  with y(2-5) that show thesis by blast
qed

lemma demo_spec: "pending l = [] \<Longrightarrow> spec_connection (inbox (world demo_system i)) (sends (world demo_system i)) l =
    Some (\<lparr>lines = keep_last 10 (lines l @ [demo_line]), pending = []\<rparr>, concat (keep_last 10 (lines l @ [demo_line])), True)"
  using spec_line [OF demo_plain, of l] by (simp add: demo_system_def contents_def Let_def)

lemma demo_spec_total: "spec_connection (inbox (world demo_system i)) (sends (world demo_system i)) l \<noteq> None"
proof -
  have "chunk_seek demo_line \<noteq> None" using chunk_seek_no_colon [of demo_line] by (simp add: BUFFER_SIZE_def)
  then show ?thesis
    by (auto simp: demo_system_def spec_connection_def spec_reply_def spec_chunk_def BUFFER_SIZE_def
        split: outcome.split if_split_asm)
qed

theorem system_runs_witness:
  "\<exists>y. sys_step\<^sup>*\<^sup>* demo_system y \<and> file_lock y \<and> srv_step\<^sup>*\<^sup>* demo_server (srv y) \<and> drv_step\<^sup>*\<^sup>* demo_start (dev y)"
proof -
  obtain y where y: "serving demo_accepted y" "point (control y 1) = At_open" by (rule demo_locks)
  have "serving\<^sup>*\<^sup>* demo_system y" using demo_accepted_run y(1) by simp
  then have run: "sys_step\<^sup>*\<^sup>* demo_system y" by (rule rtranclp_mono [THEN predicate2D, rotated]) (auto simp: serving_def)
  have "holds_lock (point (control y 1))" using y(2) by (simp add: holds_lock_def)
  with run system_runs [OF demo_system_init run] show ?thesis by (auto simp: demo_system_def)
qed

theorem system_no_undefined_behaviour_witness: "thread_acts 1 demo_accepted \<noteq> None"
proof -
  have run: "sys_step\<^sup>*\<^sup>* demo_system demo_accepted"
    using demo_accepted_run by (rule rtranclp_mono [THEN predicate2D, rotated]) (auto simp: serving_def)
  have K: "\<forall>i. kernel_bounded (kern (world demo_system i))"
    by (simp add: kernel_bounded_def demo_system_def)
  have st: "tstate (srv demo_accepted) 1 = Some Running" by (simp add: demo_accepted_def demo_serving_def)
  have "point (control demo_accepted 1) = At_lock" "\<not> file_lock demo_accepted"
    by (simp_all add: demo_accepted_def demo_system_def thread_start_def)
  with system_no_undefined_behaviour [OF demo_system_init K run st] show ?thesis
    by (auto simp: thread_waits_def thread_overruns_def)
qed

theorem system_progress_witness: "\<exists>z. serving\<^sup>*\<^sup>* demo_accepted z \<and> \<not> file_lock z"
proof -
  obtain y where y: "serving demo_accepted y" "point (control y 1) = At_open" "open_rc (world y 1) = 4" "client_fds (srv y) = {5}"
    by (rule demo_locks)
  have run: "serving\<^sup>*\<^sup>* demo_system y" using demo_accepted_run y(1) by simp
  have "\<exists>z. (\<lambda>u v. serving u v \<and> thread_acts 1 u = Some v)\<^sup>*\<^sup>* y z \<and> \<not> file_lock z"
    by (rule system_progress [OF demo_system_init demo_system_able run])
      (use y demo_spec_total in \<open>simp_all add: demo_system_def demo_server_eq shutting_def holds_lock_def\<close>)
  then obtain z where "(\<lambda>u v. serving u v \<and> thread_acts 1 u = Some v)\<^sup>*\<^sup>* y z" "\<not> file_lock z" by blast
  moreover from this(1) have "serving\<^sup>*\<^sup>* y z" by (rule rtranclp_mono [THEN predicate2D, rotated]) auto
  ultimately show ?thesis using y(1) by (meson converse_rtranclp_into_rtranclp)
qed

text \<open>The thread of the accepted connection runs to its unlock.\<close>

lemma demo_finishes:
  obtains z where "serving\<^sup>*\<^sup>* demo_accepted z" "\<not> file_lock z" "point (control z 1) \<noteq> At_lock"
    "\<forall>i. i \<noteq> 1 \<longrightarrow> point (control z i) = At_lock"
proof -
  obtain y where y: "serving demo_accepted y" "point (control y 1) = At_open" "open_rc (world y 1) = 4" "client_fds (srv y) = {5}"
    and oth: "\<forall>i. i \<noteq> 1 \<longrightarrow> point (control y i) = At_lock"
    by (rule demo_locks) blast
  have run: "serving\<^sup>*\<^sup>* demo_system y" using demo_accepted_run y(1) by simp
  from serial_run [OF run sys_init_inv [OF demo_system_init] serial_init [OF demo_system_init] demo_system_able]
  obtain "is" where inv: "sys_inv {} y" "serial {} demo_system is y" by auto
  have "\<not> shutting (phase (srv y))" using y(1) by (simp add: serving_def)
  from section_finishes [OF inv demo_system_able _ this demo_spec_total, of 1] y
  obtain z where z: "(own 1)\<^sup>*\<^sup>* y z" "\<not> file_lock z" by (auto simp: holds_lock_def)
  have all: "serving\<^sup>*\<^sup>* y z \<and> point (control z 1) \<noteq> At_lock \<and> (\<forall>i. i \<noteq> 1 \<longrightarrow> point (control z i) = At_lock)"
    using z(1)
  proof (induction rule: rtranclp_induct)
    case base
    then show ?case using y(2) oth by simp
  next
    case (step u v)
    then have v: "thread_acts 1 u = Some v" "serving u v" by (simp_all add: own_def)
    then show ?case using step.IH acts_control [OF v(1)] by auto
  qed
  have "serving\<^sup>*\<^sup>* demo_accepted z" by (rule converse_rtranclp_into_rtranclp [OF y(1) all [THEN conjunct1]])
  then show thesis using z(2) all by (intro that) blast+
qed

theorem system_serialises_witness:
  "\<exists>z. serving\<^sup>*\<^sup>* demo_system z \<and> outbox (world z 1) = demo_line \<and>
     dev_abs (ks (dev z)) = \<lparr>lines = [demo_line], pending = []\<rparr>"
proof -
  obtain z where z: "serving\<^sup>*\<^sup>* demo_accepted z" "\<not> file_lock z" "point (control z 1) \<noteq> At_lock"
    and oth: "\<forall>i. i \<noteq> 1 \<longrightarrow> point (control z i) = At_lock"
    by (rule demo_finishes)
  have run: "serving\<^sup>*\<^sup>* demo_system z" using demo_accepted_run z(1) by simp
  then have steps: "sys_step\<^sup>*\<^sup>* demo_system z" by (rule rtranclp_mono [THEN predicate2D, rotated]) (auto simp: serving_def)
  obtain "is" where so: "served_order demo_system is (dev_abs (ks (dev z))) z"
    using system_serialises [OF demo_system_init demo_system_able run z(2) rtranclp.rtrancl_refl z(2)] by blast
  have "lock_ok z" using sys_srv.reachable_inv [OF demo_system_init steps] by (simp add: sys_inv_def)
  then have "\<not> holds_lock (point (control z 1))" using z(2) by (auto simp: lock_ok_def)
  then have "done_threads demo_system z = {1}"
    using z(3) oth by (auto simp: done_threads_def) (simp_all add: demo_system_def)
  then have set: "set is = {1}" "distinct is" using so by (simp_all add: served_order_def)
  then have "length is = 1" using distinct_card [of "is"] by simp
  then obtain i where "is = [i]" by (cases "is") auto
  then have "is = [1]" using set(1) by simp
  with so demo_spec [of empty_log 1] have "outbox (world z 1) = demo_line" "dev_abs (ks (dev z)) = \<lparr>lines = [demo_line], pending = []\<rparr>"
    by (simp_all add: served_order_def visit_of_def empty_log_def)
  with run show ?thesis by blast
qed


end
