(* ===== verification/Queue_Interface.thy ===== *)
theory Queue_Interface
  imports Queue_Links
begin

text \<open>
  The contract of the queue families of \<open>server/queue.h\<close>: operations on lists of elements, one
  list per head, an element being in at most one of them. A family offers some of the
  operations, as the table in the header of the file says, and implements those it offers.
\<close>

section \<open>Operations on lists\<close>

fun insert_after :: "'a \<Rightarrow> 'a \<Rightarrow> 'a list \<Rightarrow> 'a list" where
  "insert_after b a [] = []"
| "insert_after b a (x # xs) = (if x = b then x # a # xs else x # insert_after b a xs)"

fun insert_before :: "'a \<Rightarrow> 'a \<Rightarrow> 'a list \<Rightarrow> 'a list" where
  "insert_before b a [] = []"
| "insert_before b a (x # xs) = (if x = b then a # x # xs else x # insert_before b a xs)"

fun remove_after :: "'a \<Rightarrow> 'a list \<Rightarrow> 'a list" where
  "remove_after b [] = []"
| "remove_after b (x # xs) = (if x = b then x # tl xs else x # remove_after b xs)"

lemma insert_after_split [simp]: "b \<notin> set us \<Longrightarrow> insert_after b a (us @ b # ws) = us @ b # a # ws"
  by (induction us) auto

lemma insert_before_split [simp]: "b \<notin> set us \<Longrightarrow> insert_before b a (us @ b # ws) = us @ a # b # ws"
  by (induction us) auto

lemma remove_after_split [simp]: "b \<notin> set us \<Longrightarrow> remove_after b (us @ b # ws) = us @ b # tl ws"
  by (induction us) auto

datatype queue_op =
    Q_init nat
  | Q_insert_head nat addr
  | Q_insert_tail nat addr
  | Q_insert_after nat addr addr
  | Q_insert_before nat addr addr
  | Q_remove nat addr
  | Q_remove_head nat
  | Q_remove_after nat addr
  | Q_concat nat nat
  | Q_swap nat nat

text \<open>
  \<open>H\<close> are the heads of the memory and \<open>A\<close> its elements. An element that is inserted is in no
  list; one that is named as a position, or removed, is in the list of the head.
\<close>

fun spec_op :: "nat set \<Rightarrow> addr set \<Rightarrow> queue_op \<Rightarrow> lists \<Rightarrow> lists option" where
  "spec_op H A (Q_init h) Q = (if h \<in> H then Some (Q(h \<mapsto> [])) else None)"
| "spec_op H A (Q_insert_head h a) Q =
     do { xs \<leftarrow> Q h; if a \<in> A - members Q then Some (Q(h \<mapsto> a # xs)) else None }"
| "spec_op H A (Q_insert_tail h a) Q =
     do { xs \<leftarrow> Q h; if a \<in> A - members Q then Some (Q(h \<mapsto> xs @ [a])) else None }"
| "spec_op H A (Q_insert_after h b a) Q =
     do { xs \<leftarrow> Q h;
          if b \<in> set xs \<and> a \<in> A - members Q then Some (Q(h \<mapsto> insert_after b a xs)) else None }"
| "spec_op H A (Q_insert_before h b a) Q =
     do { xs \<leftarrow> Q h;
          if b \<in> set xs \<and> a \<in> A - members Q then Some (Q(h \<mapsto> insert_before b a xs)) else None }"
| "spec_op H A (Q_remove h a) Q =
     do { xs \<leftarrow> Q h; if a \<in> set xs then Some (Q(h \<mapsto> remove1 a xs)) else None }"
| "spec_op H A (Q_remove_head h) Q =
     do { xs \<leftarrow> Q h; if xs \<noteq> [] then Some (Q(h \<mapsto> tl xs)) else None }"
| "spec_op H A (Q_remove_after h b) Q =
     do { xs \<leftarrow> Q h; if b \<in> set (butlast xs) then Some (Q(h \<mapsto> remove_after b xs)) else None }"
| "spec_op H A (Q_concat h k) Q =
     do { xs \<leftarrow> Q h; ys \<leftarrow> Q k; if h \<noteq> k then Some (Q(h \<mapsto> xs @ ys, k \<mapsto> [])) else None }"
| "spec_op H A (Q_swap h k) Q =
     do { xs \<leftarrow> Q h; ys \<leftarrow> Q k; if h \<noteq> k then Some (Q(h \<mapsto> ys, k \<mapsto> xs)) else None }"

text \<open>The same operations, by the place in the list where they work.\<close>

lemma splitE:
  assumes "b \<in> set xs"
  obtains us ws where "xs = us @ b # ws" and "b \<notin> set us"
  using assms split_list_first by metis

lemma split_butlastE:
  assumes "b \<in> set (butlast xs)"
  obtains us c ws where "xs = us @ b # c # ws" and "b \<notin> set us"
proof -
  obtain us vs where "butlast xs = us @ b # vs" and us: "b \<notin> set us"
    using assms split_list_first by metis
  moreover have "xs = butlast xs @ [last xs]" using assms by (metis append_butlast_last_id in_set_butlastD empty_iff list.set(1))
  ultimately have "xs = us @ b # (vs @ [last xs])" by simp
  with us that show thesis by (cases "vs @ [last xs]") auto
qed

text \<open>
  The checks of the doubly linked families, which a kernel built with \<open>INVARIANTS\<close> runs and any
  other build omits. A failed check is a \<open>panic\<close>: the macro does not go on.
\<close>

definition qmd_check :: "bool \<Rightarrow> bool option \<Rightarrow> unit option" where
  "qmd_check invariants ok =
     (if invariants then do { b \<leftarrow> ok; if b then Some () else None } else Some ())"

lemma qmd_check_ok [simp]: "ok = Some True \<Longrightarrow> qmd_check invariants ok = Some ()"
  by (simp add: qmd_check_def)

section \<open>The contract\<close>

locale queue_family =
  fixes holds :: "'m \<Rightarrow> lists \<Rightarrow> bool"
    and exec :: "queue_op \<Rightarrow> 'm \<Rightarrow> 'm option"
    and offers :: "queue_op \<Rightarrow> bool"
    and head_set :: "'m \<Rightarrow> nat set"
    and elem_set :: "'m \<Rightarrow> addr set"
    and first_of :: "'m \<Rightarrow> nat \<Rightarrow> ptr option"
    and next_of :: "'m \<Rightarrow> ptr \<Rightarrow> ptr option"
  assumes exec_law: "holds m Q \<Longrightarrow> offers op \<Longrightarrow> spec_op (head_set m) (elem_set m) op Q = Some Q' \<Longrightarrow>
      \<exists>m'. exec op m = Some m' \<and> holds m' Q' \<and> head_set m' = head_set m \<and> elem_set m' = elem_set m"
    and first_law: "holds m Q \<Longrightarrow> Q h = Some xs \<Longrightarrow> first_of m h = Some (first_ptr xs)"
    and next_law: "holds m Q \<Longrightarrow> Q h = Some xs \<Longrightarrow> visits (next_of m) xs"
begin

text \<open>A sequence of operations that is allowed on the lists runs on the memory.\<close>

lemma exec_all:
  assumes "holds m Q" and "list_all offers ops"
    and "fold_option (spec_op (head_set m) (elem_set m)) ops Q = Some Q'"
  shows "\<exists>m'. fold_option exec ops m = Some m' \<and> holds m' Q'"
  using assms
proof (induction ops arbitrary: m Q)
  case Nil
  then show ?case by simp
next
  case (Cons op ops)
  then obtain Q1 where Q1: "spec_op (head_set m) (elem_set m) op Q = Some Q1"
      "fold_option (spec_op (head_set m) (elem_set m)) ops Q1 = Some Q'"
    by (auto simp: bind_eq_Some_conv)
  with Cons.prems exec_law obtain m1 where "exec op m = Some m1" "holds m1 Q1"
      "head_set m1 = head_set m" "elem_set m1 = elem_set m" by fastforce
  with Cons Q1(2) show ?case by simp
qed

text \<open>An iteration that starts at the first element, or at any other, visits the rest in order.\<close>

lemma collects:
  assumes "holds m Q" and "Q h = Some (us @ ws)"
  shows "for_each (\<lambda>s. next_of (fst s)) collect (first_ptr ws) (m, []) = Some (m, ws)"
    and "for_each_safe (\<lambda>s. next_of (fst s)) collect (first_ptr ws) (m, []) = Some (m, ws)"
  using visits_collect [of next_of m ws "[]"] next_law [OF assms] by (auto dest: visits_suffix)

text \<open>In the safe iteration the body may unlink the element it is given.\<close>

lemma safe_iteration:
  assumes "P xs s" and "\<And>ws s. P ws s \<Longrightarrow> \<exists>Q. holds (get s) Q \<and> Q h = Some ws"
    and "\<And>a ws s s'. P (a # ws) s \<Longrightarrow> body a s = Some s' \<Longrightarrow> P ws s'"
  shows "do { v \<leftarrow> first_of (get s) h; for_each_safe (\<lambda>s. next_of (get s)) body v s } = fold_option body xs s"
proof -
  have "for_each_safe (\<lambda>s. next_of (get s)) body (first_ptr xs) s = fold_option body xs s"
    using assms(1)
  proof (rule for_each_safe_fold [where P = P])
    fix a ws s
    assume "P (a # ws) s"
    then obtain Q where "holds (get s) Q" "Q h = Some (a # ws)" using assms(2) by blast
    then show "next_of (get s) (Some a) = Some (first_ptr ws)" using next_law by force
  qed (rule assms(3))
  moreover obtain Q where "holds (get s) Q" "Q h = Some xs" using assms(1,2) by blast
  ultimately show ?thesis using first_law by simp
qed

text \<open>Removing every element in a safe iteration leaves the list empty.\<close>

lemma drain:
  assumes "holds m Q" and "Q h = Some xs" and "\<And>a. offers (Q_remove h a)"
  shows "\<exists>m'. do { v \<leftarrow> first_of m h; for_each_safe next_of (\<lambda>a. exec (Q_remove h a)) v m } = Some m' \<and>
    holds m' (Q(h \<mapsto> []))"
proof -
  let ?P = "\<lambda>ws m. holds m (Q(h \<mapsto> ws))"
  have Q: "Q = Q(h \<mapsto> xs)" using assms(2) by auto
  have step: "\<exists>m'. exec (Q_remove h a) m = Some m' \<and> ?P ws m'" if "?P (a # ws) m" for a ws m
    using exec_law [OF that assms(3) [of a], of "Q(h \<mapsto> ws)"] by auto
  have fold: "\<exists>m'. fold_option (\<lambda>a. exec (Q_remove h a)) ws m = Some m' \<and> ?P [] m'" if "?P ws m" for ws m
    using that
  proof (induction ws arbitrary: m)
    case (Cons a ws)
    with step obtain m1 where m1: "exec (Q_remove h a) m = Some m1" "?P ws m1" by blast
    from Cons.IH [OF m1(2)] m1(1) show ?case by auto
  qed simp
  have P: "?P xs m" using assms(1) Q by simp
  have "do { v \<leftarrow> first_of m h; for_each_safe next_of (\<lambda>a. exec (Q_remove h a)) v m } =
      fold_option (\<lambda>a. exec (Q_remove h a)) xs m"
  proof (rule safe_iteration [where P = ?P and get = "\<lambda>m. m", OF P])
    show "\<exists>R. holds m R \<and> R h = Some ws" if "?P ws m" for ws m
      using that by (intro exI [of _ "Q(h \<mapsto> ws)"]) simp
    show "?P ws m'" if "?P (a # ws) m" "exec (Q_remove h a) m = Some m'" for a ws m m'
      using step [OF that(1)] that(2) by simp
  qed
  then show ?thesis using fold [OF P] by simp
qed

end

text \<open>A family whose elements can be visited from the last one back.\<close>

locale reversible_family = queue_family holds exec offers head_set elem_set first_of next_of
  for holds :: "'m \<Rightarrow> lists \<Rightarrow> bool" and exec offers head_set elem_set first_of next_of +
  fixes last_of :: "'m \<Rightarrow> nat \<Rightarrow> ptr option"
    and prev_of :: "'m \<Rightarrow> ptr \<Rightarrow> ptr option"
  assumes last_law: "holds m Q \<Longrightarrow> Q h = Some xs \<Longrightarrow> last_of m h = Some (first_ptr (rev xs))"
    and prev_law: "holds m Q \<Longrightarrow> Q h = Some xs \<Longrightarrow> visits (prev_of m) (rev xs)"
begin

lemma reverse_collects:
  assumes "holds m Q" and "Q h = Some (us @ ws)"
  shows "for_each (\<lambda>s. prev_of (fst s)) collect (first_ptr (rev us)) (m, []) = Some (m, rev us)"
    and "for_each_safe (\<lambda>s. prev_of (fst s)) collect (first_ptr (rev us)) (m, []) = Some (m, rev us)"
  using visits_collect [of prev_of m "rev us" "[]"] prev_law [OF assms] by (auto dest: visits_suffix)

end

end
