(* ===== verification/Stailq.thy ===== *)
theory Stailq
  imports Queue_Interface
begin

text \<open>
  The singly linked tail queue of \<open>server/queue.h\<close> (the \<open>STAILQ\<close> macros): a head holds the first
  element and the address of the last link. The memory has the heads and the entry fields of the
  elements; the other fields of an element are not touched by the macros. \<open>None\<close> is a null or
  dangling pointer that is followed, or a search that does not end.
\<close>

section \<open>Heads and elements\<close>

record stailq_head =
  stqh_first :: ptr
  stqh_last :: link

record stailq_entry =
  stqe_next :: ptr

record stailq_mem =
  stq_heads :: "nat \<rightharpoonup> stailq_head"
  stq_elems :: "addr \<rightharpoonup> stailq_entry"

definition STAILQ_HEAD_INITIALIZER :: "nat \<Rightarrow> stailq_head" where
  "STAILQ_HEAD_INITIALIZER head = \<lparr>stqh_first = NULL, stqh_last = At_head head\<rparr>"

text \<open>Reading and writing a link and the tail pointer of a head.\<close>

fun stq_get :: "stailq_mem \<Rightarrow> link \<Rightarrow> ptr option" where
  "stq_get m (At_head h) = map_option stqh_first (stq_heads m h)"
| "stq_get m (At_elem a) = map_option stqe_next (stq_elems m a)"

fun stq_upd :: "link \<Rightarrow> ptr \<Rightarrow> stailq_mem \<Rightarrow> stailq_mem" where
  "stq_upd (At_head h) p m =
     m\<lparr>stq_heads := (stq_heads m)(h := map_option (stqh_first_update (\<lambda>_. p)) (stq_heads m h))\<rparr>"
| "stq_upd (At_elem a) p m =
     m\<lparr>stq_elems := (stq_elems m)(a := map_option (stqe_next_update (\<lambda>_. p)) (stq_elems m a))\<rparr>"

definition stq_put :: "link \<Rightarrow> ptr \<Rightarrow> stailq_mem \<Rightarrow> stailq_mem option" where
  "stq_put l p m = (if stq_get m l = None then None else Some (stq_upd l p m))"

definition stq_last :: "stailq_mem \<Rightarrow> nat \<Rightarrow> link option" where
  "stq_last m h = map_option stqh_last (stq_heads m h)"

definition stq_set_last :: "nat \<Rightarrow> link \<Rightarrow> stailq_mem \<Rightarrow> stailq_mem option" where
  "stq_set_last h l m =
     do { hd \<leftarrow> stq_heads m h; Some (m\<lparr>stq_heads := (stq_heads m)(h \<mapsto> hd\<lparr>stqh_last := l\<rparr>)\<rparr>) }"

section \<open>The macros\<close>

definition STAILQ_EMPTY :: "stailq_mem \<Rightarrow> nat \<Rightarrow> bool option" where
  "STAILQ_EMPTY m head = do { p \<leftarrow> stq_get m (At_head head); Some (p = NULL) }"

definition STAILQ_FIRST :: "stailq_mem \<Rightarrow> nat \<Rightarrow> ptr option" where
  "STAILQ_FIRST m head = stq_get m (At_head head)"

definition STAILQ_NEXT :: "stailq_mem \<Rightarrow> ptr \<Rightarrow> ptr option" where
  "STAILQ_NEXT m elm = follow (stq_get m) elm"

definition STAILQ_INIT :: "nat \<Rightarrow> stailq_mem \<Rightarrow> stailq_mem option" where
  "STAILQ_INIT head m = do { m \<leftarrow> stq_put (At_head head) NULL m; stq_set_last head (At_head head) m }"

definition STAILQ_CONCAT :: "nat \<Rightarrow> nat \<Rightarrow> stailq_mem \<Rightarrow> stailq_mem option" where
  "STAILQ_CONCAT head1 head2 m =
     do { empty \<leftarrow> STAILQ_EMPTY m head2;
          if \<not> empty
          then do { l \<leftarrow> stq_last m head1;
                    p \<leftarrow> STAILQ_FIRST m head2;
                    m \<leftarrow> stq_put l p m;
                    l2 \<leftarrow> stq_last m head2;
                    m \<leftarrow> stq_set_last head1 l2 m;
                    STAILQ_INIT head2 m }
          else Some m }"

definition STAILQ_INSERT_AFTER :: "nat \<Rightarrow> ptr \<Rightarrow> ptr \<Rightarrow> stailq_mem \<Rightarrow> stailq_mem option" where
  "STAILQ_INSERT_AFTER head tqelm elm m =
     do { e \<leftarrow> elm;
          t \<leftarrow> tqelm;
          n \<leftarrow> STAILQ_NEXT m tqelm;
          m \<leftarrow> stq_put (At_elem e) n m;
          m \<leftarrow> (if n = NULL then stq_set_last head (At_elem e) m else Some m);
          stq_put (At_elem t) elm m }"

definition STAILQ_INSERT_HEAD :: "nat \<Rightarrow> ptr \<Rightarrow> stailq_mem \<Rightarrow> stailq_mem option" where
  "STAILQ_INSERT_HEAD head elm m =
     do { e \<leftarrow> elm;
          n \<leftarrow> STAILQ_FIRST m head;
          m \<leftarrow> stq_put (At_elem e) n m;
          m \<leftarrow> (if n = NULL then stq_set_last head (At_elem e) m else Some m);
          stq_put (At_head head) elm m }"

definition STAILQ_INSERT_TAIL :: "nat \<Rightarrow> ptr \<Rightarrow> stailq_mem \<Rightarrow> stailq_mem option" where
  "STAILQ_INSERT_TAIL head elm m =
     do { e \<leftarrow> elm;
          m \<leftarrow> stq_put (At_elem e) NULL m;
          l \<leftarrow> stq_last m head;
          m \<leftarrow> stq_put l elm m;
          stq_set_last head (At_elem e) m }"

text \<open>
  The element whose next field the tail pointer addresses; \<open>__containerof\<close> on the field of a head
  would not be an element.
\<close>

definition STAILQ_LAST :: "stailq_mem \<Rightarrow> nat \<Rightarrow> ptr option" where
  "STAILQ_LAST m head =
     do { empty \<leftarrow> STAILQ_EMPTY m head;
          if empty then Some NULL
          else do { l \<leftarrow> stq_last m head;
                    (case l of At_elem a \<Rightarrow> Some (Some a) | At_head _ \<Rightarrow> None) } }"

definition STAILQ_REMOVE_HEAD :: "nat \<Rightarrow> stailq_mem \<Rightarrow> stailq_mem option" where
  "STAILQ_REMOVE_HEAD head m =
     do { f \<leftarrow> STAILQ_FIRST m head;
          n \<leftarrow> STAILQ_NEXT m f;
          m \<leftarrow> stq_put (At_head head) n m;
          if n = NULL then stq_set_last head (At_head head) m else Some m }"

definition STAILQ_REMOVE_AFTER :: "nat \<Rightarrow> ptr \<Rightarrow> stailq_mem \<Rightarrow> stailq_mem option" where
  "STAILQ_REMOVE_AFTER head elm m =
     do { e \<leftarrow> elm;
          n \<leftarrow> STAILQ_NEXT m elm;
          nn \<leftarrow> STAILQ_NEXT m n;
          m \<leftarrow> stq_put (At_elem e) nn m;
          if nn = NULL then stq_set_last head (At_elem e) m else Some m }"

definition STAILQ_REMOVE :: "nat \<Rightarrow> ptr \<Rightarrow> stailq_mem \<Rightarrow> stailq_mem option" where
  "STAILQ_REMOVE head elm m =
     do { f \<leftarrow> STAILQ_FIRST m head;
          if f = elm then STAILQ_REMOVE_HEAD head m
          else do { curelm \<leftarrow> walk_until (STAILQ_NEXT m) elm f; STAILQ_REMOVE_AFTER head curelm m } }"

definition STAILQ_SWAP :: "nat \<Rightarrow> nat \<Rightarrow> stailq_mem \<Rightarrow> stailq_mem option" where
  "STAILQ_SWAP head1 head2 m =
     do { swap_first \<leftarrow> STAILQ_FIRST m head1;
          swap_last \<leftarrow> stq_last m head1;
          f2 \<leftarrow> STAILQ_FIRST m head2;
          m \<leftarrow> stq_put (At_head head1) f2 m;
          l2 \<leftarrow> stq_last m head2;
          m \<leftarrow> stq_set_last head1 l2 m;
          m \<leftarrow> stq_put (At_head head2) swap_first m;
          m \<leftarrow> stq_set_last head2 swap_last m;
          e1 \<leftarrow> STAILQ_EMPTY m head1;
          m \<leftarrow> (if e1 then stq_set_last head1 (At_head head1) m else Some m);
          e2 \<leftarrow> STAILQ_EMPTY m head2;
          if e2 then stq_set_last head2 (At_head head2) m else Some m }"

text \<open>The iterations; \<open>get\<close> is the memory in the state the body works on.\<close>

definition STAILQ_FOREACH ::
    "('s \<Rightarrow> stailq_mem) \<Rightarrow> nat \<Rightarrow> (addr \<Rightarrow> 's \<Rightarrow> 's option) \<Rightarrow> 's \<Rightarrow> 's option" where
  "STAILQ_FOREACH get head body s =
     do { var \<leftarrow> STAILQ_FIRST (get s) head; for_each (\<lambda>s. STAILQ_NEXT (get s)) body var s }"

definition STAILQ_FOREACH_FROM ::
    "('s \<Rightarrow> stailq_mem) \<Rightarrow> ptr \<Rightarrow> nat \<Rightarrow> (addr \<Rightarrow> 's \<Rightarrow> 's option) \<Rightarrow> 's \<Rightarrow> 's option" where
  "STAILQ_FOREACH_FROM get var head body s =
     do { var \<leftarrow> (if var \<noteq> NULL then Some var else STAILQ_FIRST (get s) head);
          for_each (\<lambda>s. STAILQ_NEXT (get s)) body var s }"

definition STAILQ_FOREACH_SAFE ::
    "('s \<Rightarrow> stailq_mem) \<Rightarrow> nat \<Rightarrow> (addr \<Rightarrow> 's \<Rightarrow> 's option) \<Rightarrow> 's \<Rightarrow> 's option" where
  "STAILQ_FOREACH_SAFE get head body s =
     do { var \<leftarrow> STAILQ_FIRST (get s) head; for_each_safe (\<lambda>s. STAILQ_NEXT (get s)) body var s }"

definition STAILQ_FOREACH_FROM_SAFE ::
    "('s \<Rightarrow> stailq_mem) \<Rightarrow> ptr \<Rightarrow> nat \<Rightarrow> (addr \<Rightarrow> 's \<Rightarrow> 's option) \<Rightarrow> 's \<Rightarrow> 's option" where
  "STAILQ_FOREACH_FROM_SAFE get var head body s =
     do { var \<leftarrow> (if var \<noteq> NULL then Some var else STAILQ_FIRST (get s) head);
          for_each_safe (\<lambda>s. STAILQ_NEXT (get s)) body var s }"

section \<open>The views\<close>

lemma stq_get_upd [simp]:
  "stq_get m l = Some q \<Longrightarrow> stq_get (stq_upd l p m) = (stq_get m)(l \<mapsto> p)"
proof
  fix k
  assume "stq_get m l = Some q"
  then show "stq_get (stq_upd l p m) k = ((stq_get m)(l \<mapsto> p)) k" by (cases l; cases k) auto
qed

lemma stq_last_upd [simp]: "stq_last (stq_upd l p m) = stq_last m"
  by (cases l) (auto simp: stq_last_def fun_eq_iff option.map_comp comp_def)

lemma stq_put_Some [simp]: "stq_get m l = Some q \<Longrightarrow> stq_put l p m = Some (stq_upd l p m)"
  by (simp add: stq_put_def)

definition stq_upd_last :: "nat \<Rightarrow> link \<Rightarrow> stailq_mem \<Rightarrow> stailq_mem" where
  "stq_upd_last h l m =
     m\<lparr>stq_heads := (stq_heads m)(h := map_option (stqh_last_update (\<lambda>_. l)) (stq_heads m h))\<rparr>"

lemma stq_set_last_Some [simp]: "stq_last m h = Some k \<Longrightarrow> stq_set_last h l m = Some (stq_upd_last h l m)"
  by (auto simp: stq_set_last_def stq_last_def stq_upd_last_def)

lemma stq_get_upd_last [simp]: "stq_get (stq_upd_last h l m) = stq_get m"
proof
  fix k
  show "stq_get (stq_upd_last h l m) k = stq_get m k"
    by (cases k) (auto simp: stq_upd_last_def option.map_comp comp_def)
qed

lemma stq_last_upd_last [simp]: "stq_last m h = Some k \<Longrightarrow> stq_last (stq_upd_last h l m) = (stq_last m)(h \<mapsto> l)"
  by (auto simp: stq_upd_last_def stq_last_def fun_eq_iff)

lemma STAILQ_NEXT_follow: "STAILQ_NEXT m = follow (stq_get m)"
  by (simp add: fun_eq_iff STAILQ_NEXT_def)

definition stailq :: "stailq_mem \<Rightarrow> lists \<Rightarrow> bool" where
  "stailq m Q \<longleftrightarrow> links (stq_get m) Q \<and> tails (stq_last m) Q"

definition stq_head_set :: "stailq_mem \<Rightarrow> nat set" where
  "stq_head_set m = dom (stq_last m)"

definition stq_elem_set :: "stailq_mem \<Rightarrow> addr set" where
  "stq_elem_set m = {a. At_elem a \<in> dom (stq_get m)}"

text \<open>What a memory that holds the lists \<open>Q\<close> gives for one of them.\<close>

lemma stailq_read:
  assumes "stailq m Q" and "Q h = Some xs"
  shows "stq_get m (At_head h) = Some (first_ptr xs)" and "stq_last m h = Some (end_link (At_head h) xs)"
    and "stq_get m (end_link (At_head h) xs) = Some NULL" and "distinct xs"
    and "visits (STAILQ_NEXT m) xs" and "linked (stq_get m) (At_head h) xs" and "separate Q"
proof -
  show l: "linked (stq_get m) (At_head h) xs" using assms by (auto simp: stailq_def linksD)
  show "stq_last m h = Some (end_link (At_head h) xs)" using assms by (auto simp: stailq_def tailsD)
  show "stq_get m (At_head h) = Some (first_ptr xs)" "distinct xs" "visits (STAILQ_NEXT m) xs"
    "stq_get m (end_link (At_head h) xs) = Some NULL"
    using linked_read [OF l] linked_distinct [OF l] linked_visits [OF l] l
    by (simp_all add: STAILQ_NEXT_follow linked_chained)
  show "separate Q" using assms by (simp add: stailq_def links_def)
qed

declare stq_get.simps [simp del] stq_upd.simps [simp del]

lemmas stq_simps = STAILQ_FIRST_def STAILQ_EMPTY_def STAILQ_NEXT_follow follow_def

text \<open>A macro that ran and left the lists \<open>Q\<close>, with the same heads and elements as before.\<close>

definition stq_ok :: "stailq_mem \<Rightarrow> lists \<Rightarrow> stailq_mem option \<Rightarrow> bool" where
  "stq_ok m Q r \<longleftrightarrow> (\<exists>m'. r = Some m' \<and> stailq m' Q \<and>
     stq_head_set m' = stq_head_set m \<and> stq_elem_set m' = stq_elem_set m)"

lemma stq_okI:
  assumes "r = Some m'" and "links (stq_get m') Q" and "tails (stq_last m') Q"
    and "dom (stq_last m') = dom (stq_last m)" and "dom (stq_get m') = dom (stq_get m)"
  shows "stq_ok m Q r"
  using assms by (simp add: stq_ok_def stailq_def stq_head_set_def stq_elem_set_def)

section \<open>The effect of each macro on the lists\<close>

lemma STAILQ_INIT_lists:
  assumes Q: "stailq m Q" and h: "h \<in> stq_head_set m"
  shows "stq_ok m (Q(h \<mapsto> [])) (STAILQ_INIT h m)"
proof -
  obtain l f where l: "stq_last m h = Some l" "stq_get m (At_head h) = Some f"
    using h by (auto simp: stq_head_set_def stq_last_def stq_get.simps)
  let ?m = "stq_upd_last h (At_head h) (stq_upd (At_head h) NULL m)"
  have "STAILQ_INIT h m = Some ?m" using l by (simp add: STAILQ_INIT_def)
  then show ?thesis by (rule stq_okI) (use Q l in \<open>auto simp: stailq_def links_init tails_init\<close>)
qed

lemma STAILQ_INSERT_TAIL_lists:
  assumes Q: "stailq m Q" and h: "Q h = Some xs" and a: "a \<in> stq_elem_set m" "a \<notin> members Q"
  shows "stq_ok m (Q(h \<mapsto> xs @ [a])) (STAILQ_INSERT_TAIL h (Some a) m)"
proof -
  note r = stailq_read [OF Q h]
  let ?l = "end_link (At_head h) xs"
  have la: "?l \<noteq> At_elem a" using a(2) membersI [of Q h xs a] h end_link_head_elem [of h xs a] by auto
  obtain n where n: "stq_get m (At_elem a) = Some n" using a(1) by (auto simp: stq_elem_set_def)
  let ?m = "stq_upd_last h (At_elem a) (stq_upd ?l (Some a) (stq_upd (At_elem a) NULL m))"
  show ?thesis
  proof (rule stq_okI [of _ ?m])
    show "STAILQ_INSERT_TAIL h (Some a) m = Some ?m" using n r la by (simp add: STAILQ_INSERT_TAIL_def)
    show "links (stq_get ?m) (Q(h \<mapsto> xs @ [a]))"
      using Q h a n r la links_insert [of "stq_get m" Q h xs "[]" a] by (simp add: stailq_def)
    show "tails (stq_last ?m) (Q(h \<mapsto> xs @ [a]))"
      using Q r by (intro tails_update [of "stq_last m"]) (auto simp: stailq_def)
  qed (use n r la in auto)
qed

text \<open>Both insertions after a link: the first link of the head, or that of an element.\<close>

lemma stq_insert_ok:
  assumes Q: "stailq m Q" and h: "Q h = Some (us @ ws)" and a: "a \<in> stq_elem_set m" "a \<notin> members Q"
    and m': "r = Some (stq_upd (end_link (At_head h) us) (Some a)
        (if ws = [] then stq_upd_last h (At_elem a) (stq_upd (At_elem a) NULL m)
         else stq_upd (At_elem a) (first_ptr ws) m))"
  shows "stq_ok m (Q(h \<mapsto> us @ a # ws)) r"
proof -
  note r = stailq_read [OF Q h]
  let ?l = "end_link (At_head h) us"
  have la: "?l \<noteq> At_elem a" using a(2) membersI [of Q h _ a] h end_link_head_elem [of h us a] by auto
  obtain n where n: "stq_get m (At_elem a) = Some n" using a(1) by (auto simp: stq_elem_set_def)
  have l: "stq_get m ?l = Some (first_ptr ws)" using r(6) by (auto dest: linked_read)
  have links: "links ((stq_get m)(At_elem a \<mapsto> first_ptr ws, ?l \<mapsto> Some a)) (Q(h \<mapsto> us @ a # ws))"
    using Q h a by (intro links_insert) (auto simp: stailq_def)
  show ?thesis
  proof (rule stq_okI [OF m'], goal_cases)
    case 1
    then show ?case using links n l la r by (cases ws) auto
  next
    case 2
    have "tails (stq_last m) Q" using Q by (simp add: stailq_def)
    then show ?case using tails_insert [of "stq_last m" Q h us ws a] h n l la r by (cases ws) auto
  qed (use n l la r in \<open>cases ws; auto\<close>)+
qed

lemma STAILQ_INSERT_HEAD_lists:
  assumes Q: "stailq m Q" and h: "Q h = Some xs" and a: "a \<in> stq_elem_set m" "a \<notin> members Q"
  shows "stq_ok m (Q(h \<mapsto> a # xs)) (STAILQ_INSERT_HEAD h (Some a) m)"
proof -
  obtain n where n: "stq_get m (At_elem a) = Some n" using a(1) by (auto simp: stq_elem_set_def)
  show ?thesis
    by (rule stq_insert_ok [of m Q h "[]" xs, simplified])
      (use Q h a n stailq_read [OF Q h] in \<open>auto simp: STAILQ_INSERT_HEAD_def stq_simps split: list.splits\<close>)
qed

lemma STAILQ_INSERT_AFTER_lists:
  assumes Q: "stailq m Q" and h: "Q h = Some (us @ b # ws)" and a: "a \<in> stq_elem_set m" "a \<notin> members Q"
  shows "stq_ok m (Q(h \<mapsto> us @ b # a # ws)) (STAILQ_INSERT_AFTER h (Some b) (Some a) m)"
proof -
  obtain n where n: "stq_get m (At_elem a) = Some n" using a(1) by (auto simp: stq_elem_set_def)
  have ab: "a \<noteq> b" using a(2) membersI [of Q h _ b] h by auto
  have b: "stq_get m (At_elem b) = Some (first_ptr ws)"
    using stailq_read(6) [OF Q h] by (auto dest: linked_read)
  show ?thesis
    by (rule stq_insert_ok [of m Q h "us @ [b]" ws, simplified])
      (use Q h a n ab b stailq_read [OF Q h] in \<open>auto simp: STAILQ_INSERT_AFTER_def stq_simps split: list.splits\<close>)
qed

text \<open>Both removals after a link.\<close>

lemma stq_remove_ok:
  assumes Q: "stailq m Q" and h: "Q h = Some (us @ a # ws)"
    and m': "r = Some (if ws = [] then stq_upd_last h (end_link (At_head h) us) (stq_upd (end_link (At_head h) us) NULL m)
         else stq_upd (end_link (At_head h) us) (first_ptr ws) m)"
  shows "stq_ok m (Q(h \<mapsto> us @ ws)) r"
proof -
  note r = stailq_read [OF Q h]
  let ?l = "end_link (At_head h) us"
  have l: "stq_get m ?l = Some (Some a)" using r(6) by auto
  have links: "links ((stq_get m)(?l \<mapsto> first_ptr ws)) (Q(h \<mapsto> us @ ws))"
    using Q h by (intro links_remove) (auto simp: stailq_def)
  show ?thesis
  proof (rule stq_okI [OF m'], goal_cases)
    case 1
    then show ?case using links l r by (cases ws) auto
  next
    case 2
    have "tails (stq_last m) Q" using Q by (simp add: stailq_def)
    then show ?case using tails_remove [of "stq_last m" Q h us a ws] h l r by (cases ws) auto
  qed (use l r in \<open>cases ws; auto\<close>)+
qed

lemma STAILQ_REMOVE_HEAD_lists:
  assumes Q: "stailq m Q" and h: "Q h = Some (a # ws)"
  shows "stq_ok m (Q(h \<mapsto> ws)) (STAILQ_REMOVE_HEAD h m)"
proof -
  have "stq_get m (At_elem a) = Some (first_ptr ws)"
    using stailq_read(6) [OF Q h] by (auto dest: linked_read)
  then show ?thesis
    by (intro stq_remove_ok [of m Q h "[]" a ws, simplified])
      (use Q h stailq_read [OF Q h] in \<open>auto simp: STAILQ_REMOVE_HEAD_def stq_simps split: list.splits\<close>)
qed

lemma STAILQ_REMOVE_AFTER_lists:
  assumes Q: "stailq m Q" and h: "Q h = Some (us @ b # a # ws)"
  shows "stq_ok m (Q(h \<mapsto> us @ b # ws)) (STAILQ_REMOVE_AFTER h (Some b) m)"
proof -
  have "stq_get m (At_elem b) = Some (Some a)" "stq_get m (At_elem a) = Some (first_ptr ws)"
    using stailq_read(6) [OF Q h] by (auto dest: linked_read)
  then show ?thesis
    by (intro stq_remove_ok [of m Q h "us @ [b]" a ws, simplified])
      (use Q h stailq_read [OF Q h] in \<open>auto simp: STAILQ_REMOVE_AFTER_def stq_simps split: list.splits\<close>)
qed

lemma STAILQ_REMOVE_lists:
  assumes Q: "stailq m Q" and h: "Q h = Some (us @ a # ws)"
  shows "stq_ok m (Q(h \<mapsto> us @ ws)) (STAILQ_REMOVE h (Some a) m)"
proof (cases us rule: rev_cases)
  case Nil
  then show ?thesis using STAILQ_REMOVE_HEAD_lists [of m Q h a ws] Q h stailq_read(1) [OF Q h]
    by (simp add: STAILQ_REMOVE_def stq_simps)
next
  case (snoc vs b)
  note r = stailq_read [OF Q h]
  have "walk_until (STAILQ_NEXT m) (first_ptr (a # ws)) (first_ptr (vs @ [b])) = Some (Some b)"
    by (rule walk_until_visits) (use r snoc in auto)
  moreover have "stq_get m (At_head h) = Some (first_ptr (vs @ [b]))" "first_ptr (vs @ [b]) \<noteq> Some a"
    using r snoc by (cases vs; auto)+
  ultimately have "STAILQ_REMOVE h (Some a) m = STAILQ_REMOVE_AFTER h (Some b) m"
    by (simp add: STAILQ_REMOVE_def STAILQ_FIRST_def)
  then show ?thesis using STAILQ_REMOVE_AFTER_lists [of m Q h vs b a ws] Q h snoc by simp
qed

lemma STAILQ_CONCAT_lists:
  assumes Q: "stailq m Q" and hk: "h \<noteq> k" and h: "Q h = Some xs" and k: "Q k = Some ys"
  shows "stq_ok m (Q(h \<mapsto> xs @ ys, k \<mapsto> [])) (STAILQ_CONCAT h k m)"
proof (cases ys)
  case Nil
  have "Q(h \<mapsto> xs @ ys, k \<mapsto> []) = Q" using h k Nil by auto
  then show ?thesis using Q stailq_read [OF Q k] Nil
    by (auto simp: stq_ok_def STAILQ_CONCAT_def stq_simps)
next
  case (Cons y zs)
  note rh = stailq_read [OF Q h] and rk = stailq_read [OF Q k]
  let ?l = "end_link (At_head h) xs" and ?l2 = "end_link (At_head k) ys"
  let ?m = "stq_upd_last k (At_head k) (stq_upd (At_head k) NULL (stq_upd_last h ?l2 (stq_upd ?l (first_ptr ys) m)))"
  show ?thesis
  proof (rule stq_okI [of _ ?m])
    show "STAILQ_CONCAT h k m = Some ?m"
      using rh rk hk Cons by (simp add: STAILQ_CONCAT_def STAILQ_INIT_def stq_simps)
    show "links (stq_get ?m) (Q(h \<mapsto> xs @ ys, k \<mapsto> []))"
      using links_concat [of "stq_get m" Q h k xs ys] Q rh rk hk h k by (simp add: stailq_def)
    show "tails (stq_last ?m) (Q(h \<mapsto> xs @ ys, k \<mapsto> []))"
      using tails_concat [of "stq_last m" Q h k xs ys] Q rh rk hk h k Cons by (simp add: stailq_def)
  qed (use rh rk hk in auto)
qed

lemma STAILQ_SWAP_lists:
  assumes Q: "stailq m Q" and hk: "h \<noteq> k" and h: "Q h = Some xs" and k: "Q k = Some ys"
  shows "stq_ok m (Q(h \<mapsto> ys, k \<mapsto> xs)) (STAILQ_SWAP h k m)"
proof -
  note rh = stailq_read [OF Q h] and rk = stailq_read [OF Q k]
  let ?m1 = "stq_upd_last k (end_link (At_head h) xs) (stq_upd (At_head k) (first_ptr xs)
      (stq_upd_last h (end_link (At_head k) ys) (stq_upd (At_head h) (first_ptr ys) m)))"
  let ?m2 = "if ys = [] then stq_upd_last h (At_head h) ?m1 else ?m1"
  let ?m = "if xs = [] then stq_upd_last k (At_head k) ?m2 else ?m2"
  show ?thesis
  proof (rule stq_okI [of _ ?m])
    show "STAILQ_SWAP h k m = Some ?m"
      using rh rk hk by (cases xs; cases ys) (simp_all add: STAILQ_SWAP_def stq_simps)
    show "links (stq_get ?m) (Q(h \<mapsto> ys, k \<mapsto> xs))"
      using links_swap [of "stq_get m" Q h k xs ys] Q rh rk hk h k by (auto simp: stailq_def)
    show "tails (stq_last ?m) (Q(h \<mapsto> ys, k \<mapsto> xs))"
      using Q rh rk hk h k by (intro tails_swap [of "stq_last m"]) (auto simp: stailq_def)
  qed (use rh rk hk in auto)
qed

section \<open>The family\<close>

text \<open>The operations of the table in the header of the file that are available for this family.\<close>

fun stailq_offers :: "queue_op \<Rightarrow> bool" where
  "stailq_offers (Q_insert_before _ _ _) = False"
| "stailq_offers _ = True"

fun stailq_op :: "queue_op \<Rightarrow> stailq_mem \<Rightarrow> stailq_mem option" where
  "stailq_op (Q_init h) m = STAILQ_INIT h m"
| "stailq_op (Q_insert_head h a) m = STAILQ_INSERT_HEAD h (Some a) m"
| "stailq_op (Q_insert_tail h a) m = STAILQ_INSERT_TAIL h (Some a) m"
| "stailq_op (Q_insert_after h b a) m = STAILQ_INSERT_AFTER h (Some b) (Some a) m"
| "stailq_op (Q_insert_before h b a) m = None"
| "stailq_op (Q_remove h a) m = STAILQ_REMOVE h (Some a) m"
| "stailq_op (Q_remove_head h) m = STAILQ_REMOVE_HEAD h m"
| "stailq_op (Q_remove_after h b) m = STAILQ_REMOVE_AFTER h (Some b) m"
| "stailq_op (Q_concat h k) m = STAILQ_CONCAT h k m"
| "stailq_op (Q_swap h k) m = STAILQ_SWAP h k m"

lemma stailq_op_ok:
  assumes "stailq m Q" and "stailq_offers op"
    and "spec_op (stq_head_set m) (stq_elem_set m) op Q = Some Q'"
  shows "stq_ok m Q' (stailq_op op m)"
proof (cases op)
  case (Q_remove h a)
  then obtain us ws where "Q h = Some (us @ a # ws)" "Q' = Q(h \<mapsto> us @ ws)"
    using assms(3) by (auto simp: bind_eq_Some_conv remove1_append split: if_splits elim!: splitE)
  with Q_remove STAILQ_REMOVE_lists [OF assms(1)] show ?thesis by simp
next
  case (Q_insert_after h b a)
  then obtain us ws where "Q h = Some (us @ b # ws)" "Q' = Q(h \<mapsto> us @ b # a # ws)"
      "a \<in> stq_elem_set m" "a \<notin> members Q"
    using assms(3) by (auto simp: bind_eq_Some_conv split: if_splits elim!: splitE)
  with Q_insert_after STAILQ_INSERT_AFTER_lists [OF assms(1)] show ?thesis by simp
next
  case (Q_remove_after h b)
  then obtain us c ws where "Q h = Some (us @ b # c # ws)" "Q' = Q(h \<mapsto> us @ b # ws)"
    using assms(3) by (auto simp: bind_eq_Some_conv split: if_splits elim!: split_butlastE)
  with Q_remove_after STAILQ_REMOVE_AFTER_lists [OF assms(1)] show ?thesis by simp
next
  case (Q_remove_head h)
  then obtain a ws where "Q h = Some (a # ws)" "Q' = Q(h \<mapsto> ws)"
    using assms(3) by (auto simp: bind_eq_Some_conv neq_Nil_conv split: if_splits)
  with Q_remove_head STAILQ_REMOVE_HEAD_lists [OF assms(1)] show ?thesis by simp
qed (use assms STAILQ_INIT_lists STAILQ_INSERT_HEAD_lists STAILQ_INSERT_TAIL_lists STAILQ_CONCAT_lists STAILQ_SWAP_lists
    in \<open>auto simp: bind_eq_Some_conv split: if_splits\<close>)

interpretation stq: queue_family stailq stailq_op stailq_offers stq_head_set stq_elem_set STAILQ_FIRST STAILQ_NEXT
proof
  show "\<exists>m'. stailq_op op m = Some m' \<and> stailq m' Q' \<and>
      stq_head_set m' = stq_head_set m \<and> stq_elem_set m' = stq_elem_set m"
    if "stailq m Q" "stailq_offers op" "spec_op (stq_head_set m) (stq_elem_set m) op Q = Some Q'" for m Q op Q'
    using stailq_op_ok [OF that] by (simp add: stq_ok_def)
qed (simp_all add: STAILQ_FIRST_def stailq_read)

lemma STAILQ_LAST_lists:
  assumes "stailq m Q" and "Q h = Some xs"
  shows "STAILQ_LAST m h = Some (if xs = [] then NULL else Some (last xs))"
  using stailq_read [OF assms] by (auto simp: STAILQ_LAST_def STAILQ_EMPTY_def end_link_def split: list.splits)

text \<open>The memory of heads and elements that are in no list yet.\<close>

definition stailq_start :: "nat list \<Rightarrow> addr list \<Rightarrow> stailq_mem" where
  "stailq_start hs as =
     \<lparr>stq_heads = (\<lambda>h. if h \<in> set hs then Some (STAILQ_HEAD_INITIALIZER h) else None),
      stq_elems = (\<lambda>a. if a \<in> set as then Some \<lparr>stqe_next = NULL\<rparr> else None)\<rparr>"

lemma stailq_start:
  "stailq (stailq_start hs as) (\<lambda>h. if h \<in> set hs then Some [] else None)"
  "stq_head_set (stailq_start hs as) = set hs" "stq_elem_set (stailq_start hs as) = set as"
  by (auto simp: stailq_def links_def tails_def separate_def stailq_start_def STAILQ_HEAD_INITIALIZER_def
      stq_get.simps stq_last_def stq_head_set_def stq_elem_set_def split: if_splits)

end
