(* ===== verification/Queue_List.thy ===== *)
theory Queue_List
  imports Queue_Interface
begin

text \<open>
  The doubly linked list of \<open>server/queue.h\<close> (the \<open>LIST\<close> macros): a head holds the first element;
  an element holds the next one and the address of the link that points to it. The macros take
  the build option as their first argument: whether the \<open>QMD_LIST_CHECK\<close> macros check the list.
  \<open>None\<close> is a null or dangling pointer that is followed, a search that does not end, or a panic.
\<close>

section \<open>Heads and elements\<close>

record list_head =
  lh_first :: ptr

record list_entry =
  le_next :: ptr
  le_prev :: link

record list_mem =
  lst_heads :: "nat \<rightharpoonup> list_head"
  lst_elems :: "addr \<rightharpoonup> list_entry"

definition LIST_HEAD_INITIALIZER :: list_head where
  "LIST_HEAD_INITIALIZER = \<lparr>lh_first = NULL\<rparr>"

text \<open>Reading and writing a link and the back pointer of an element.\<close>

fun lst_get :: "list_mem \<Rightarrow> link \<Rightarrow> ptr option" where
  "lst_get m (At_head h) = map_option lh_first (lst_heads m h)"
| "lst_get m (At_elem a) = map_option le_next (lst_elems m a)"

fun lst_upd :: "link \<Rightarrow> ptr \<Rightarrow> list_mem \<Rightarrow> list_mem" where
  "lst_upd (At_head h) p m =
     m\<lparr>lst_heads := (lst_heads m)(h := map_option (lh_first_update (\<lambda>_. p)) (lst_heads m h))\<rparr>"
| "lst_upd (At_elem a) p m =
     m\<lparr>lst_elems := (lst_elems m)(a := map_option (le_next_update (\<lambda>_. p)) (lst_elems m a))\<rparr>"

definition lst_put :: "link \<Rightarrow> ptr \<Rightarrow> list_mem \<Rightarrow> list_mem option" where
  "lst_put l p m = (if lst_get m l = None then None else Some (lst_upd l p m))"

definition lst_prev :: "list_mem \<Rightarrow> addr \<Rightarrow> link option" where
  "lst_prev m a = map_option le_prev (lst_elems m a)"

definition lst_upd_prev :: "addr \<Rightarrow> link \<Rightarrow> list_mem \<Rightarrow> list_mem" where
  "lst_upd_prev a l m =
     m\<lparr>lst_elems := (lst_elems m)(a := map_option (le_prev_update (\<lambda>_. l)) (lst_elems m a))\<rparr>"

definition lst_set_prev :: "ptr \<Rightarrow> link \<Rightarrow> list_mem \<Rightarrow> list_mem option" where
  "lst_set_prev p l m =
     do { a \<leftarrow> p; if lst_elems m a = None then None else Some (lst_upd_prev a l m) }"

section \<open>The macros\<close>

definition LIST_EMPTY :: "list_mem \<Rightarrow> nat \<Rightarrow> bool option" where
  "LIST_EMPTY m head = do { p \<leftarrow> lst_get m (At_head head); Some (p = NULL) }"

definition LIST_FIRST :: "list_mem \<Rightarrow> nat \<Rightarrow> ptr option" where
  "LIST_FIRST m head = lst_get m (At_head head)"

definition LIST_NEXT :: "list_mem \<Rightarrow> ptr \<Rightarrow> ptr option" where
  "LIST_NEXT m elm = follow (lst_get m) elm"

text \<open>The checks; \<open>Some False\<close> is the panic.\<close>

definition QMD_LIST_CHECK_HEAD :: "list_mem \<Rightarrow> nat \<Rightarrow> bool option" where
  "QMD_LIST_CHECK_HEAD m head =
     do { f \<leftarrow> LIST_FIRST m head;
          (case f of None \<Rightarrow> Some True
           | Some a \<Rightarrow> do { l \<leftarrow> lst_prev m a; Some (l = At_head head) }) }"

definition QMD_LIST_CHECK_NEXT :: "list_mem \<Rightarrow> ptr \<Rightarrow> bool option" where
  "QMD_LIST_CHECK_NEXT m elm =
     do { e \<leftarrow> elm;
          n \<leftarrow> LIST_NEXT m elm;
          (case n of None \<Rightarrow> Some True
           | Some a \<Rightarrow> do { l \<leftarrow> lst_prev m a; Some (l = At_elem e) }) }"

definition QMD_LIST_CHECK_PREV :: "list_mem \<Rightarrow> ptr \<Rightarrow> bool option" where
  "QMD_LIST_CHECK_PREV m elm =
     do { e \<leftarrow> elm; l \<leftarrow> lst_prev m e; p \<leftarrow> lst_get m l; Some (p = elm) }"

definition LIST_INIT :: "nat \<Rightarrow> list_mem \<Rightarrow> list_mem option" where
  "LIST_INIT head m = lst_put (At_head head) NULL m"

definition LIST_CONCAT :: "nat \<Rightarrow> nat \<Rightarrow> list_mem \<Rightarrow> list_mem option" where
  "LIST_CONCAT head1 head2 m =
     do { curelm \<leftarrow> LIST_FIRST m head1;
          f2 \<leftarrow> LIST_FIRST m head2;
          if curelm = NULL
          then do { m \<leftarrow> lst_put (At_head head1) f2 m;
                    if f2 \<noteq> NULL
                    then do { p \<leftarrow> LIST_FIRST m head2;
                              m \<leftarrow> lst_set_prev p (At_head head1) m;
                              LIST_INIT head2 m }
                    else Some m }
          else if f2 \<noteq> NULL
          then do { curelm \<leftarrow> walk_until (LIST_NEXT m) NULL curelm;
                    c \<leftarrow> curelm;
                    m \<leftarrow> lst_put (At_elem c) f2 m;
                    p \<leftarrow> LIST_FIRST m head2;
                    m \<leftarrow> lst_set_prev p (At_elem c) m;
                    LIST_INIT head2 m }
          else Some m }"

definition LIST_INSERT_AFTER :: "bool \<Rightarrow> ptr \<Rightarrow> ptr \<Rightarrow> list_mem \<Rightarrow> list_mem option" where
  "LIST_INSERT_AFTER invariants listelm elm m =
     do { qmd_check invariants (QMD_LIST_CHECK_NEXT m listelm);
          e \<leftarrow> elm;
          t \<leftarrow> listelm;
          n \<leftarrow> LIST_NEXT m listelm;
          m \<leftarrow> lst_put (At_elem e) n m;
          m \<leftarrow> (if n \<noteq> NULL
                 then do { q \<leftarrow> LIST_NEXT m listelm; lst_set_prev q (At_elem e) m } else Some m);
          m \<leftarrow> lst_put (At_elem t) elm m;
          lst_set_prev elm (At_elem t) m }"

definition LIST_INSERT_BEFORE :: "bool \<Rightarrow> ptr \<Rightarrow> ptr \<Rightarrow> list_mem \<Rightarrow> list_mem option" where
  "LIST_INSERT_BEFORE invariants listelm elm m =
     do { qmd_check invariants (QMD_LIST_CHECK_PREV m listelm);
          e \<leftarrow> elm;
          t \<leftarrow> listelm;
          l \<leftarrow> lst_prev m t;
          m \<leftarrow> lst_set_prev elm l m;
          m \<leftarrow> lst_put (At_elem e) listelm m;
          l \<leftarrow> lst_prev m t;
          m \<leftarrow> lst_put l elm m;
          lst_set_prev listelm (At_elem e) m }"

definition LIST_INSERT_HEAD :: "bool \<Rightarrow> nat \<Rightarrow> ptr \<Rightarrow> list_mem \<Rightarrow> list_mem option" where
  "LIST_INSERT_HEAD invariants head elm m =
     do { qmd_check invariants (QMD_LIST_CHECK_HEAD m head);
          e \<leftarrow> elm;
          n \<leftarrow> LIST_FIRST m head;
          m \<leftarrow> lst_put (At_elem e) n m;
          m \<leftarrow> (if n \<noteq> NULL
                 then do { f \<leftarrow> LIST_FIRST m head; lst_set_prev f (At_elem e) m } else Some m);
          m \<leftarrow> lst_put (At_head head) elm m;
          lst_set_prev elm (At_head head) m }"

text \<open>
  The element whose next field the back pointer addresses; \<open>__containerof\<close> on the field of another
  head would not be an element.
\<close>

definition LIST_PREV :: "list_mem \<Rightarrow> ptr \<Rightarrow> nat \<Rightarrow> ptr option" where
  "LIST_PREV m elm head =
     do { e \<leftarrow> elm;
          l \<leftarrow> lst_prev m e;
          if l = At_head head then Some NULL
          else (case l of At_elem a \<Rightarrow> Some (Some a) | At_head _ \<Rightarrow> None) }"

definition LIST_REMOVE :: "bool \<Rightarrow> ptr \<Rightarrow> list_mem \<Rightarrow> list_mem option" where
  "LIST_REMOVE invariants elm m =
     do { qmd_check invariants (QMD_LIST_CHECK_NEXT m elm);
          qmd_check invariants (QMD_LIST_CHECK_PREV m elm);
          e \<leftarrow> elm;
          n \<leftarrow> LIST_NEXT m elm;
          m \<leftarrow> (if n \<noteq> NULL then do { l \<leftarrow> lst_prev m e; lst_set_prev n l m } else Some m);
          l \<leftarrow> lst_prev m e;
          n \<leftarrow> LIST_NEXT m elm;
          lst_put l n m }"

definition LIST_SWAP :: "nat \<Rightarrow> nat \<Rightarrow> list_mem \<Rightarrow> list_mem option" where
  "LIST_SWAP head1 head2 m =
     do { swap_tmp \<leftarrow> LIST_FIRST m head1;
          f2 \<leftarrow> LIST_FIRST m head2;
          m \<leftarrow> lst_put (At_head head1) f2 m;
          m \<leftarrow> lst_put (At_head head2) swap_tmp m;
          swap_tmp \<leftarrow> LIST_FIRST m head1;
          m \<leftarrow> (if swap_tmp \<noteq> NULL then lst_set_prev swap_tmp (At_head head1) m else Some m);
          swap_tmp \<leftarrow> LIST_FIRST m head2;
          if swap_tmp \<noteq> NULL then lst_set_prev swap_tmp (At_head head2) m else Some m }"

text \<open>The iterations; \<open>get\<close> is the memory in the state the body works on.\<close>

definition LIST_FOREACH ::
    "('s \<Rightarrow> list_mem) \<Rightarrow> nat \<Rightarrow> (addr \<Rightarrow> 's \<Rightarrow> 's option) \<Rightarrow> 's \<Rightarrow> 's option" where
  "LIST_FOREACH get head body s =
     do { var \<leftarrow> LIST_FIRST (get s) head; for_each (\<lambda>s. LIST_NEXT (get s)) body var s }"

definition LIST_FOREACH_FROM ::
    "('s \<Rightarrow> list_mem) \<Rightarrow> ptr \<Rightarrow> nat \<Rightarrow> (addr \<Rightarrow> 's \<Rightarrow> 's option) \<Rightarrow> 's \<Rightarrow> 's option" where
  "LIST_FOREACH_FROM get var head body s =
     do { var \<leftarrow> (if var \<noteq> NULL then Some var else LIST_FIRST (get s) head);
          for_each (\<lambda>s. LIST_NEXT (get s)) body var s }"

definition LIST_FOREACH_SAFE ::
    "('s \<Rightarrow> list_mem) \<Rightarrow> nat \<Rightarrow> (addr \<Rightarrow> 's \<Rightarrow> 's option) \<Rightarrow> 's \<Rightarrow> 's option" where
  "LIST_FOREACH_SAFE get head body s =
     do { var \<leftarrow> LIST_FIRST (get s) head; for_each_safe (\<lambda>s. LIST_NEXT (get s)) body var s }"

definition LIST_FOREACH_FROM_SAFE ::
    "('s \<Rightarrow> list_mem) \<Rightarrow> ptr \<Rightarrow> nat \<Rightarrow> (addr \<Rightarrow> 's \<Rightarrow> 's option) \<Rightarrow> 's \<Rightarrow> 's option" where
  "LIST_FOREACH_FROM_SAFE get var head body s =
     do { var \<leftarrow> (if var \<noteq> NULL then Some var else LIST_FIRST (get s) head);
          for_each_safe (\<lambda>s. LIST_NEXT (get s)) body var s }"

section \<open>The views\<close>

lemma lst_get_upd [simp]: "lst_get m l = Some q \<Longrightarrow> lst_get (lst_upd l p m) = (lst_get m)(l \<mapsto> p)"
proof
  fix k
  assume "lst_get m l = Some q"
  then show "lst_get (lst_upd l p m) k = ((lst_get m)(l \<mapsto> p)) k" by (cases l; cases k) auto
qed

lemma lst_prev_upd [simp]: "lst_prev (lst_upd l p m) = lst_prev m"
  by (cases l) (auto simp: lst_prev_def fun_eq_iff option.map_comp comp_def)

lemma lst_put_Some [simp]: "lst_get m l = Some q \<Longrightarrow> lst_put l p m = Some (lst_upd l p m)"
  by (simp add: lst_put_def)

lemma lst_set_prev_Some [simp]:
  "lst_prev m a = Some k \<Longrightarrow> lst_set_prev (Some a) l m = Some (lst_upd_prev a l m)"
  by (auto simp: lst_set_prev_def lst_prev_def)

lemma lst_get_upd_prev [simp]: "lst_get (lst_upd_prev a l m) = lst_get m"
proof
  fix k
  show "lst_get (lst_upd_prev a l m) k = lst_get m k"
    by (cases k) (auto simp: lst_upd_prev_def option.map_comp comp_def)
qed

lemma lst_prev_upd_prev [simp]:
  "lst_prev m a = Some k \<Longrightarrow> lst_prev (lst_upd_prev a l m) = (lst_prev m)(a \<mapsto> l)"
  by (auto simp: lst_upd_prev_def lst_prev_def fun_eq_iff)

lemma lst_prev_defined: "lst_get m (At_elem a) = Some q \<Longrightarrow> \<exists>l. lst_prev m a = Some l"
  by (auto simp: lst_prev_def)

lemma LIST_NEXT_follow: "LIST_NEXT m = follow (lst_get m)"
  by (simp add: fun_eq_iff LIST_NEXT_def)

declare lst_get.simps [simp del] lst_upd.simps [simp del]

lemmas lst_simps = LIST_FIRST_def LIST_EMPTY_def LIST_NEXT_follow follow_def
  QMD_LIST_CHECK_HEAD_def QMD_LIST_CHECK_NEXT_def QMD_LIST_CHECK_PREV_def

definition listq :: "list_mem \<Rightarrow> lists \<Rightarrow> bool" where
  "listq m Q \<longleftrightarrow> links (lst_get m) Q \<and> backs (lst_prev m) Q"

definition lst_head_set :: "list_mem \<Rightarrow> nat set" where
  "lst_head_set m = {h. At_head h \<in> dom (lst_get m)}"

definition lst_elem_set :: "list_mem \<Rightarrow> addr set" where
  "lst_elem_set m = {a. At_elem a \<in> dom (lst_get m)}"

text \<open>What a memory that holds the lists \<open>Q\<close> gives for one of them.\<close>

lemma listq_read:
  assumes "listq m Q" and "Q h = Some xs"
  shows "lst_get m (At_head h) = Some (first_ptr xs)" and "lst_get m (end_link (At_head h) xs) = Some NULL"
    and "distinct xs" and "visits (LIST_NEXT m) xs" and "linked (lst_get m) (At_head h) xs"
    and "backed (lst_prev m) (At_head h) xs" and "separate Q"
proof -
  show l: "linked (lst_get m) (At_head h) xs" using assms by (auto simp: listq_def linksD)
  show "backed (lst_prev m) (At_head h) xs" using assms by (auto simp: listq_def backsD)
  show "lst_get m (At_head h) = Some (first_ptr xs)" "distinct xs" "visits (LIST_NEXT m) xs"
    "lst_get m (end_link (At_head h) xs) = Some NULL"
    using linked_read [OF l] linked_distinct [OF l] linked_visits [OF l] l
    by (simp_all add: LIST_NEXT_follow linked_chained)
  show "separate Q" using assms by (simp add: listq_def links_def)
qed

text \<open>A macro that ran and left the lists \<open>Q\<close>, with the same heads and elements as before.\<close>

definition lst_ok :: "list_mem \<Rightarrow> lists \<Rightarrow> list_mem option \<Rightarrow> bool" where
  "lst_ok m Q r \<longleftrightarrow> (\<exists>m'. r = Some m' \<and> listq m' Q \<and>
     lst_head_set m' = lst_head_set m \<and> lst_elem_set m' = lst_elem_set m)"

lemma lst_okI:
  assumes "r = Some m'" and "links (lst_get m') Q" and "backs (lst_prev m') Q"
    and "dom (lst_get m') = dom (lst_get m)"
  shows "lst_ok m Q r"
  using assms by (simp add: lst_ok_def listq_def lst_head_set_def lst_elem_set_def)

section \<open>The effect of each macro on the lists\<close>

lemma LIST_INIT_lists:
  assumes Q: "listq m Q" and h: "h \<in> lst_head_set m"
  shows "lst_ok m (Q(h \<mapsto> [])) (LIST_INIT h m)"
proof -
  obtain f where f: "lst_get m (At_head h) = Some f" using h by (auto simp: lst_head_set_def)
  then have "LIST_INIT h m = Some (lst_upd (At_head h) NULL m)" by (simp add: LIST_INIT_def)
  then show ?thesis by (rule lst_okI) (use Q f in \<open>auto simp: listq_def links_init backs_init\<close>)
qed

text \<open>An element linked in at the link after \<open>us\<close>: the back pointers of it and of its successor.\<close>

lemma lst_insert_ok:
  assumes Q: "listq m Q" and h: "Q h = Some (us @ ws)" and a: "a \<in> lst_elem_set m" "a \<notin> members Q"
    and m': "r = Some m'"
    and g: "lst_get m' = (lst_get m)(At_elem a \<mapsto> first_ptr ws, end_link (At_head h) us \<mapsto> Some a)"
    and p: "lst_prev m' = (case ws of [] \<Rightarrow> lst_prev m | b # _ \<Rightarrow> (lst_prev m)(b \<mapsto> At_elem a))
        (a \<mapsto> end_link (At_head h) us)"
  shows "lst_ok m (Q(h \<mapsto> us @ a # ws)) r"
proof (rule lst_okI [OF m'])
  note r = listq_read [OF Q h]
  have au: "a \<notin> set (us @ ws)" using a(2) membersI [of Q h "us @ ws" a] h by blast
  have l: "lst_get m (end_link (At_head h) us) = Some (first_ptr ws)" using r(5) by (auto dest: linked_read)
  show "links (lst_get m') (Q(h \<mapsto> us @ a # ws))"
    unfolding g using Q h a by (intro links_insert) (auto simp: listq_def)
  show "backs (lst_prev m') (Q(h \<mapsto> us @ a # ws))"
    unfolding p by (rule backs_insert [of "lst_prev m" Q h us ws a])
      (use Q h a r(3,7) au in \<open>cases ws; auto simp: listq_def\<close>)+
  show "dom (lst_get m') = dom (lst_get m)"
    unfolding g using l a(1) by (auto simp: lst_elem_set_def)
qed

lemma lst_insert_facts:
  assumes "listq m Q" and "Q h = Some (us @ ws)" and "a \<in> lst_elem_set m" "a \<notin> members Q"
  shows "\<exists>n. lst_get m (At_elem a) = Some n" and "\<exists>l. lst_prev m a = Some l"
    and "a \<notin> set (us @ ws)" and "end_link (At_head h) us \<noteq> At_elem a"
    and "lst_get m (end_link (At_head h) us) = Some (first_ptr ws)"
proof -
  show n: "\<exists>n. lst_get m (At_elem a) = Some n" using assms(3) by (auto simp: lst_elem_set_def)
  then show "\<exists>l. lst_prev m a = Some l" using lst_prev_defined by blast
  show a: "a \<notin> set (us @ ws)" using assms(4) membersI [of Q h "us @ ws" a] assms(2) by blast
  then show "end_link (At_head h) us \<noteq> At_elem a" using end_link_head_elem [of h us a] by auto
  show "lst_get m (end_link (At_head h) us) = Some (first_ptr ws)"
    using listq_read(5) [OF assms(1,2)] by (auto dest: linked_read)
qed

lemma LIST_INSERT_HEAD_lists:
  assumes Q: "listq m Q" and h: "Q h = Some xs" and a: "a \<in> lst_elem_set m" "a \<notin> members Q"
  shows "lst_ok m (Q(h \<mapsto> a # xs)) (LIST_INSERT_HEAD K h (Some a) m)"
proof -
  note r = listq_read [OF Q h]
  obtain n l where n: "lst_get m (At_elem a) = Some n" "lst_prev m a = Some l"
    using lst_insert_facts [of m Q h "[]" xs a] Q h a by auto
  have ax: "a \<notin> set xs" using lst_insert_facts(3) [of m Q h "[]" xs a] Q h a by simp
  let ?m1 = "lst_upd (At_elem a) (first_ptr xs) m"
  let ?m2 = "case xs of [] \<Rightarrow> ?m1 | b # _ \<Rightarrow> lst_upd_prev b (At_elem a) ?m1"
  let ?m = "lst_upd_prev a (At_head h) (lst_upd (At_head h) (Some a) ?m2)"
  show ?thesis
  proof (rule lst_insert_ok [of m Q h "[]" xs a _ ?m, simplified])
    show "LIST_INSERT_HEAD K h (Some a) m = Some ?m"
      using r n ax by (cases xs) (auto simp: LIST_INSERT_HEAD_def lst_simps)
  qed (use Q h a r n ax in \<open>auto split: list.splits\<close>)
qed

lemma LIST_INSERT_AFTER_lists:
  assumes Q: "listq m Q" and h: "Q h = Some (us @ b # ws)" and a: "a \<in> lst_elem_set m" "a \<notin> members Q"
  shows "lst_ok m (Q(h \<mapsto> us @ b # a # ws)) (LIST_INSERT_AFTER K (Some b) (Some a) m)"
proof -
  note r = listq_read [OF Q h]
  have h': "Q h = Some ((us @ [b]) @ ws)" using h by simp
  note f = lst_insert_facts [OF Q h' a]
  obtain n l where n: "lst_get m (At_elem a) = Some n" "lst_prev m a = Some l" using f by auto
  let ?m1 = "lst_upd (At_elem a) (first_ptr ws) m"
  let ?m2 = "case ws of [] \<Rightarrow> ?m1 | c # _ \<Rightarrow> lst_upd_prev c (At_elem a) ?m1"
  let ?m = "lst_upd_prev a (At_elem b) (lst_upd (At_elem b) (Some a) ?m2)"
  show ?thesis
  proof (rule lst_insert_ok [of m Q h "us @ [b]" ws a _ ?m, simplified])
    show "LIST_INSERT_AFTER K (Some b) (Some a) m = Some ?m"
      using r n f by (cases ws) (auto simp: LIST_INSERT_AFTER_def lst_simps)
  qed (use Q h a r n f in \<open>auto split: list.splits\<close>)
qed

lemma LIST_INSERT_BEFORE_lists:
  assumes Q: "listq m Q" and h: "Q h = Some (us @ b # ws)" and a: "a \<in> lst_elem_set m" "a \<notin> members Q"
  shows "lst_ok m (Q(h \<mapsto> us @ a # b # ws)) (LIST_INSERT_BEFORE K (Some b) (Some a) m)"
proof -
  note r = listq_read [OF Q h]
  note f = lst_insert_facts [OF Q h a]
  let ?l = "end_link (At_head h) us"
  obtain n l where n: "lst_get m (At_elem a) = Some n" "lst_prev m a = Some l" using f by auto
  let ?m = "lst_upd_prev b (At_elem a) (lst_upd ?l (Some a) (lst_upd (At_elem a) (Some b) (lst_upd_prev a ?l m)))"
  show ?thesis
  proof (rule lst_insert_ok [of m Q h us "b # ws" a _ ?m])
    show "LIST_INSERT_BEFORE K (Some b) (Some a) m = Some ?m"
      using r n f by (auto simp: LIST_INSERT_BEFORE_def lst_simps)
  qed (use Q h a r n f in \<open>auto simp: fun_eq_iff\<close>)
qed

lemma LIST_REMOVE_lists:
  assumes Q: "listq m Q" and h: "Q h = Some (us @ a # ws)"
  shows "lst_ok m (Q(h \<mapsto> us @ ws)) (LIST_REMOVE K (Some a) m)"
proof -
  note r = listq_read [OF Q h]
  let ?l = "end_link (At_head h) us"
  have a: "lst_get m ?l = Some (Some a)" "lst_get m (At_elem a) = Some (first_ptr ws)" "lst_prev m a = Some ?l"
    using r by (auto dest: linked_read)
  let ?m1 = "case ws of [] \<Rightarrow> m | b # _ \<Rightarrow> lst_upd_prev b ?l m"
  let ?m = "lst_upd ?l (first_ptr ws) ?m1"
  have g: "lst_get ?m = (lst_get m)(?l \<mapsto> first_ptr ws)" using a by (cases ws) auto
  have p: "lst_prev ?m = (case ws of [] \<Rightarrow> lst_prev m | b # _ \<Rightarrow> (lst_prev m)(b \<mapsto> ?l))"
    using r by (cases ws) auto
  show ?thesis
  proof (rule lst_okI [of _ ?m])
    show "LIST_REMOVE K (Some a) m = Some ?m"
      using r a by (cases ws) (auto simp: LIST_REMOVE_def lst_simps)
    show "links (lst_get ?m) (Q(h \<mapsto> us @ ws))"
      unfolding g using Q h by (intro links_remove) (auto simp: listq_def)
    show "backs (lst_prev ?m) (Q(h \<mapsto> us @ ws))"
      unfolding p by (rule backs_remove [of "lst_prev m" Q h us a ws])
        (use Q h r(3,7) in \<open>cases ws; auto simp: listq_def\<close>)+
    show "dom (lst_get ?m) = dom (lst_get m)" unfolding g using a by auto
  qed
qed

lemma LIST_CONCAT_lists:
  assumes Q: "listq m Q" and hk: "h \<noteq> k" and h: "Q h = Some xs" and k: "Q k = Some ys"
  shows "lst_ok m (Q(h \<mapsto> xs @ ys, k \<mapsto> [])) (LIST_CONCAT h k m)"
proof (cases ys)
  case Nil
  have Q': "Q(h \<mapsto> xs @ ys, k \<mapsto> []) = Q" using h k Nil by auto
  note rh = listq_read [OF Q h] and rk = listq_read [OF Q k]
  show ?thesis
  proof (cases xs)
    case Cons
    then show ?thesis using Q rh rk Nil Q' by (auto simp: lst_ok_def LIST_CONCAT_def lst_simps)
  next
    case xs: Nil
    have same: "(lst_get m)(At_head h \<mapsto> NULL) = lst_get m" using rh xs by auto
    have "LIST_CONCAT h k m = Some (lst_upd (At_head h) NULL m)"
      using rh rk Nil xs by (simp add: LIST_CONCAT_def lst_simps)
    then show ?thesis unfolding Q'
      by (rule lst_okI) (use Q rh xs same in \<open>auto simp: listq_def\<close>)
  qed
next
  case (Cons y zs)
  note rh = listq_read [OF Q h] and rk = listq_read [OF Q k]
  let ?l = "end_link (At_head h) xs"
  let ?m = "lst_upd (At_head k) NULL (lst_upd_prev y ?l (lst_upd ?l (Some y) m))"
  have y: "lst_prev m y = Some (At_head k)" using rk Cons by simp
  have yx: "y \<notin> set xs" using separateD [OF rh(7) hk h k] Cons by auto
  have g: "lst_get ?m = (lst_get m)(?l \<mapsto> first_ptr ys, At_head k \<mapsto> NULL)" using rh rk hk Cons by simp
  have p: "lst_prev ?m = (lst_prev m)(y \<mapsto> ?l)" using y by simp
  have run: "LIST_CONCAT h k m = Some ?m"
  proof (cases xs rule: rev_cases)
    case Nil
    then show ?thesis using rh rk hk Cons y by (simp add: LIST_CONCAT_def LIST_INIT_def lst_simps)
  next
    case (snoc vs c)
    have w: "walk_until (LIST_NEXT m) (first_ptr []) (first_ptr (vs @ [c])) = Some (Some c)"
      by (rule walk_until_visits) (use rh snoc in auto)
    have f: "lst_get m (At_head h) = Some (first_ptr (vs @ [c]))" "first_ptr (vs @ [c]) \<noteq> NULL"
      using rh snoc by (cases vs; auto)+
    show ?thesis using rh rk hk Cons y w f snoc
      by (auto simp: LIST_CONCAT_def LIST_INIT_def LIST_FIRST_def)
  qed
  show ?thesis
  proof (rule lst_okI [OF run])
    show "links (lst_get ?m) (Q(h \<mapsto> xs @ ys, k \<mapsto> []))"
      unfolding g using Q hk h k by (intro links_concat) (auto simp: listq_def)
    show "backs (lst_prev ?m) (Q(h \<mapsto> xs @ ys, k \<mapsto> []))"
      unfolding p by (rule backs_concat [of "lst_prev m" Q h k xs ys])
        (use Q hk h k rk(3,7) Cons in \<open>auto simp: listq_def\<close>)
    show "dom (lst_get ?m) = dom (lst_get m)" unfolding g using rh rk by auto
  qed
qed

lemma LIST_SWAP_lists:
  assumes Q: "listq m Q" and hk: "h \<noteq> k" and h: "Q h = Some xs" and k: "Q k = Some ys"
  shows "lst_ok m (Q(h \<mapsto> ys, k \<mapsto> xs)) (LIST_SWAP h k m)"
proof -
  note rh = listq_read [OF Q h] and rk = listq_read [OF Q k]
  have dis: "set xs \<inter> set ys = {}" by (rule separateD [OF rh(7) hk h k])
  let ?m1 = "lst_upd (At_head k) (first_ptr xs) (lst_upd (At_head h) (first_ptr ys) m)"
  let ?m2 = "case ys of [] \<Rightarrow> ?m1 | y # _ \<Rightarrow> lst_upd_prev y (At_head h) ?m1"
  let ?m = "case xs of [] \<Rightarrow> ?m2 | x # _ \<Rightarrow> lst_upd_prev x (At_head k) ?m2"
  have g: "lst_get ?m = (lst_get m)(At_head h \<mapsto> first_ptr ys, At_head k \<mapsto> first_ptr xs)"
    using rh rk hk by (cases xs; cases ys) auto
  have p: "lst_prev ?m = (case xs of [] \<Rightarrow> \<lambda>f. f | x # _ \<Rightarrow> \<lambda>f. f(x \<mapsto> At_head k))
      (case ys of [] \<Rightarrow> lst_prev m | y # _ \<Rightarrow> (lst_prev m)(y \<mapsto> At_head h))"
    using rh rk dis by (cases xs; cases ys) auto
  show ?thesis
  proof (rule lst_okI [of _ ?m])
    show "LIST_SWAP h k m = Some ?m"
      using rh rk hk dis by (cases xs; cases ys) (auto simp: LIST_SWAP_def lst_simps)
    show "links (lst_get ?m) (Q(h \<mapsto> ys, k \<mapsto> xs))"
      unfolding g using Q hk h k by (intro links_swap) (auto simp: listq_def)
    show "backs (lst_prev ?m) (Q(h \<mapsto> ys, k \<mapsto> xs))"
      unfolding p by (rule backs_swap [of "lst_prev m" Q h k xs ys])
        (use Q hk h k rh(3,7) rk(3) dis in \<open>cases xs; cases ys; auto simp: listq_def\<close>)+
    show "dom (lst_get ?m) = dom (lst_get m)" unfolding g using rh rk by auto
  qed
qed

section \<open>The family\<close>

text \<open>The operations of the table in the header of the file that are available for this family.\<close>

fun list_offers :: "queue_op \<Rightarrow> bool" where
  "list_offers (Q_insert_tail _ _) = False"
| "list_offers (Q_remove_head _) = False"
| "list_offers (Q_remove_after _ _) = False"
| "list_offers _ = True"

fun list_op :: "bool \<Rightarrow> queue_op \<Rightarrow> list_mem \<Rightarrow> list_mem option" where
  "list_op K (Q_init h) m = LIST_INIT h m"
| "list_op K (Q_insert_head h a) m = LIST_INSERT_HEAD K h (Some a) m"
| "list_op K (Q_insert_tail h a) m = None"
| "list_op K (Q_insert_after h b a) m = LIST_INSERT_AFTER K (Some b) (Some a) m"
| "list_op K (Q_insert_before h b a) m = LIST_INSERT_BEFORE K (Some b) (Some a) m"
| "list_op K (Q_remove h a) m = LIST_REMOVE K (Some a) m"
| "list_op K (Q_remove_head h) m = None"
| "list_op K (Q_remove_after h b) m = None"
| "list_op K (Q_concat h k) m = LIST_CONCAT h k m"
| "list_op K (Q_swap h k) m = LIST_SWAP h k m"

lemma list_op_ok:
  assumes "listq m Q" and "list_offers op"
    and "spec_op (lst_head_set m) (lst_elem_set m) op Q = Some Q'"
  shows "lst_ok m Q' (list_op K op m)"
proof (cases op)
  case (Q_remove h a)
  then obtain us ws where "Q h = Some (us @ a # ws)" "Q' = Q(h \<mapsto> us @ ws)"
    using assms(3) by (auto simp: bind_eq_Some_conv remove1_append split: if_splits elim!: splitE)
  with Q_remove LIST_REMOVE_lists [OF assms(1)] show ?thesis by simp
next
  case (Q_insert_after h b a)
  then obtain us ws where "Q h = Some (us @ b # ws)" "Q' = Q(h \<mapsto> us @ b # a # ws)"
      "a \<in> lst_elem_set m" "a \<notin> members Q"
    using assms(3) by (auto simp: bind_eq_Some_conv split: if_splits elim!: splitE)
  with Q_insert_after LIST_INSERT_AFTER_lists [OF assms(1)] show ?thesis by simp
next
  case (Q_insert_before h b a)
  then obtain us ws where "Q h = Some (us @ b # ws)" "Q' = Q(h \<mapsto> us @ a # b # ws)"
      "a \<in> lst_elem_set m" "a \<notin> members Q"
    using assms(3) by (auto simp: bind_eq_Some_conv split: if_splits elim!: splitE)
  with Q_insert_before LIST_INSERT_BEFORE_lists [OF assms(1)] show ?thesis by simp
qed (use assms LIST_INIT_lists LIST_INSERT_HEAD_lists LIST_CONCAT_lists LIST_SWAP_lists
    in \<open>auto simp: bind_eq_Some_conv split: if_splits\<close>)

interpretation lst: queue_family listq "list_op K" list_offers lst_head_set lst_elem_set LIST_FIRST LIST_NEXT for K
proof
  show "\<exists>m'. list_op K op m = Some m' \<and> listq m' Q' \<and>
      lst_head_set m' = lst_head_set m \<and> lst_elem_set m' = lst_elem_set m"
    if "listq m Q" "list_offers op" "spec_op (lst_head_set m) (lst_elem_set m) op Q = Some Q'" for m Q op Q'
    using list_op_ok [OF that] by (simp add: lst_ok_def)
qed (simp_all add: LIST_FIRST_def listq_read)

text \<open>\<open>LIST_PREV\<close> leads from each element to the one before it.\<close>

lemma LIST_PREV_lists:
  assumes "listq m Q" and "Q h = Some xs"
  shows "visits (\<lambda>p. LIST_PREV m p h) (rev xs)"
  using listq_read(6) [OF assms]
proof (rule backed_visits_rev)
  fix a us ws
  assume "lst_prev m a = Some (end_link (At_head h) us)"
  then show "LIST_PREV m (Some a) h = Some (link_elem (end_link (At_head h) us))"
    by (cases us rule: rev_cases) (auto simp: LIST_PREV_def link_elem_def)
qed

text \<open>The checks of the head and of the elements hold exactly when the back pointers are right.\<close>

lemma list_checks_backed:
  assumes "linked (lst_get m) (At_head h) xs"
  shows "backed (lst_prev m) (At_head h) xs \<longleftrightarrow>
    QMD_LIST_CHECK_HEAD m h = Some True \<and> (\<forall>a \<in> set xs. QMD_LIST_CHECK_NEXT m (Some a) = Some True)"
proof -
  have "QMD_LIST_CHECK_HEAD m h = Some True \<longleftrightarrow>
      (\<forall>a. lst_get m (At_head h) = Some (Some a) \<longrightarrow> lst_prev m a = Some (At_head h))"
    using linked_read [OF assms]
    by (cases xs) (auto simp: lst_simps bind_eq_Some_conv split: option.splits)
  moreover have "QMD_LIST_CHECK_NEXT m (Some a) = Some True \<longleftrightarrow>
      (\<forall>b. lst_get m (At_elem a) = Some (Some b) \<longrightarrow> lst_prev m b = Some (At_elem a))" if "a \<in> set xs" for a
    using linked_defined [OF assms that]
    by (auto simp: lst_simps bind_eq_Some_conv split: option.splits)
  ultimately show ?thesis using backed_iff_next [OF assms, of "lst_prev m"] by auto
qed

text \<open>The memory of heads and elements that are in no list yet.\<close>

definition list_start :: "nat list \<Rightarrow> addr list \<Rightarrow> list_mem" where
  "list_start hs as =
     \<lparr>lst_heads = (\<lambda>h. if h \<in> set hs then Some LIST_HEAD_INITIALIZER else None),
      lst_elems = (\<lambda>a. if a \<in> set as then Some \<lparr>le_next = NULL, le_prev = At_elem a\<rparr> else None)\<rparr>"

lemma list_start:
  "listq (list_start hs as) (\<lambda>h. if h \<in> set hs then Some [] else None)"
  "lst_head_set (list_start hs as) = set hs" "lst_elem_set (list_start hs as) = set as"
  by (auto simp: listq_def links_def backs_def separate_def list_start_def LIST_HEAD_INITIALIZER_def
      lst_get.simps lst_prev_def lst_head_set_def lst_elem_set_def split: if_splits)

end
