(* ===== verification/Tailq.thy ===== *)
theory Tailq
  imports Queue_Interface
begin

text \<open>
  The tail queue of \<open>server/queue.h\<close> (the \<open>TAILQ\<close> macros): a head holds the first element and the
  address of the last link; an element holds the next one and the address of the link that
  points to it. The last element is found by reading the entry of the last link as if it were a
  head: both structures begin with a pointer and the address of a link. The macros take the build
  option as their first argument: whether the \<open>QMD_TAILQ_CHECK\<close> macros check the queue. The trace
  macros are empty unless \<open>QUEUE_MACRO_DEBUG\<close> is defined (theory \<open>Queue_Debug\<close>). \<open>None\<close> is a null or
  dangling pointer that is followed, or a panic.
\<close>

section \<open>Heads and elements\<close>

record tailq_head =
  tqh_first :: ptr
  tqh_last :: link

record tailq_entry =
  tqe_next :: ptr
  tqe_prev :: link

record tailq_mem =
  tq_heads :: "nat \<rightharpoonup> tailq_head"
  tq_elems :: "addr \<rightharpoonup> tailq_entry"

definition TAILQ_HEAD_INITIALIZER :: "nat \<Rightarrow> tailq_head" where
  "TAILQ_HEAD_INITIALIZER head = \<lparr>tqh_first = NULL, tqh_last = At_head head\<rparr>"

text \<open>Reading and writing a link, the back pointer of an element and the tail pointer of a head.\<close>

fun tq_get :: "tailq_mem \<Rightarrow> link \<Rightarrow> ptr option" where
  "tq_get m (At_head h) = map_option tqh_first (tq_heads m h)"
| "tq_get m (At_elem a) = map_option tqe_next (tq_elems m a)"

fun tq_upd :: "link \<Rightarrow> ptr \<Rightarrow> tailq_mem \<Rightarrow> tailq_mem" where
  "tq_upd (At_head h) p m =
     m\<lparr>tq_heads := (tq_heads m)(h := map_option (tqh_first_update (\<lambda>_. p)) (tq_heads m h))\<rparr>"
| "tq_upd (At_elem a) p m =
     m\<lparr>tq_elems := (tq_elems m)(a := map_option (tqe_next_update (\<lambda>_. p)) (tq_elems m a))\<rparr>"

definition tq_put :: "link \<Rightarrow> ptr \<Rightarrow> tailq_mem \<Rightarrow> tailq_mem option" where
  "tq_put l p m = (if tq_get m l = None then None else Some (tq_upd l p m))"

definition tq_prev :: "tailq_mem \<Rightarrow> addr \<Rightarrow> link option" where
  "tq_prev m a = map_option tqe_prev (tq_elems m a)"

definition tq_upd_prev :: "addr \<Rightarrow> link \<Rightarrow> tailq_mem \<Rightarrow> tailq_mem" where
  "tq_upd_prev a l m =
     m\<lparr>tq_elems := (tq_elems m)(a := map_option (tqe_prev_update (\<lambda>_. l)) (tq_elems m a))\<rparr>"

definition tq_set_prev :: "ptr \<Rightarrow> link \<Rightarrow> tailq_mem \<Rightarrow> tailq_mem option" where
  "tq_set_prev p l m = do { a \<leftarrow> p; if tq_elems m a = None then None else Some (tq_upd_prev a l m) }"

definition tq_last :: "tailq_mem \<Rightarrow> nat \<Rightarrow> link option" where
  "tq_last m h = map_option tqh_last (tq_heads m h)"

definition tq_upd_last :: "nat \<Rightarrow> link \<Rightarrow> tailq_mem \<Rightarrow> tailq_mem" where
  "tq_upd_last h l m =
     m\<lparr>tq_heads := (tq_heads m)(h := map_option (tqh_last_update (\<lambda>_. l)) (tq_heads m h))\<rparr>"

definition tq_set_last :: "nat \<Rightarrow> link \<Rightarrow> tailq_mem \<Rightarrow> tailq_mem option" where
  "tq_set_last h l m = (if tq_heads m h = None then None else Some (tq_upd_last h l m))"

text \<open>\<open>((struct headname *)l)->tqh_last\<close>: the second field of the structure that begins with the link.\<close>

definition tq_cast_last :: "tailq_mem \<Rightarrow> link \<Rightarrow> link option" where
  "tq_cast_last m l = (case l of At_head h \<Rightarrow> tq_last m h | At_elem a \<Rightarrow> tq_prev m a)"

section \<open>The macros\<close>

definition TAILQ_EMPTY :: "tailq_mem \<Rightarrow> nat \<Rightarrow> bool option" where
  "TAILQ_EMPTY m head = do { p \<leftarrow> tq_get m (At_head head); Some (p = NULL) }"

definition TAILQ_FIRST :: "tailq_mem \<Rightarrow> nat \<Rightarrow> ptr option" where
  "TAILQ_FIRST m head = tq_get m (At_head head)"

definition TAILQ_NEXT :: "tailq_mem \<Rightarrow> ptr \<Rightarrow> ptr option" where
  "TAILQ_NEXT m elm = follow (tq_get m) elm"

definition TAILQ_LAST :: "tailq_mem \<Rightarrow> nat \<Rightarrow> ptr option" where
  "TAILQ_LAST m head = do { l \<leftarrow> tq_last m head; k \<leftarrow> tq_cast_last m l; tq_get m k }"

definition TAILQ_PREV :: "tailq_mem \<Rightarrow> ptr \<Rightarrow> ptr option" where
  "TAILQ_PREV m elm = do { e \<leftarrow> elm; l \<leftarrow> tq_prev m e; k \<leftarrow> tq_cast_last m l; tq_get m k }"

text \<open>The checks; \<open>Some False\<close> is the panic.\<close>

definition QMD_TAILQ_CHECK_HEAD :: "tailq_mem \<Rightarrow> nat \<Rightarrow> bool option" where
  "QMD_TAILQ_CHECK_HEAD m head =
     do { empty \<leftarrow> TAILQ_EMPTY m head;
          if empty then Some True
          else do { f \<leftarrow> TAILQ_FIRST m head; a \<leftarrow> f; l \<leftarrow> tq_prev m a; Some (l = At_head head) } }"

definition QMD_TAILQ_CHECK_TAIL :: "tailq_mem \<Rightarrow> nat \<Rightarrow> bool option" where
  "QMD_TAILQ_CHECK_TAIL m head = do { l \<leftarrow> tq_last m head; p \<leftarrow> tq_get m l; Some (p = NULL) }"

definition QMD_TAILQ_CHECK_NEXT :: "tailq_mem \<Rightarrow> ptr \<Rightarrow> bool option" where
  "QMD_TAILQ_CHECK_NEXT m elm =
     do { e \<leftarrow> elm;
          n \<leftarrow> TAILQ_NEXT m elm;
          (case n of None \<Rightarrow> Some True
           | Some a \<Rightarrow> do { l \<leftarrow> tq_prev m a; Some (l = At_elem e) }) }"

definition QMD_TAILQ_CHECK_PREV :: "tailq_mem \<Rightarrow> ptr \<Rightarrow> bool option" where
  "QMD_TAILQ_CHECK_PREV m elm = do { e \<leftarrow> elm; l \<leftarrow> tq_prev m e; p \<leftarrow> tq_get m l; Some (p = elm) }"

definition TAILQ_INIT :: "nat \<Rightarrow> tailq_mem \<Rightarrow> tailq_mem option" where
  "TAILQ_INIT head m = do { m \<leftarrow> tq_put (At_head head) NULL m; tq_set_last head (At_head head) m }"

definition TAILQ_CONCAT :: "nat \<Rightarrow> nat \<Rightarrow> tailq_mem \<Rightarrow> tailq_mem option" where
  "TAILQ_CONCAT head1 head2 m =
     do { empty \<leftarrow> TAILQ_EMPTY m head2;
          if \<not> empty
          then do { l \<leftarrow> tq_last m head1;
                    p \<leftarrow> TAILQ_FIRST m head2;
                    m \<leftarrow> tq_put l p m;
                    p \<leftarrow> TAILQ_FIRST m head2;
                    l \<leftarrow> tq_last m head1;
                    m \<leftarrow> tq_set_prev p l m;
                    l2 \<leftarrow> tq_last m head2;
                    m \<leftarrow> tq_set_last head1 l2 m;
                    TAILQ_INIT head2 m }
          else Some m }"

definition TAILQ_INSERT_AFTER :: "bool \<Rightarrow> nat \<Rightarrow> ptr \<Rightarrow> ptr \<Rightarrow> tailq_mem \<Rightarrow> tailq_mem option" where
  "TAILQ_INSERT_AFTER invariants head listelm elm m =
     do { qmd_check invariants (QMD_TAILQ_CHECK_NEXT m listelm);
          e \<leftarrow> elm;
          t \<leftarrow> listelm;
          n \<leftarrow> TAILQ_NEXT m listelm;
          m \<leftarrow> tq_put (At_elem e) n m;
          m \<leftarrow> (if n \<noteq> NULL
                 then do { q \<leftarrow> TAILQ_NEXT m elm; tq_set_prev q (At_elem e) m }
                 else tq_set_last head (At_elem e) m);
          m \<leftarrow> tq_put (At_elem t) elm m;
          tq_set_prev elm (At_elem t) m }"

definition TAILQ_INSERT_BEFORE :: "bool \<Rightarrow> ptr \<Rightarrow> ptr \<Rightarrow> tailq_mem \<Rightarrow> tailq_mem option" where
  "TAILQ_INSERT_BEFORE invariants listelm elm m =
     do { qmd_check invariants (QMD_TAILQ_CHECK_PREV m listelm);
          e \<leftarrow> elm;
          t \<leftarrow> listelm;
          l \<leftarrow> tq_prev m t;
          m \<leftarrow> tq_set_prev elm l m;
          m \<leftarrow> tq_put (At_elem e) listelm m;
          l \<leftarrow> tq_prev m t;
          m \<leftarrow> tq_put l elm m;
          tq_set_prev listelm (At_elem e) m }"

definition TAILQ_INSERT_HEAD :: "bool \<Rightarrow> nat \<Rightarrow> ptr \<Rightarrow> tailq_mem \<Rightarrow> tailq_mem option" where
  "TAILQ_INSERT_HEAD invariants head elm m =
     do { qmd_check invariants (QMD_TAILQ_CHECK_HEAD m head);
          e \<leftarrow> elm;
          n \<leftarrow> TAILQ_FIRST m head;
          m \<leftarrow> tq_put (At_elem e) n m;
          m \<leftarrow> (if n \<noteq> NULL
                 then do { f \<leftarrow> TAILQ_FIRST m head; tq_set_prev f (At_elem e) m }
                 else tq_set_last head (At_elem e) m);
          m \<leftarrow> tq_put (At_head head) elm m;
          tq_set_prev elm (At_head head) m }"

definition TAILQ_INSERT_TAIL :: "bool \<Rightarrow> nat \<Rightarrow> ptr \<Rightarrow> tailq_mem \<Rightarrow> tailq_mem option" where
  "TAILQ_INSERT_TAIL invariants head elm m =
     do { qmd_check invariants (QMD_TAILQ_CHECK_TAIL m head);
          e \<leftarrow> elm;
          m \<leftarrow> tq_put (At_elem e) NULL m;
          l \<leftarrow> tq_last m head;
          m \<leftarrow> tq_set_prev elm l m;
          l \<leftarrow> tq_last m head;
          m \<leftarrow> tq_put l elm m;
          tq_set_last head (At_elem e) m }"

definition TAILQ_REMOVE :: "bool \<Rightarrow> nat \<Rightarrow> ptr \<Rightarrow> tailq_mem \<Rightarrow> tailq_mem option" where
  "TAILQ_REMOVE invariants head elm m =
     do { qmd_check invariants (QMD_TAILQ_CHECK_NEXT m elm);
          qmd_check invariants (QMD_TAILQ_CHECK_PREV m elm);
          e \<leftarrow> elm;
          n \<leftarrow> TAILQ_NEXT m elm;
          l \<leftarrow> tq_prev m e;
          m \<leftarrow> (if n \<noteq> NULL then tq_set_prev n l m else tq_set_last head l m);
          l \<leftarrow> tq_prev m e;
          n \<leftarrow> TAILQ_NEXT m elm;
          tq_put l n m }"

definition TAILQ_SWAP :: "nat \<Rightarrow> nat \<Rightarrow> tailq_mem \<Rightarrow> tailq_mem option" where
  "TAILQ_SWAP head1 head2 m =
     do { swap_first \<leftarrow> TAILQ_FIRST m head1;
          swap_last \<leftarrow> tq_last m head1;
          f2 \<leftarrow> TAILQ_FIRST m head2;
          m \<leftarrow> tq_put (At_head head1) f2 m;
          l2 \<leftarrow> tq_last m head2;
          m \<leftarrow> tq_set_last head1 l2 m;
          m \<leftarrow> tq_put (At_head head2) swap_first m;
          m \<leftarrow> tq_set_last head2 swap_last m;
          swap_first \<leftarrow> TAILQ_FIRST m head1;
          m \<leftarrow> (if swap_first \<noteq> NULL then tq_set_prev swap_first (At_head head1) m
                 else tq_set_last head1 (At_head head1) m);
          swap_first \<leftarrow> TAILQ_FIRST m head2;
          if swap_first \<noteq> NULL then tq_set_prev swap_first (At_head head2) m
          else tq_set_last head2 (At_head head2) m }"

text \<open>The iterations; \<open>get\<close> is the memory in the state the body works on.\<close>

definition TAILQ_FOREACH ::
    "('s \<Rightarrow> tailq_mem) \<Rightarrow> nat \<Rightarrow> (addr \<Rightarrow> 's \<Rightarrow> 's option) \<Rightarrow> 's \<Rightarrow> 's option" where
  "TAILQ_FOREACH get head body s =
     do { var \<leftarrow> TAILQ_FIRST (get s) head; for_each (\<lambda>s. TAILQ_NEXT (get s)) body var s }"

definition TAILQ_FOREACH_FROM ::
    "('s \<Rightarrow> tailq_mem) \<Rightarrow> ptr \<Rightarrow> nat \<Rightarrow> (addr \<Rightarrow> 's \<Rightarrow> 's option) \<Rightarrow> 's \<Rightarrow> 's option" where
  "TAILQ_FOREACH_FROM get var head body s =
     do { var \<leftarrow> (if var \<noteq> NULL then Some var else TAILQ_FIRST (get s) head);
          for_each (\<lambda>s. TAILQ_NEXT (get s)) body var s }"

definition TAILQ_FOREACH_SAFE ::
    "('s \<Rightarrow> tailq_mem) \<Rightarrow> nat \<Rightarrow> (addr \<Rightarrow> 's \<Rightarrow> 's option) \<Rightarrow> 's \<Rightarrow> 's option" where
  "TAILQ_FOREACH_SAFE get head body s =
     do { var \<leftarrow> TAILQ_FIRST (get s) head; for_each_safe (\<lambda>s. TAILQ_NEXT (get s)) body var s }"

definition TAILQ_FOREACH_FROM_SAFE ::
    "('s \<Rightarrow> tailq_mem) \<Rightarrow> ptr \<Rightarrow> nat \<Rightarrow> (addr \<Rightarrow> 's \<Rightarrow> 's option) \<Rightarrow> 's \<Rightarrow> 's option" where
  "TAILQ_FOREACH_FROM_SAFE get var head body s =
     do { var \<leftarrow> (if var \<noteq> NULL then Some var else TAILQ_FIRST (get s) head);
          for_each_safe (\<lambda>s. TAILQ_NEXT (get s)) body var s }"

definition TAILQ_FOREACH_REVERSE ::
    "('s \<Rightarrow> tailq_mem) \<Rightarrow> nat \<Rightarrow> (addr \<Rightarrow> 's \<Rightarrow> 's option) \<Rightarrow> 's \<Rightarrow> 's option" where
  "TAILQ_FOREACH_REVERSE get head body s =
     do { var \<leftarrow> TAILQ_LAST (get s) head; for_each (\<lambda>s. TAILQ_PREV (get s)) body var s }"

definition TAILQ_FOREACH_REVERSE_FROM ::
    "('s \<Rightarrow> tailq_mem) \<Rightarrow> ptr \<Rightarrow> nat \<Rightarrow> (addr \<Rightarrow> 's \<Rightarrow> 's option) \<Rightarrow> 's \<Rightarrow> 's option" where
  "TAILQ_FOREACH_REVERSE_FROM get var head body s =
     do { var \<leftarrow> (if var \<noteq> NULL then Some var else TAILQ_LAST (get s) head);
          for_each (\<lambda>s. TAILQ_PREV (get s)) body var s }"

definition TAILQ_FOREACH_REVERSE_SAFE ::
    "('s \<Rightarrow> tailq_mem) \<Rightarrow> nat \<Rightarrow> (addr \<Rightarrow> 's \<Rightarrow> 's option) \<Rightarrow> 's \<Rightarrow> 's option" where
  "TAILQ_FOREACH_REVERSE_SAFE get head body s =
     do { var \<leftarrow> TAILQ_LAST (get s) head; for_each_safe (\<lambda>s. TAILQ_PREV (get s)) body var s }"

definition TAILQ_FOREACH_REVERSE_FROM_SAFE ::
    "('s \<Rightarrow> tailq_mem) \<Rightarrow> ptr \<Rightarrow> nat \<Rightarrow> (addr \<Rightarrow> 's \<Rightarrow> 's option) \<Rightarrow> 's \<Rightarrow> 's option" where
  "TAILQ_FOREACH_REVERSE_FROM_SAFE get var head body s =
     do { var \<leftarrow> (if var \<noteq> NULL then Some var else TAILQ_LAST (get s) head);
          for_each_safe (\<lambda>s. TAILQ_PREV (get s)) body var s }"

section \<open>The views\<close>

lemma tq_get_upd [simp]: "tq_get m l = Some q \<Longrightarrow> tq_get (tq_upd l p m) = (tq_get m)(l \<mapsto> p)"
proof
  fix k
  assume "tq_get m l = Some q"
  then show "tq_get (tq_upd l p m) k = ((tq_get m)(l \<mapsto> p)) k" by (cases l; cases k) auto
qed

lemma tq_prev_upd [simp]: "tq_prev (tq_upd l p m) = tq_prev m"
  by (cases l) (auto simp: tq_prev_def fun_eq_iff option.map_comp comp_def)

lemma tq_last_upd [simp]: "tq_last (tq_upd l p m) = tq_last m"
  by (cases l) (auto simp: tq_last_def fun_eq_iff option.map_comp comp_def)

lemma tq_put_Some [simp]: "tq_get m l = Some q \<Longrightarrow> tq_put l p m = Some (tq_upd l p m)"
  by (simp add: tq_put_def)

lemma tq_set_prev_Some [simp]:
  "tq_prev m a = Some k \<Longrightarrow> tq_set_prev (Some a) l m = Some (tq_upd_prev a l m)"
  by (auto simp: tq_set_prev_def tq_prev_def)

lemma tq_set_last_Some [simp]: "tq_last m h = Some k \<Longrightarrow> tq_set_last h l m = Some (tq_upd_last h l m)"
  by (auto simp: tq_set_last_def tq_last_def)

lemma tq_get_upd_fields [simp]:
  "tq_get (tq_upd_prev a l m) = tq_get m" "tq_get (tq_upd_last h l m) = tq_get m"
proof -
  have "tq_get (tq_upd_prev a l m) k = tq_get m k" "tq_get (tq_upd_last h l m) k = tq_get m k" for k
    by (cases k; auto simp: tq_upd_prev_def tq_upd_last_def option.map_comp comp_def)+
  then show "tq_get (tq_upd_prev a l m) = tq_get m" "tq_get (tq_upd_last h l m) = tq_get m"
    by (simp_all add: fun_eq_iff)
qed

lemma tq_fields [simp]:
  "tq_prev (tq_upd_last h l m) = tq_prev m" "tq_last (tq_upd_prev a l m) = tq_last m"
  "tq_prev m a = Some k \<Longrightarrow> tq_prev (tq_upd_prev a l m) = (tq_prev m)(a \<mapsto> l)"
  "tq_last m h = Some k \<Longrightarrow> tq_last (tq_upd_last h l m) = (tq_last m)(h \<mapsto> l)"
  by (auto simp: tq_upd_prev_def tq_upd_last_def tq_prev_def tq_last_def fun_eq_iff)

lemma tq_prev_defined: "tq_get m (At_elem a) = Some q \<Longrightarrow> \<exists>l. tq_prev m a = Some l"
  by (auto simp: tq_prev_def)

lemma TAILQ_NEXT_follow: "TAILQ_NEXT m = follow (tq_get m)"
  by (simp add: fun_eq_iff TAILQ_NEXT_def)

declare tq_get.simps [simp del] tq_upd.simps [simp del]

lemmas tq_simps = TAILQ_FIRST_def TAILQ_EMPTY_def TAILQ_NEXT_follow follow_def
  QMD_TAILQ_CHECK_HEAD_def QMD_TAILQ_CHECK_TAIL_def QMD_TAILQ_CHECK_NEXT_def QMD_TAILQ_CHECK_PREV_def

definition tailq :: "tailq_mem \<Rightarrow> lists \<Rightarrow> bool" where
  "tailq m Q \<longleftrightarrow> links (tq_get m) Q \<and> backs (tq_prev m) Q \<and> tails (tq_last m) Q"

definition tq_head_set :: "tailq_mem \<Rightarrow> nat set" where
  "tq_head_set m = {h. At_head h \<in> dom (tq_get m)}"

definition tq_elem_set :: "tailq_mem \<Rightarrow> addr set" where
  "tq_elem_set m = {a. At_elem a \<in> dom (tq_get m)}"

text \<open>What a memory that holds the lists \<open>Q\<close> gives for one of them.\<close>

lemma tailq_read:
  assumes "tailq m Q" and "Q h = Some xs"
  shows "tq_get m (At_head h) = Some (first_ptr xs)" and "tq_get m (end_link (At_head h) xs) = Some NULL"
    and "distinct xs" and "visits (TAILQ_NEXT m) xs" and "linked (tq_get m) (At_head h) xs"
    and "backed (tq_prev m) (At_head h) xs" and "separate Q" and "tq_last m h = Some (end_link (At_head h) xs)"
proof -
  show l: "linked (tq_get m) (At_head h) xs" using assms by (auto simp: tailq_def linksD)
  show "backed (tq_prev m) (At_head h) xs" using assms by (auto simp: tailq_def backsD)
  show "tq_last m h = Some (end_link (At_head h) xs)" using assms by (auto simp: tailq_def tailsD)
  show "tq_get m (At_head h) = Some (first_ptr xs)" "distinct xs" "visits (TAILQ_NEXT m) xs"
    "tq_get m (end_link (At_head h) xs) = Some NULL"
    using linked_read [OF l] linked_distinct [OF l] linked_visits [OF l] l
    by (simp_all add: TAILQ_NEXT_follow linked_chained)
  show "separate Q" using assms by (simp add: tailq_def links_def)
qed

text \<open>A macro that ran and left the lists \<open>Q\<close>, with the same heads and elements as before.\<close>

definition tq_ok :: "tailq_mem \<Rightarrow> lists \<Rightarrow> tailq_mem option \<Rightarrow> bool" where
  "tq_ok m Q r \<longleftrightarrow> (\<exists>m'. r = Some m' \<and> tailq m' Q \<and>
     tq_head_set m' = tq_head_set m \<and> tq_elem_set m' = tq_elem_set m)"

lemma tq_okI:
  assumes "r = Some m'" and "links (tq_get m') Q" and "backs (tq_prev m') Q" and "tails (tq_last m') Q"
    and "dom (tq_get m') = dom (tq_get m)"
  shows "tq_ok m Q r"
  using assms by (simp add: tq_ok_def tailq_def tq_head_set_def tq_elem_set_def)

section \<open>The effect of each macro on the lists\<close>

lemma TAILQ_INIT_lists:
  assumes Q: "tailq m Q" and h: "h \<in> tq_head_set m"
  shows "tq_ok m (Q(h \<mapsto> [])) (TAILQ_INIT h m)"
proof -
  obtain f l where f: "tq_get m (At_head h) = Some f" "tq_last m h = Some l"
    using h by (auto simp: tq_head_set_def tq_get.simps tq_last_def)
  then have "TAILQ_INIT h m = Some (tq_upd_last h (At_head h) (tq_upd (At_head h) NULL m))"
    by (simp add: TAILQ_INIT_def)
  then show ?thesis by (rule tq_okI) (use Q f in \<open>auto simp: tailq_def links_init backs_init tails_init\<close>)
qed

text \<open>An element linked in at the link after \<open>us\<close>: the pointers of it, its successor and the head.\<close>

lemma tq_insert_ok:
  assumes Q: "tailq m Q" and h: "Q h = Some (us @ ws)" and a: "a \<in> tq_elem_set m" "a \<notin> members Q"
    and m': "r = Some m'"
    and g: "tq_get m' = (tq_get m)(At_elem a \<mapsto> first_ptr ws, end_link (At_head h) us \<mapsto> Some a)"
    and p: "tq_prev m' = (case ws of [] \<Rightarrow> tq_prev m | b # _ \<Rightarrow> (tq_prev m)(b \<mapsto> At_elem a))
        (a \<mapsto> end_link (At_head h) us)"
    and t: "tq_last m' = (if ws = [] then (tq_last m)(h \<mapsto> At_elem a) else tq_last m)"
  shows "tq_ok m (Q(h \<mapsto> us @ a # ws)) r"
proof (rule tq_okI [OF m'])
  note r = tailq_read [OF Q h]
  have au: "a \<notin> set (us @ ws)" using a(2) membersI [of Q h "us @ ws" a] h by blast
  have l: "tq_get m (end_link (At_head h) us) = Some (first_ptr ws)" using r(5) by (auto dest: linked_read)
  show "links (tq_get m') (Q(h \<mapsto> us @ a # ws))"
    unfolding g using Q h a by (intro links_insert) (auto simp: tailq_def)
  show "backs (tq_prev m') (Q(h \<mapsto> us @ a # ws))"
    unfolding p by (rule backs_insert [of "tq_prev m" Q h us ws a])
      (use Q h a r(3,7) au in \<open>cases ws; auto simp: tailq_def\<close>)+
  show "tails (tq_last m') (Q(h \<mapsto> us @ a # ws))"
    unfolding t using Q h by (intro tails_insert) (auto simp: tailq_def)
  show "dom (tq_get m') = dom (tq_get m)"
    unfolding g using l a(1) by (auto simp: tq_elem_set_def)
qed

lemma tq_insert_facts:
  assumes "tailq m Q" and "Q h = Some (us @ ws)" and "a \<in> tq_elem_set m" "a \<notin> members Q"
  shows "\<exists>n. tq_get m (At_elem a) = Some n" and "\<exists>l. tq_prev m a = Some l"
    and "a \<notin> set (us @ ws)" and "end_link (At_head h) us \<noteq> At_elem a"
    and "tq_get m (end_link (At_head h) us) = Some (first_ptr ws)"
proof -
  show n: "\<exists>n. tq_get m (At_elem a) = Some n" using assms(3) by (auto simp: tq_elem_set_def)
  then show "\<exists>l. tq_prev m a = Some l" using tq_prev_defined by blast
  show a: "a \<notin> set (us @ ws)" using assms(4) membersI [of Q h "us @ ws" a] assms(2) by blast
  then show "end_link (At_head h) us \<noteq> At_elem a" using end_link_head_elem [of h us a] by auto
  show "tq_get m (end_link (At_head h) us) = Some (first_ptr ws)"
    using tailq_read(5) [OF assms(1,2)] by (auto dest: linked_read)
qed

lemma TAILQ_INSERT_HEAD_lists:
  assumes Q: "tailq m Q" and h: "Q h = Some xs" and a: "a \<in> tq_elem_set m" "a \<notin> members Q"
  shows "tq_ok m (Q(h \<mapsto> a # xs)) (TAILQ_INSERT_HEAD K h (Some a) m)"
proof -
  note r = tailq_read [OF Q h]
  have h': "Q h = Some ([] @ xs)" using h by simp
  note f = tq_insert_facts [OF Q h' a]
  obtain n l where n: "tq_get m (At_elem a) = Some n" "tq_prev m a = Some l" using f by auto
  let ?m1 = "tq_upd (At_elem a) (first_ptr xs) m"
  let ?m2 = "case xs of [] \<Rightarrow> tq_upd_last h (At_elem a) ?m1 | b # _ \<Rightarrow> tq_upd_prev b (At_elem a) ?m1"
  let ?m = "tq_upd_prev a (At_head h) (tq_upd (At_head h) (Some a) ?m2)"
  show ?thesis
  proof (rule tq_insert_ok [of m Q h "[]" xs a _ ?m, simplified])
    show "TAILQ_INSERT_HEAD K h (Some a) m = Some ?m"
      using r n f by (cases xs) (auto simp: TAILQ_INSERT_HEAD_def tq_simps)
  qed (use Q h a r n f in \<open>auto split: list.splits\<close>)
qed

lemma TAILQ_INSERT_TAIL_lists:
  assumes Q: "tailq m Q" and h: "Q h = Some xs" and a: "a \<in> tq_elem_set m" "a \<notin> members Q"
  shows "tq_ok m (Q(h \<mapsto> xs @ [a])) (TAILQ_INSERT_TAIL K h (Some a) m)"
proof -
  note r = tailq_read [OF Q h]
  have h': "Q h = Some (xs @ [])" using h by simp
  note f = tq_insert_facts [OF Q h' a]
  let ?l = "end_link (At_head h) xs"
  obtain n l where n: "tq_get m (At_elem a) = Some n" "tq_prev m a = Some l" using f by auto
  let ?m = "tq_upd_last h (At_elem a) (tq_upd ?l (Some a) (tq_upd_prev a ?l (tq_upd (At_elem a) NULL m)))"
  show ?thesis
  proof (rule tq_insert_ok [of m Q h xs "[]" a _ ?m, simplified])
    show "TAILQ_INSERT_TAIL K h (Some a) m = Some ?m"
      using r n f by (auto simp: TAILQ_INSERT_TAIL_def tq_simps)
  qed (use Q h a r n f in auto)
qed

lemma TAILQ_INSERT_AFTER_lists:
  assumes Q: "tailq m Q" and h: "Q h = Some (us @ b # ws)" and a: "a \<in> tq_elem_set m" "a \<notin> members Q"
  shows "tq_ok m (Q(h \<mapsto> us @ b # a # ws)) (TAILQ_INSERT_AFTER K h (Some b) (Some a) m)"
proof -
  note r = tailq_read [OF Q h]
  have h': "Q h = Some ((us @ [b]) @ ws)" using h by simp
  note f = tq_insert_facts [OF Q h' a]
  obtain n l where n: "tq_get m (At_elem a) = Some n" "tq_prev m a = Some l" using f by auto
  let ?m1 = "tq_upd (At_elem a) (first_ptr ws) m"
  let ?m2 = "case ws of [] \<Rightarrow> tq_upd_last h (At_elem a) ?m1 | c # _ \<Rightarrow> tq_upd_prev c (At_elem a) ?m1"
  let ?m = "tq_upd_prev a (At_elem b) (tq_upd (At_elem b) (Some a) ?m2)"
  show ?thesis
  proof (rule tq_insert_ok [of m Q h "us @ [b]" ws a _ ?m, simplified])
    show "TAILQ_INSERT_AFTER K h (Some b) (Some a) m = Some ?m"
      using r n f by (cases ws) (auto simp: TAILQ_INSERT_AFTER_def tq_simps)
  qed (use Q h a r n f in \<open>auto split: list.splits\<close>)
qed

lemma TAILQ_INSERT_BEFORE_lists:
  assumes Q: "tailq m Q" and h: "Q h = Some (us @ b # ws)" and a: "a \<in> tq_elem_set m" "a \<notin> members Q"
  shows "tq_ok m (Q(h \<mapsto> us @ a # b # ws)) (TAILQ_INSERT_BEFORE K (Some b) (Some a) m)"
proof -
  note r = tailq_read [OF Q h]
  note f = tq_insert_facts [OF Q h a]
  let ?l = "end_link (At_head h) us"
  obtain n l where n: "tq_get m (At_elem a) = Some n" "tq_prev m a = Some l" using f by auto
  let ?m = "tq_upd_prev b (At_elem a) (tq_upd ?l (Some a) (tq_upd (At_elem a) (Some b) (tq_upd_prev a ?l m)))"
  show ?thesis
  proof (rule tq_insert_ok [of m Q h us "b # ws" a _ ?m])
    show "TAILQ_INSERT_BEFORE K (Some b) (Some a) m = Some ?m"
      using r n f by (auto simp: TAILQ_INSERT_BEFORE_def tq_simps)
  qed (use Q h a r n f in \<open>auto simp: fun_eq_iff\<close>)
qed

lemma TAILQ_REMOVE_lists:
  assumes Q: "tailq m Q" and h: "Q h = Some (us @ a # ws)"
  shows "tq_ok m (Q(h \<mapsto> us @ ws)) (TAILQ_REMOVE K h (Some a) m)"
proof -
  note r = tailq_read [OF Q h]
  let ?l = "end_link (At_head h) us"
  have a: "tq_get m ?l = Some (Some a)" "tq_get m (At_elem a) = Some (first_ptr ws)" "tq_prev m a = Some ?l"
    using r by (auto dest: linked_read)
  let ?m1 = "case ws of [] \<Rightarrow> tq_upd_last h ?l m | b # _ \<Rightarrow> tq_upd_prev b ?l m"
  let ?m = "tq_upd ?l (first_ptr ws) ?m1"
  have g: "tq_get ?m = (tq_get m)(?l \<mapsto> first_ptr ws)" using a by (cases ws) auto
  have p: "tq_prev ?m = (case ws of [] \<Rightarrow> tq_prev m | b # _ \<Rightarrow> (tq_prev m)(b \<mapsto> ?l))"
    using r by (cases ws) auto
  have t: "tq_last ?m = (if ws = [] then (tq_last m)(h \<mapsto> ?l) else tq_last m)" using r by (cases ws) auto
  show ?thesis
  proof (rule tq_okI [of _ ?m])
    show "TAILQ_REMOVE K h (Some a) m = Some ?m"
      using r a by (cases ws) (auto simp: TAILQ_REMOVE_def tq_simps)
    show "links (tq_get ?m) (Q(h \<mapsto> us @ ws))"
      unfolding g using Q h by (intro links_remove) (auto simp: tailq_def)
    show "backs (tq_prev ?m) (Q(h \<mapsto> us @ ws))"
      unfolding p by (rule backs_remove [of "tq_prev m" Q h us a ws])
        (use Q h r(3,7) in \<open>cases ws; auto simp: tailq_def\<close>)+
    show "tails (tq_last ?m) (Q(h \<mapsto> us @ ws))"
      unfolding t using Q h by (intro tails_remove) (auto simp: tailq_def)
    show "dom (tq_get ?m) = dom (tq_get m)" unfolding g using a by auto
  qed
qed

lemma TAILQ_CONCAT_lists:
  assumes Q: "tailq m Q" and hk: "h \<noteq> k" and h: "Q h = Some xs" and k: "Q k = Some ys"
  shows "tq_ok m (Q(h \<mapsto> xs @ ys, k \<mapsto> [])) (TAILQ_CONCAT h k m)"
proof (cases ys)
  case Nil
  have "Q(h \<mapsto> xs @ ys, k \<mapsto> []) = Q" using h k Nil by auto
  then show ?thesis using Q tailq_read [OF Q k] Nil by (auto simp: tq_ok_def TAILQ_CONCAT_def tq_simps)
next
  case (Cons y zs)
  note rh = tailq_read [OF Q h] and rk = tailq_read [OF Q k]
  let ?l = "end_link (At_head h) xs"
  let ?m = "tq_upd_last k (At_head k) (tq_upd (At_head k) NULL
      (tq_upd_last h (end_link (At_head k) ys) (tq_upd_prev y ?l (tq_upd ?l (Some y) m))))"
  have y: "tq_prev m y = Some (At_head k)" using rk Cons by simp
  have g: "tq_get ?m = (tq_get m)(?l \<mapsto> first_ptr ys, At_head k \<mapsto> NULL)" using rh rk hk Cons by simp
  have p: "tq_prev ?m = (tq_prev m)(y \<mapsto> ?l)" using y by simp
  have t: "tq_last ?m = (tq_last m)(h := tq_last m k, k \<mapsto> At_head k)" using rh rk hk by simp
  show ?thesis
  proof (rule tq_okI [of _ ?m])
    show "TAILQ_CONCAT h k m = Some ?m"
      using rh rk hk Cons y by (simp add: TAILQ_CONCAT_def TAILQ_INIT_def tq_simps)
    show "links (tq_get ?m) (Q(h \<mapsto> xs @ ys, k \<mapsto> []))"
      unfolding g using Q hk h k by (intro links_concat) (auto simp: tailq_def)
    show "backs (tq_prev ?m) (Q(h \<mapsto> xs @ ys, k \<mapsto> []))"
      unfolding p by (rule backs_concat [of "tq_prev m" Q h k xs ys])
        (use Q hk h k rk(3,7) Cons in \<open>auto simp: tailq_def\<close>)
    show "tails (tq_last ?m) (Q(h \<mapsto> xs @ ys, k \<mapsto> []))"
      unfolding t using Q hk h k Cons by (intro tails_concat) (auto simp: tailq_def)
    show "dom (tq_get ?m) = dom (tq_get m)" unfolding g using rh rk by auto
  qed
qed

lemma TAILQ_SWAP_lists:
  assumes Q: "tailq m Q" and hk: "h \<noteq> k" and h: "Q h = Some xs" and k: "Q k = Some ys"
  shows "tq_ok m (Q(h \<mapsto> ys, k \<mapsto> xs)) (TAILQ_SWAP h k m)"
proof -
  note rh = tailq_read [OF Q h] and rk = tailq_read [OF Q k]
  have dis: "set xs \<inter> set ys = {}" by (rule separateD [OF rh(7) hk h k])
  let ?m1 = "tq_upd_last k (end_link (At_head h) xs) (tq_upd (At_head k) (first_ptr xs)
      (tq_upd_last h (end_link (At_head k) ys) (tq_upd (At_head h) (first_ptr ys) m)))"
  let ?m2 = "case ys of [] \<Rightarrow> tq_upd_last h (At_head h) ?m1 | y # _ \<Rightarrow> tq_upd_prev y (At_head h) ?m1"
  let ?m = "case xs of [] \<Rightarrow> tq_upd_last k (At_head k) ?m2 | x # _ \<Rightarrow> tq_upd_prev x (At_head k) ?m2"
  have g: "tq_get ?m = (tq_get m)(At_head h \<mapsto> first_ptr ys, At_head k \<mapsto> first_ptr xs)"
    using rh rk hk by (cases xs; cases ys) auto
  have p: "tq_prev ?m = (case xs of [] \<Rightarrow> \<lambda>f. f | x # _ \<Rightarrow> \<lambda>f. f(x \<mapsto> At_head k))
      (case ys of [] \<Rightarrow> tq_prev m | y # _ \<Rightarrow> (tq_prev m)(y \<mapsto> At_head h))"
    using rh rk dis by (cases xs; cases ys) auto
  show ?thesis
  proof (rule tq_okI [of _ ?m])
    show "TAILQ_SWAP h k m = Some ?m"
      using rh rk hk dis by (cases xs; cases ys) (auto simp: TAILQ_SWAP_def tq_simps)
    show "links (tq_get ?m) (Q(h \<mapsto> ys, k \<mapsto> xs))"
      unfolding g using Q hk h k by (intro links_swap) (auto simp: tailq_def)
    show "backs (tq_prev ?m) (Q(h \<mapsto> ys, k \<mapsto> xs))"
      unfolding p by (rule backs_swap [of "tq_prev m" Q h k xs ys])
        (use Q hk h k rh(3,7) rk(3) dis in \<open>cases xs; cases ys; auto simp: tailq_def\<close>)+
    show "tails (tq_last ?m) (Q(h \<mapsto> ys, k \<mapsto> xs))"
      by (rule tails_swap [of "tq_last m" Q h k xs ys])
        (use Q hk h k rh rk in \<open>cases xs; cases ys; auto simp: tailq_def\<close>)+
    show "dom (tq_get ?m) = dom (tq_get m)" unfolding g using rh rk by auto
  qed
qed

section \<open>The family\<close>

text \<open>The operations of the table in the header of the file that are available for this family.\<close>

fun tailq_offers :: "queue_op \<Rightarrow> bool" where
  "tailq_offers (Q_remove_head _) = False"
| "tailq_offers (Q_remove_after _ _) = False"
| "tailq_offers _ = True"

fun tailq_op :: "bool \<Rightarrow> queue_op \<Rightarrow> tailq_mem \<Rightarrow> tailq_mem option" where
  "tailq_op K (Q_init h) m = TAILQ_INIT h m"
| "tailq_op K (Q_insert_head h a) m = TAILQ_INSERT_HEAD K h (Some a) m"
| "tailq_op K (Q_insert_tail h a) m = TAILQ_INSERT_TAIL K h (Some a) m"
| "tailq_op K (Q_insert_after h b a) m = TAILQ_INSERT_AFTER K h (Some b) (Some a) m"
| "tailq_op K (Q_insert_before h b a) m = TAILQ_INSERT_BEFORE K (Some b) (Some a) m"
| "tailq_op K (Q_remove h a) m = TAILQ_REMOVE K h (Some a) m"
| "tailq_op K (Q_remove_head h) m = None"
| "tailq_op K (Q_remove_after h b) m = None"
| "tailq_op K (Q_concat h k) m = TAILQ_CONCAT h k m"
| "tailq_op K (Q_swap h k) m = TAILQ_SWAP h k m"

lemma tailq_op_ok:
  assumes "tailq m Q" and "tailq_offers op"
    and "spec_op (tq_head_set m) (tq_elem_set m) op Q = Some Q'"
  shows "tq_ok m Q' (tailq_op K op m)"
proof (cases op)
  case (Q_remove h a)
  then obtain us ws where "Q h = Some (us @ a # ws)" "Q' = Q(h \<mapsto> us @ ws)"
    using assms(3) by (auto simp: bind_eq_Some_conv remove1_append split: if_splits elim!: splitE)
  with Q_remove TAILQ_REMOVE_lists [OF assms(1)] show ?thesis by simp
next
  case (Q_insert_after h b a)
  then obtain us ws where "Q h = Some (us @ b # ws)" "Q' = Q(h \<mapsto> us @ b # a # ws)"
      "a \<in> tq_elem_set m" "a \<notin> members Q"
    using assms(3) by (auto simp: bind_eq_Some_conv split: if_splits elim!: splitE)
  with Q_insert_after TAILQ_INSERT_AFTER_lists [OF assms(1)] show ?thesis by simp
next
  case (Q_insert_before h b a)
  then obtain us ws where "Q h = Some (us @ b # ws)" "Q' = Q(h \<mapsto> us @ a # b # ws)"
      "a \<in> tq_elem_set m" "a \<notin> members Q"
    using assms(3) by (auto simp: bind_eq_Some_conv split: if_splits elim!: splitE)
  with Q_insert_before TAILQ_INSERT_BEFORE_lists [OF assms(1)] show ?thesis by simp
qed (use assms TAILQ_INIT_lists TAILQ_INSERT_HEAD_lists TAILQ_INSERT_TAIL_lists TAILQ_CONCAT_lists TAILQ_SWAP_lists
    in \<open>auto simp: bind_eq_Some_conv split: if_splits\<close>)

text \<open>The casts find the last element and the one before an element.\<close>

lemma tq_cast_end:
  assumes "tailq m Q" and "Q h = Some (us @ ws)"
  shows "\<exists>k. tq_cast_last m (end_link (At_head h) us) = Some k \<and> tq_get m k = Some (link_elem (end_link (At_head h) us))"
proof (cases us rule: rev_cases)
  case Nil
  then show ?thesis using tailq_read [OF assms] by (simp add: tq_cast_last_def link_elem_def)
next
  case (snoc vs b)
  then show ?thesis using tailq_read(5,6) [OF assms] by (simp add: tq_cast_last_def link_elem_def)
qed

lemma TAILQ_LAST_lists:
  assumes "tailq m Q" and "Q h = Some xs"
  shows "TAILQ_LAST m h = Some (first_ptr (rev xs))"
  using tq_cast_end [of m Q h xs "[]"] assms tailq_read(8) [OF assms]
  by (auto simp: TAILQ_LAST_def link_elem_end)

lemma TAILQ_PREV_lists:
  assumes "tailq m Q" and "Q h = Some xs"
  shows "visits (TAILQ_PREV m) (rev xs)"
  using tailq_read(6) [OF assms]
proof (rule backed_visits_rev)
  fix a us ws
  assume "xs = us @ a # ws" and "tq_prev m a = Some (end_link (At_head h) us)"
  then show "TAILQ_PREV m (Some a) = Some (link_elem (end_link (At_head h) us))"
    using tq_cast_end [of m Q h us "a # ws"] assms by (auto simp: TAILQ_PREV_def)
qed

interpretation tlq: reversible_family tailq "tailq_op K" tailq_offers tq_head_set tq_elem_set
  TAILQ_FIRST TAILQ_NEXT TAILQ_LAST TAILQ_PREV for K
proof
  show "\<exists>m'. tailq_op K op m = Some m' \<and> tailq m' Q' \<and>
      tq_head_set m' = tq_head_set m \<and> tq_elem_set m' = tq_elem_set m"
    if "tailq m Q" "tailq_offers op" "spec_op (tq_head_set m) (tq_elem_set m) op Q = Some Q'" for m Q op Q'
    using tailq_op_ok [OF that] by (simp add: tq_ok_def)
qed (simp_all add: TAILQ_FIRST_def tailq_read TAILQ_LAST_lists TAILQ_PREV_lists)

text \<open>The checks of the head and of the elements hold exactly when the back pointers are right.\<close>

lemma tailq_checks_backed:
  assumes "linked (tq_get m) (At_head h) xs"
  shows "backed (tq_prev m) (At_head h) xs \<longleftrightarrow>
    QMD_TAILQ_CHECK_HEAD m h = Some True \<and> (\<forall>a \<in> set xs. QMD_TAILQ_CHECK_NEXT m (Some a) = Some True)"
proof -
  have "QMD_TAILQ_CHECK_HEAD m h = Some True \<longleftrightarrow>
      (\<forall>a. tq_get m (At_head h) = Some (Some a) \<longrightarrow> tq_prev m a = Some (At_head h))"
    using linked_read [OF assms]
    by (cases xs) (auto simp: tq_simps bind_eq_Some_conv split: option.splits)
  moreover have "QMD_TAILQ_CHECK_NEXT m (Some a) = Some True \<longleftrightarrow>
      (\<forall>b. tq_get m (At_elem a) = Some (Some b) \<longrightarrow> tq_prev m b = Some (At_elem a))" if "a \<in> set xs" for a
    using linked_defined [OF assms that]
    by (auto simp: tq_simps bind_eq_Some_conv split: option.splits)
  ultimately show ?thesis using backed_iff_next [OF assms, of "tq_prev m"] by auto
qed

text \<open>The memory of heads and elements that are in no list yet.\<close>

definition tailq_start :: "nat list \<Rightarrow> addr list \<Rightarrow> tailq_mem" where
  "tailq_start hs as =
     \<lparr>tq_heads = (\<lambda>h. if h \<in> set hs then Some (TAILQ_HEAD_INITIALIZER h) else None),
      tq_elems = (\<lambda>a. if a \<in> set as then Some \<lparr>tqe_next = NULL, tqe_prev = At_elem a\<rparr> else None)\<rparr>"

lemma tailq_start:
  "tailq (tailq_start hs as) (\<lambda>h. if h \<in> set hs then Some [] else None)"
  "tq_head_set (tailq_start hs as) = set hs" "tq_elem_set (tailq_start hs as) = set as"
  by (auto simp: tailq_def links_def backs_def tails_def separate_def tailq_start_def TAILQ_HEAD_INITIALIZER_def
      tq_get.simps tq_prev_def tq_last_def tq_head_set_def tq_elem_set_def split: if_splits)

end
