(* ===== verification/Queue_Debug.thy ===== *)
theory Queue_Debug
  imports Stailq Queue_List Tailq Slist
begin

text \<open>
  The macros of \<open>server/queue.h\<close> as they are when \<open>QUEUE_MACRO_DEBUG\<close> is defined: the heads and
  the entries of a tail queue keep the last two places where they were altered, and a removal
  overwrites the pointers of the removed element with \<open>(void *)-1\<close>. The operations of this build are those
  of the other one, followed by this and by the traces, and none of the lists changes.
\<close>

section \<open>Traces\<close>

text \<open>
  A place is the value of \<open>__LINE__\<close> and of \<open>__FILE__\<close>, which in a nested macro are those of the
  outermost call. The address \<open>(void *)-1\<close> is no object; as a back pointer it is the
  address of a link that is not there.
\<close>

type_synonym place = "nat \<times> string"

record qm_trace =
  lastline :: nat
  prevline :: nat
  lastfile :: "string option"
  prevfile :: "string option"

definition TRACEBUF_INITIALIZER :: "place \<Rightarrow> qm_trace" where
  "TRACEBUF_INITIALIZER pl = \<lparr>lastline = fst pl, prevline = 0, lastfile = Some (snd pl), prevfile = None\<rparr>"

definition trashed :: addr where
  "trashed = 2 ^ 64 - 1"

record tailq_debug =
  tqd_mem :: tailq_mem
  tqd_heads :: "nat \<rightharpoonup> qm_trace"
  tqd_elems :: "addr \<rightharpoonup> qm_trace"

definition trace_here :: "place \<Rightarrow> qm_trace \<Rightarrow> qm_trace" where
  "trace_here pl t =
     (let t = t\<lparr>prevline := lastline t\<rparr>;
          t = t\<lparr>prevfile := lastfile t\<rparr>;
          t = t\<lparr>lastline := fst pl\<rparr>
      in t\<lparr>lastfile := Some (snd pl)\<rparr>)"

definition QMD_TRACE_HEAD :: "place \<Rightarrow> nat \<Rightarrow> tailq_debug \<Rightarrow> tailq_debug option" where
  "QMD_TRACE_HEAD pl head d =
     do { t \<leftarrow> tqd_heads d head; Some (d\<lparr>tqd_heads := (tqd_heads d)(head \<mapsto> trace_here pl t)\<rparr>) }"

definition QMD_TRACE_ELEM :: "place \<Rightarrow> ptr \<Rightarrow> tailq_debug \<Rightarrow> tailq_debug option" where
  "QMD_TRACE_ELEM pl elem d =
     do { a \<leftarrow> elem;
          t \<leftarrow> tqd_elems d a;
          Some (d\<lparr>tqd_elems := (tqd_elems d)(a \<mapsto> trace_here pl t)\<rparr>) }"

text \<open>A statement that works on the pointers only.\<close>

definition on_mem :: "(tailq_mem \<Rightarrow> tailq_mem option) \<Rightarrow> tailq_debug \<Rightarrow> tailq_debug option" where
  "on_mem f d = do { m \<leftarrow> f (tqd_mem d); Some (d\<lparr>tqd_mem := m\<rparr>) }"

section \<open>The macros of the tail queue\<close>

definition debug_TAILQ_INIT :: "place \<Rightarrow> nat \<Rightarrow> tailq_debug \<Rightarrow> tailq_debug option" where
  "debug_TAILQ_INIT pl head d =
     do { d \<leftarrow> on_mem (tq_put (At_head head) NULL) d;
          d \<leftarrow> on_mem (tq_set_last head (At_head head)) d;
          QMD_TRACE_HEAD pl head d }"

definition debug_TAILQ_CONCAT :: "place \<Rightarrow> nat \<Rightarrow> nat \<Rightarrow> tailq_debug \<Rightarrow> tailq_debug option" where
  "debug_TAILQ_CONCAT pl head1 head2 d =
     do { empty \<leftarrow> TAILQ_EMPTY (tqd_mem d) head2;
          if \<not> empty
          then do { l \<leftarrow> tq_last (tqd_mem d) head1;
                    p \<leftarrow> TAILQ_FIRST (tqd_mem d) head2;
                    d \<leftarrow> on_mem (tq_put l p) d;
                    p \<leftarrow> TAILQ_FIRST (tqd_mem d) head2;
                    l \<leftarrow> tq_last (tqd_mem d) head1;
                    d \<leftarrow> on_mem (tq_set_prev p l) d;
                    l2 \<leftarrow> tq_last (tqd_mem d) head2;
                    d \<leftarrow> on_mem (tq_set_last head1 l2) d;
                    d \<leftarrow> debug_TAILQ_INIT pl head2 d;
                    d \<leftarrow> QMD_TRACE_HEAD pl head1 d;
                    QMD_TRACE_HEAD pl head2 d }
          else Some d }"

definition debug_TAILQ_INSERT_AFTER ::
    "place \<Rightarrow> bool \<Rightarrow> nat \<Rightarrow> ptr \<Rightarrow> ptr \<Rightarrow> tailq_debug \<Rightarrow> tailq_debug option" where
  "debug_TAILQ_INSERT_AFTER pl invariants head listelm elm d =
     do { qmd_check invariants (QMD_TAILQ_CHECK_NEXT (tqd_mem d) listelm);
          e \<leftarrow> elm;
          t \<leftarrow> listelm;
          n \<leftarrow> TAILQ_NEXT (tqd_mem d) listelm;
          d \<leftarrow> on_mem (tq_put (At_elem e) n) d;
          d \<leftarrow> (if n \<noteq> NULL
                 then do { q \<leftarrow> TAILQ_NEXT (tqd_mem d) elm; on_mem (tq_set_prev q (At_elem e)) d }
                 else do { d \<leftarrow> on_mem (tq_set_last head (At_elem e)) d; QMD_TRACE_HEAD pl head d });
          d \<leftarrow> on_mem (tq_put (At_elem t) elm) d;
          d \<leftarrow> on_mem (tq_set_prev elm (At_elem t)) d;
          d \<leftarrow> QMD_TRACE_ELEM pl elm d;
          QMD_TRACE_ELEM pl listelm d }"

definition debug_TAILQ_INSERT_BEFORE ::
    "place \<Rightarrow> bool \<Rightarrow> ptr \<Rightarrow> ptr \<Rightarrow> tailq_debug \<Rightarrow> tailq_debug option" where
  "debug_TAILQ_INSERT_BEFORE pl invariants listelm elm d =
     do { d \<leftarrow> on_mem (TAILQ_INSERT_BEFORE invariants listelm elm) d;
          d \<leftarrow> QMD_TRACE_ELEM pl elm d;
          QMD_TRACE_ELEM pl listelm d }"

definition debug_TAILQ_INSERT_HEAD :: "place \<Rightarrow> bool \<Rightarrow> nat \<Rightarrow> ptr \<Rightarrow> tailq_debug \<Rightarrow> tailq_debug option" where
  "debug_TAILQ_INSERT_HEAD pl invariants head elm d =
     do { d \<leftarrow> on_mem (TAILQ_INSERT_HEAD invariants head elm) d;
          d \<leftarrow> QMD_TRACE_HEAD pl head d;
          QMD_TRACE_ELEM pl elm d }"

definition debug_TAILQ_INSERT_TAIL :: "place \<Rightarrow> bool \<Rightarrow> nat \<Rightarrow> ptr \<Rightarrow> tailq_debug \<Rightarrow> tailq_debug option" where
  "debug_TAILQ_INSERT_TAIL pl invariants head elm d =
     do { d \<leftarrow> on_mem (TAILQ_INSERT_TAIL invariants head elm) d;
          d \<leftarrow> QMD_TRACE_HEAD pl head d;
          QMD_TRACE_ELEM pl elm d }"

text \<open>\<open>QMD_SAVELINK\<close> keeps the addresses of the two fields of the element, where \<open>TRASHIT\<close> writes.\<close>

definition debug_TAILQ_REMOVE :: "place \<Rightarrow> bool \<Rightarrow> nat \<Rightarrow> ptr \<Rightarrow> tailq_debug \<Rightarrow> tailq_debug option" where
  "debug_TAILQ_REMOVE pl invariants head elm d =
     do { oldnext \<leftarrow> map_option At_elem elm;
          let oldprev = elm;
          qmd_check invariants (QMD_TAILQ_CHECK_NEXT (tqd_mem d) elm);
          qmd_check invariants (QMD_TAILQ_CHECK_PREV (tqd_mem d) elm);
          e \<leftarrow> elm;
          n \<leftarrow> TAILQ_NEXT (tqd_mem d) elm;
          l \<leftarrow> tq_prev (tqd_mem d) e;
          d \<leftarrow> (if n \<noteq> NULL then on_mem (tq_set_prev n l) d
                 else do { d \<leftarrow> on_mem (tq_set_last head l) d; QMD_TRACE_HEAD pl head d });
          l \<leftarrow> tq_prev (tqd_mem d) e;
          n \<leftarrow> TAILQ_NEXT (tqd_mem d) elm;
          d \<leftarrow> on_mem (tq_put l n) d;
          d \<leftarrow> on_mem (tq_put oldnext (Some trashed)) d;
          d \<leftarrow> on_mem (tq_set_prev oldprev (At_elem trashed)) d;
          QMD_TRACE_ELEM pl elm d }"

text \<open>\<open>TAILQ_SWAP\<close> has no trace.\<close>

fun debug_tailq_op :: "place \<Rightarrow> bool \<Rightarrow> queue_op \<Rightarrow> tailq_debug \<Rightarrow> tailq_debug option" where
  "debug_tailq_op pl K (Q_init h) d = debug_TAILQ_INIT pl h d"
| "debug_tailq_op pl K (Q_insert_head h a) d = debug_TAILQ_INSERT_HEAD pl K h (Some a) d"
| "debug_tailq_op pl K (Q_insert_tail h a) d = debug_TAILQ_INSERT_TAIL pl K h (Some a) d"
| "debug_tailq_op pl K (Q_insert_after h b a) d = debug_TAILQ_INSERT_AFTER pl K h (Some b) (Some a) d"
| "debug_tailq_op pl K (Q_insert_before h b a) d = debug_TAILQ_INSERT_BEFORE pl K (Some b) (Some a) d"
| "debug_tailq_op pl K (Q_remove h a) d = debug_TAILQ_REMOVE pl K h (Some a) d"
| "debug_tailq_op pl K (Q_remove_head h) d = None"
| "debug_tailq_op pl K (Q_remove_after h b) d = None"
| "debug_tailq_op pl K (Q_concat h k) d = debug_TAILQ_CONCAT pl h k d"
| "debug_tailq_op pl K (Q_swap h k) d = on_mem (TAILQ_SWAP h k) d"

section \<open>Removal in the other families\<close>

definition debug_SLIST_REMOVE :: "ptr \<Rightarrow> 'd slist \<Rightarrow> 'd slist option" where
  "debug_SLIST_REMOVE elm l = do { l \<leftarrow> SLIST_REMOVE elm l; set_next l elm (Some trashed) }"

definition debug_STAILQ_REMOVE :: "nat \<Rightarrow> ptr \<Rightarrow> stailq_mem \<Rightarrow> stailq_mem option" where
  "debug_STAILQ_REMOVE head elm m =
     do { oldnext \<leftarrow> map_option At_elem elm;
          m \<leftarrow> STAILQ_REMOVE head elm m;
          stq_put oldnext (Some trashed) m }"

definition debug_LIST_REMOVE :: "bool \<Rightarrow> ptr \<Rightarrow> list_mem \<Rightarrow> list_mem option" where
  "debug_LIST_REMOVE invariants elm m =
     do { oldnext \<leftarrow> map_option At_elem elm;
          let oldprev = elm;
          m \<leftarrow> LIST_REMOVE invariants elm m;
          m \<leftarrow> lst_put oldnext (Some trashed) m;
          lst_set_prev oldprev (At_elem trashed) m }"

section \<open>What the debugging build adds\<close>

text \<open>The traces belong to the heads and the elements of the memory; no element is at \<open>(void *)-1\<close>.\<close>

definition traced :: "tailq_debug \<Rightarrow> bool" where
  "traced d \<longleftrightarrow> dom (tqd_heads d) = tq_head_set (tqd_mem d) \<and> dom (tqd_elems d) = tq_elem_set (tqd_mem d) \<and>
     trashed \<notin> tq_elem_set (tqd_mem d)"

fun touch :: "place \<Rightarrow> link \<Rightarrow> tailq_debug \<Rightarrow> tailq_debug" where
  "touch pl (At_head h) d = d\<lparr>tqd_heads := (tqd_heads d)(h := map_option (trace_here pl) (tqd_heads d h))\<rparr>"
| "touch pl (At_elem a) d = d\<lparr>tqd_elems := (tqd_elems d)(a := map_option (trace_here pl) (tqd_elems d a))\<rparr>"

text \<open>The heads and the elements an operation traces, in order.\<close>

fun op_traces :: "lists \<Rightarrow> queue_op \<Rightarrow> link list" where
  "op_traces Q (Q_init h) = [At_head h]"
| "op_traces Q (Q_insert_head h a) = [At_head h, At_elem a]"
| "op_traces Q (Q_insert_tail h a) = [At_head h, At_elem a]"
| "op_traces Q (Q_insert_after h b a) =
     (if last (the (Q h)) = b then [At_head h] else []) @ [At_elem a, At_elem b]"
| "op_traces Q (Q_insert_before h b a) = [At_elem a, At_elem b]"
| "op_traces Q (Q_remove h a) = (if last (the (Q h)) = a then [At_head h] else []) @ [At_elem a]"
| "op_traces Q (Q_concat h k) = (if Q k = Some [] then [] else [At_head k, At_head h, At_head k])"
| "op_traces Q _ = []"

fun op_trash :: "queue_op \<Rightarrow> tailq_mem \<Rightarrow> tailq_mem" where
  "op_trash (Q_remove h a) m = tq_upd_prev a (At_elem trashed) (tq_upd (At_elem a) (Some trashed) m)"
| "op_trash _ m = m"

lemma touch_parts [simp]:
  "tqd_mem (touch pl l d) = tqd_mem d" "touch pl l (d\<lparr>tqd_mem := m\<rparr>) = (touch pl l d)\<lparr>tqd_mem := m\<rparr>"
  "dom (tqd_heads (touch pl l d)) = dom (tqd_heads d)" "dom (tqd_elems (touch pl l d)) = dom (tqd_elems d)"
  by (cases l; auto split: if_splits)+

lemma fold_touch_parts [simp]:
  "tqd_mem (fold (touch pl) ls d) = tqd_mem d"
  "dom (tqd_heads (fold (touch pl) ls d)) = dom (tqd_heads d)"
  "dom (tqd_elems (fold (touch pl) ls d)) = dom (tqd_elems d)"
  by (induction ls arbitrary: d) simp_all

declare touch.simps [simp del]

lemma trace_touch [simp]:
  "h \<in> dom (tqd_heads d) \<Longrightarrow> QMD_TRACE_HEAD pl h d = Some (touch pl (At_head h) d)"
  "a \<in> dom (tqd_elems d) \<Longrightarrow> QMD_TRACE_ELEM pl (Some a) d = Some (touch pl (At_elem a) d)"
  by (auto simp: QMD_TRACE_HEAD_def QMD_TRACE_ELEM_def touch.simps)

lemma on_mem_Some [simp]: "f (tqd_mem d) = Some m \<Longrightarrow> on_mem f d = Some (d\<lparr>tqd_mem := m\<rparr>)"
  by (simp add: on_mem_def)

lemma tq_accessed:
  "tq_set_last h l m = Some m' \<Longrightarrow> h \<in> tq_head_set m"
  "tq_put (At_head h) p m = Some m' \<Longrightarrow> h \<in> tq_head_set m"
  "tq_put (At_elem a) p m = Some m' \<Longrightarrow> a \<in> tq_elem_set m"
  by (auto simp: tq_set_last_def tq_put_def tq_head_set_def tq_elem_set_def tq_get.simps split: if_splits)

lemma tq_sets_upd [simp]:
  "tq_head_set (tq_upd l p m) = tq_head_set m" "tq_elem_set (tq_upd l p m) = tq_elem_set m"
  "tq_head_set (tq_upd_prev a l m) = tq_head_set m" "tq_elem_set (tq_upd_prev a l m) = tq_elem_set m"
  "tq_head_set (tq_upd_last h l m) = tq_head_set m" "tq_elem_set (tq_upd_last h l m) = tq_elem_set m"
  by (cases l; auto simp: tq_head_set_def tq_elem_set_def tq_get.simps tq_upd.simps split: if_splits)+

lemma tq_sets_kept:
  "tq_put l p m = Some m' \<Longrightarrow> tq_head_set m' = tq_head_set m \<and> tq_elem_set m' = tq_elem_set m"
  "tq_set_prev q l m = Some m' \<Longrightarrow> tq_head_set m' = tq_head_set m \<and> tq_elem_set m' = tq_elem_set m"
  "tq_set_last h l m = Some m' \<Longrightarrow> tq_head_set m' = tq_head_set m \<and> tq_elem_set m' = tq_elem_set m"
  by (auto simp: tq_put_def tq_set_prev_def tq_set_last_def bind_eq_Some_conv split: if_splits)

section \<open>The two builds agree\<close>

lemma debug_INIT_agrees:
  assumes "traced d" and "TAILQ_INIT h (tqd_mem d) = Some m"
  shows "debug_TAILQ_INIT pl h d = Some (touch pl (At_head h) (d\<lparr>tqd_mem := m\<rparr>))"
proof -
  obtain m1 where m1: "tq_put (At_head h) NULL (tqd_mem d) = Some m1" "tq_set_last h (At_head h) m1 = Some m"
    using assms(2) by (auto simp: TAILQ_INIT_def bind_eq_Some_conv)
  then show ?thesis using assms(1) tq_accessed(2) [OF m1(1)] by (simp add: debug_TAILQ_INIT_def traced_def)
qed

lemma debug_INSERT_AFTER_agrees:
  assumes d: "traced d" and m: "TAILQ_INSERT_AFTER K h (Some b) (Some a) (tqd_mem d) = Some m"
    and n: "TAILQ_NEXT (tqd_mem d) (Some b) = Some n"
  shows "debug_TAILQ_INSERT_AFTER pl K h (Some b) (Some a) d =
    Some (fold (touch pl) ((if n = NULL then [At_head h] else []) @ [At_elem a, At_elem b]) (d\<lparr>tqd_mem := m\<rparr>))"
proof -
  obtain m1 m2 m3 where m: "qmd_check K (QMD_TAILQ_CHECK_NEXT (tqd_mem d) (Some b)) = Some ()"
      "tq_put (At_elem a) n (tqd_mem d) = Some m1"
      "(if n \<noteq> NULL then do { q \<leftarrow> TAILQ_NEXT m1 (Some a); tq_set_prev q (At_elem a) m1 }
        else tq_set_last h (At_elem a) m1) = Some m2"
      "tq_put (At_elem b) (Some a) m2 = Some m3" "tq_set_prev (Some a) (At_elem b) m3 = Some m"
    using m n by (auto simp: TAILQ_INSERT_AFTER_def bind_eq_Some_conv)
  have k: "tq_head_set m2 = tq_head_set m1" "tq_elem_set m2 = tq_elem_set m1"
    using m(3) by (auto simp: bind_eq_Some_conv dest: tq_sets_kept split: if_splits)
  have e: "a \<in> dom (tqd_elems d)" "b \<in> dom (tqd_elems d)"
    using d tq_accessed(3) [OF m(2)] tq_accessed(3) [OF m(4)] tq_sets_kept(1) [OF m(2)] k by (simp_all add: traced_def)
  show ?thesis
  proof (cases "n = NULL")
    case True
    then have "h \<in> dom (tqd_heads d)"
      using d m(3) tq_sets_kept(1) [OF m(2)] by (auto simp: traced_def dest: tq_accessed)
    with True m n e show ?thesis by (simp add: debug_TAILQ_INSERT_AFTER_def)
  next
    case False
    then obtain q where "TAILQ_NEXT m1 (Some a) = Some q" "tq_set_prev q (At_elem a) m1 = Some m2"
      using m(3) by (auto simp: bind_eq_Some_conv)
    with False m(1,2,4,5) n e show ?thesis by (auto simp: debug_TAILQ_INSERT_AFTER_def)
  qed
qed

lemma debug_REMOVE_agrees:
  assumes d: "traced d" and m: "TAILQ_REMOVE K h (Some a) (tqd_mem d) = Some m"
    and n: "TAILQ_NEXT (tqd_mem d) (Some a) = Some n" and a: "a \<in> tq_elem_set (tqd_mem d)" "a \<in> tq_elem_set m"
  shows "debug_TAILQ_REMOVE pl K h (Some a) d =
    Some (fold (touch pl) ((if n = NULL then [At_head h] else []) @ [At_elem a])
      (d\<lparr>tqd_mem := op_trash (Q_remove h a) m\<rparr>))"
proof -
  obtain p where p: "tq_get m (At_elem a) = Some p" using a(2) by (auto simp: tq_elem_set_def)
  then obtain k where k: "tq_prev m a = Some k" using tq_prev_defined by blast
  obtain m1 l l1 n1 where m: "qmd_check K (QMD_TAILQ_CHECK_NEXT (tqd_mem d) (Some a)) = Some ()"
      "qmd_check K (QMD_TAILQ_CHECK_PREV (tqd_mem d) (Some a)) = Some ()" "tq_prev (tqd_mem d) a = Some l"
      "(if n \<noteq> NULL then tq_set_prev n l (tqd_mem d) else tq_set_last h l (tqd_mem d)) = Some m1"
      "tq_prev m1 a = Some l1" "TAILQ_NEXT m1 (Some a) = Some n1" "tq_put l1 n1 m1 = Some m"
    using m n by (auto simp: TAILQ_REMOVE_def bind_eq_Some_conv)
  have e: "a \<in> dom (tqd_elems d)" using d a(1) by (simp add: traced_def)
  have "h \<in> dom (tqd_heads d)" if "n = NULL" using that d m(4) by (auto simp: traced_def dest: tq_accessed)
  with m n e p k show ?thesis by (cases "n = NULL") (auto simp: debug_TAILQ_REMOVE_def)
qed

lemma debug_CONCAT_agrees:
  assumes d: "traced d" and m: "TAILQ_CONCAT h k (tqd_mem d) = Some m" and n: "TAILQ_EMPTY (tqd_mem d) k = Some none"
  shows "debug_TAILQ_CONCAT pl h k d =
    Some (fold (touch pl) (if none then [] else [At_head k, At_head h, At_head k]) (d\<lparr>tqd_mem := m\<rparr>))"
proof (cases none)
  case True
  then show ?thesis using m n by (simp add: TAILQ_CONCAT_def debug_TAILQ_CONCAT_def)
next
  case False
  then obtain l p m1 q l1 m2 l2 m3 where m: "tq_last (tqd_mem d) h = Some l" "TAILQ_FIRST (tqd_mem d) k = Some p"
      "tq_put l p (tqd_mem d) = Some m1" "TAILQ_FIRST m1 k = Some q" "tq_last m1 h = Some l1"
      "tq_set_prev q l1 m1 = Some m2" "tq_last m2 k = Some l2" "tq_set_last h l2 m2 = Some m3"
      "TAILQ_INIT k m3 = Some m"
    using m n by (auto simp: TAILQ_CONCAT_def bind_eq_Some_conv)
  let ?d = "d\<lparr>tqd_mem := m3\<rparr>"
  note kept = tq_sets_kept(1) [OF m(3)] tq_sets_kept(2) [OF m(6)] tq_sets_kept(3) [OF m(8)]
  have t: "traced ?d" using d kept by (simp add: traced_def)
  have "h \<in> dom (tqd_heads d)" using d kept tq_accessed(1) [OF m(8)] by (simp add: traced_def)
  moreover have "k \<in> dom (tqd_heads d)"
    using t m(9) by (auto simp: traced_def TAILQ_INIT_def bind_eq_Some_conv dest: tq_accessed)
  ultimately show ?thesis
    using False m n debug_INIT_agrees [OF t, of k m pl] by (simp add: debug_TAILQ_CONCAT_def)
qed

text \<open>
  Where the pointers of a memory that holds lists lead: an element has no next one exactly when it
  is the last of its list.
\<close>

lemma tailq_next_last:
  assumes "tailq m Q" and "Q h = Some (us @ b # ws)"
  shows "TAILQ_NEXT m (Some b) = Some (first_ptr ws)" and "first_ptr ws = NULL \<longleftrightarrow> last (us @ b # ws) = b"
proof -
  note r = tailq_read [OF assms]
  show "TAILQ_NEXT m (Some b) = Some (first_ptr ws)"
    using r(4) by (auto dest: visits_suffix)
  show "first_ptr ws = NULL \<longleftrightarrow> last (us @ b # ws) = b"
    using r(3) by (cases ws rule: rev_cases) (auto split: list.splits)
qed

text \<open>Overwriting the pointers of an element that is in no list changes none.\<close>

lemma trash_keeps:
  assumes "tailq m Q" and "a \<notin> members Q" and "a \<in> tq_elem_set m"
  shows "tailq (op_trash (Q_remove h a) m) Q"
proof -
  obtain p where p: "tq_get m (At_elem a) = Some p" using assms(3) by (auto simp: tq_elem_set_def)
  then obtain l where l: "tq_prev m a = Some l" using tq_prev_defined by blast
  show ?thesis using assms(1,2) p l by (simp add: tailq_def links_outside backs_outside)
qed

text \<open>One operation: the pointers are those of the other build, but for a removed element, and the traces are known.\<close>

lemma debug_op_result:
  assumes d: "traced d" and Q: "tailq (tqd_mem d) Q" and o: "tailq_offers op"
    and s: "spec_op (tq_head_set (tqd_mem d)) (tq_elem_set (tqd_mem d)) op Q = Some Q'"
    and m: "tailq_op K op (tqd_mem d) = Some m"
  shows "debug_tailq_op pl K op d = Some (fold (touch pl) (op_traces Q op) (d\<lparr>tqd_mem := op_trash op m\<rparr>))"
proof (cases op)
  case (Q_init h)
  then show ?thesis using debug_INIT_agrees [OF d] m by simp
next
  case (Q_insert_head h a)
  moreover from this have "a \<in> dom (tqd_elems d)" "h \<in> dom (tqd_heads d)"
    using d s tailq_read(1) [OF Q, of h] by (auto simp: traced_def bind_eq_Some_conv tq_head_set_def split: if_splits)
  ultimately show ?thesis using m by (simp add: debug_TAILQ_INSERT_HEAD_def)
next
  case (Q_insert_tail h a)
  moreover from this have "a \<in> dom (tqd_elems d)" "h \<in> dom (tqd_heads d)"
    using d s tailq_read(1) [OF Q, of h] by (auto simp: traced_def bind_eq_Some_conv tq_head_set_def split: if_splits)
  ultimately show ?thesis using m by (simp add: debug_TAILQ_INSERT_TAIL_def)
next
  case (Q_insert_after h b a)
  then obtain us ws where h: "Q h = Some (us @ b # ws)"
    using s by (auto simp: bind_eq_Some_conv split: if_splits elim!: splitE)
  from Q_insert_after show ?thesis
    using debug_INSERT_AFTER_agrees [OF d _ tailq_next_last(1) [OF Q h], of K h a m pl] m
      tailq_next_last(2) [OF Q h] h by simp
next
  case (Q_insert_before h b a)
  then have "a \<in> dom (tqd_elems d)" "b \<in> dom (tqd_elems d)"
    using d s linked_defined [OF tailq_read(5) [OF Q, of h]]
    by (auto simp: traced_def bind_eq_Some_conv tq_elem_set_def split: if_splits)
  with Q_insert_before show ?thesis using m by (simp add: debug_TAILQ_INSERT_BEFORE_def)
next
  case (Q_remove h a)
  then obtain us ws where h: "Q h = Some (us @ a # ws)"
    using s by (auto simp: bind_eq_Some_conv split: if_splits elim!: splitE)
  have a: "a \<in> tq_elem_set (tqd_mem d)"
    using linked_defined [OF tailq_read(5) [OF Q h], of a] by (auto simp: tq_elem_set_def)
  have "a \<in> tq_elem_set m" using tailq_op_ok [OF Q o s, of K] a m by (simp add: tq_ok_def)
  with Q_remove show ?thesis
    using debug_REMOVE_agrees [OF d _ tailq_next_last(1) [OF Q h] a, of K h m pl] m
      tailq_next_last(2) [OF Q h] h by simp
next
  case (Q_concat h k)
  then obtain ys where "Q k = Some ys" using s by (auto simp: bind_eq_Some_conv)
  moreover from this have "TAILQ_EMPTY (tqd_mem d) k = Some (ys = [])"
    using tailq_read(1) [OF Q] by (simp add: TAILQ_EMPTY_def split: list.split)
  ultimately show ?thesis using debug_CONCAT_agrees [OF d, of h k m _ pl] m Q_concat by simp
next
  case (Q_swap h k)
  then show ?thesis using m by simp
qed (use o in simp_all)

lemma debug_op_ok:
  assumes d: "traced d" and Q: "tailq (tqd_mem d) Q" and o: "tailq_offers op"
    and s: "spec_op (tq_head_set (tqd_mem d)) (tq_elem_set (tqd_mem d)) op Q = Some Q'"
  shows "\<exists>d'. debug_tailq_op pl K op d = Some d' \<and> traced d' \<and> tailq (tqd_mem d') Q' \<and>
    tq_head_set (tqd_mem d') = tq_head_set (tqd_mem d) \<and> tq_elem_set (tqd_mem d') = tq_elem_set (tqd_mem d)"
proof -
  obtain m where m: "tailq_op K op (tqd_mem d) = Some m" "tailq m Q'"
      "tq_head_set m = tq_head_set (tqd_mem d)" "tq_elem_set m = tq_elem_set (tqd_mem d)"
    using tailq_op_ok [OF Q o s, of K] by (auto simp: tq_ok_def)
  have sets: "tq_head_set (op_trash op m) = tq_head_set m" "tq_elem_set (op_trash op m) = tq_elem_set m"
    by (cases op; simp)+
  have "tailq (op_trash op m) Q'"
  proof (cases op)
    case (Q_remove h a)
    then obtain us ws where xs: "Q h = Some (us @ a # ws)" "Q' = Q(h \<mapsto> us @ ws)"
      using s by (auto simp: bind_eq_Some_conv remove1_append split: if_splits elim!: splitE)
    note r = tailq_read [OF Q xs(1)]
    have "a \<notin> members Q'" using removed_outside [OF r(7) xs(1) r(3)] xs(2) by simp
    moreover have "a \<in> tq_elem_set m"
      using linked_defined [OF r(5), of a] m(4) by (auto simp: tq_elem_set_def)
    ultimately show ?thesis using trash_keeps [OF m(2)] Q_remove by blast
  qed (use m(2) in simp_all)
  then show ?thesis
    using debug_op_result [OF d Q o s m(1), of pl] d m(3,4) sets by (simp add: traced_def)
qed

interpretation tqd: reversible_family "\<lambda>d Q. traced d \<and> tailq (tqd_mem d) Q" "debug_tailq_op pl K" tailq_offers
  "\<lambda>d. tq_head_set (tqd_mem d)" "\<lambda>d. tq_elem_set (tqd_mem d)" "\<lambda>d. TAILQ_FIRST (tqd_mem d)"
  "\<lambda>d. TAILQ_NEXT (tqd_mem d)" "\<lambda>d. TAILQ_LAST (tqd_mem d)" "\<lambda>d. TAILQ_PREV (tqd_mem d)" for pl K
proof
  show "\<exists>d'. debug_tailq_op pl K op d = Some d' \<and> (traced d' \<and> tailq (tqd_mem d') Q') \<and>
      tq_head_set (tqd_mem d') = tq_head_set (tqd_mem d) \<and> tq_elem_set (tqd_mem d') = tq_elem_set (tqd_mem d)"
    if "traced d \<and> tailq (tqd_mem d) Q" "tailq_offers op"
      "spec_op (tq_head_set (tqd_mem d)) (tq_elem_set (tqd_mem d)) op Q = Some Q'" for d Q op Q'
    using debug_op_ok [of d Q op Q' pl K] that by blast
qed (auto simp: TAILQ_FIRST_def tailq_read TAILQ_LAST_lists TAILQ_PREV_lists)

section \<open>What a client sees\<close>

text \<open>How often an operation traces a head or an element is how often the slots are shifted.\<close>

lemma trace_counts:
  "tqd_heads (fold (touch pl) ls d) h = map_option (trace_here pl ^^ count_list ls (At_head h)) (tqd_heads d h)"
  "tqd_elems (fold (touch pl) ls d) a = map_option (trace_here pl ^^ count_list ls (At_elem a)) (tqd_elems d a)"
proof (induction ls arbitrary: d)
  case (Cons l ls)
  { case 1 then show ?case using Cons by (cases l) (auto simp: touch.simps option.map_comp funpow_swap1 comp_def) }
  { case 2 then show ?case using Cons by (cases l) (auto simp: touch.simps option.map_comp funpow_swap1 comp_def) }
qed (simp_all add: option.map_id)

text \<open>Both pointers of a removed element are overwritten, and it cannot be removed once more.\<close>

lemma trashed_element:
  assumes "traced d" and "tqd_mem d = op_trash (Q_remove h a) m" and "a \<in> tq_elem_set m"
  shows "TAILQ_NEXT (tqd_mem d) (Some a) = Some (Some trashed)" and "TAILQ_NEXT (tqd_mem d) (Some trashed) = None"
    and "debug_TAILQ_REMOVE pl K k (Some a) d = None"
proof -
  obtain p where p: "tq_get m (At_elem a) = Some p" using assms(3) by (auto simp: tq_elem_set_def)
  then obtain l where l: "tq_prev m a = Some l" using tq_prev_defined by blast
  show n: "TAILQ_NEXT (tqd_mem d) (Some a) = Some (Some trashed)"
    using assms(2) p by (simp add: TAILQ_NEXT_follow follow_def)
  have t: "tq_get (tqd_mem d) (At_elem trashed) = None" using assms(1) by (auto simp: traced_def tq_elem_set_def)
  then show "TAILQ_NEXT (tqd_mem d) (Some trashed) = None" by (simp add: TAILQ_NEXT_follow follow_def)
  have "tq_set_prev (Some trashed) l' (tqd_mem d) = None" for l'
    using t by (simp add: tq_set_prev_def tq_get.simps)
  then show "debug_TAILQ_REMOVE pl K k (Some a) d = None"
    using n by (auto simp: debug_TAILQ_REMOVE_def on_mem_def bind_eq_None_conv)
qed

text \<open>Removal in the other families.\<close>

lemma debug_STAILQ_REMOVE_lists:
  assumes Q: "stailq m Q" and h: "Q h = Some (us @ a # ws)"
  shows "\<exists>m'. debug_STAILQ_REMOVE h (Some a) m = Some m' \<and> stailq m' (Q(h \<mapsto> us @ ws)) \<and>
    STAILQ_NEXT m' (Some a) = Some (Some trashed)"
proof -
  note r = stailq_read [OF Q h]
  obtain m1 where m1: "STAILQ_REMOVE h (Some a) m = Some m1" "stailq m1 (Q(h \<mapsto> us @ ws))"
      "stq_elem_set m1 = stq_elem_set m"
    using STAILQ_REMOVE_lists [OF Q h] by (auto simp: stq_ok_def)
  have "a \<in> stq_elem_set m1"
    using linked_defined [OF r(6), of a] m1(3) by (auto simp: stq_elem_set_def)
  then obtain p where p: "stq_get m1 (At_elem a) = Some p" by (auto simp: stq_elem_set_def)
  have "a \<notin> members (Q(h \<mapsto> us @ ws))"
using r(4,7) h by (intro removed_outside)
  with m1 p show ?thesis
    by (auto simp: debug_STAILQ_REMOVE_def stailq_def links_outside STAILQ_NEXT_follow follow_def)
qed

lemma debug_LIST_REMOVE_lists:
  assumes Q: "listq m Q" and h: "Q h = Some (us @ a # ws)"
  shows "\<exists>m'. debug_LIST_REMOVE K (Some a) m = Some m' \<and> listq m' (Q(h \<mapsto> us @ ws)) \<and>
    LIST_NEXT m' (Some a) = Some (Some trashed) \<and> lst_prev m' a = Some (At_elem trashed)"
proof -
  note r = listq_read [OF Q h]
  obtain m1 where m1: "LIST_REMOVE K (Some a) m = Some m1" "listq m1 (Q(h \<mapsto> us @ ws))"
      "lst_elem_set m1 = lst_elem_set m"
    using LIST_REMOVE_lists [OF Q h, of K] by (auto simp: lst_ok_def)
  obtain p where p: "lst_get m1 (At_elem a) = Some p"
    using linked_defined [OF r(5), of a] m1(3) by (auto simp: lst_elem_set_def)
  then obtain l where l: "lst_prev m1 a = Some l" using lst_prev_defined by blast
  have "a \<notin> members (Q(h \<mapsto> us @ ws))" using r(3,7) h by (intro removed_outside)
  with m1 p l show ?thesis
    by (auto simp: debug_LIST_REMOVE_def listq_def links_outside backs_outside LIST_NEXT_follow follow_def)
qed

lemma debug_SLIST_REMOVE_holds:
  assumes "slist_holds l xs" and "a \<in> set xs"
  shows "\<exists>l'. debug_SLIST_REMOVE (Some a) l = Some l' \<and> slist_holds l' (remove1 a xs) \<and>
    SLIST_NEXT l' (Some a) = Some (Some trashed)"
proof -
  obtain l1 where l1: "SLIST_REMOVE (Some a) l = Some l1" "slist_holds l1 (remove1 a xs)"
      "dom (nodes l1) = dom (nodes l)" using SLIST_REMOVE_holds [OF assms] by blast
  have d: "distinct xs" using assms(1) seg_distinct by (auto simp: slist_holds_def)
  obtain n where n: "nodes l1 a = Some n"
    using assms seg_dom l1(3) unfolding slist_holds_def by (metis domD subsetD)
  have "slist_seg ((nodes l1)(a \<mapsto> n\<lparr>sle_next := Some trashed\<rparr>)) (slh_first l1) (remove1 a xs) NULL"
    using l1(2) unfolding slist_holds_def by (rule seg_frame) (use d in auto)
  with l1 n show ?thesis by (simp add: debug_SLIST_REMOVE_def set_next_def SLIST_NEXT_def slist_holds_def)
qed

end
