(* ===== verification/Queue_Properties.thy ===== *)
theory Queue_Properties
  imports Queue_Debug
begin

text \<open>
  The properties of the queue families of \<open>server/queue.h\<close>. What a client can see of a queue are
  the elements its iterations visit and the pointers its accessors return; the theorems say that
  these are the ones of the abstract lists.
\<close>

abbreviation (input) empty_lists :: "nat list \<Rightarrow> lists" where
  "empty_lists hs \<equiv> (\<lambda>h. if h \<in> set hs then Some [] else None)"

section \<open>Refinement of lists\<close>

text \<open>
  C21: the tail queue refines lists: whatever operations it offers are run on initialised heads, if
  each is allowed on the lists (what is inserted is in no queue, what is removed is in the
  queue) then no macro follows a null or dangling pointer and no check panics, in either build; an
  iteration then visits the list of each head in order, one in reverse visits it in
  reverse, and the first and the last element are those of the list.
\<close>

theorem tailq_refines:
  assumes "list_all tailq_offers ops"
    and "fold_option (spec_op (set hs) (set as)) ops (empty_lists hs) = Some Q"
  shows "\<exists>m. fold_option (tailq_op K) ops (tailq_start hs as) = Some m \<and>
    (\<forall>h xs. Q h = Some xs \<longrightarrow>
       TAILQ_FOREACH fst h collect (m, []) = Some (m, xs) \<and>
       TAILQ_FOREACH_REVERSE fst h collect (m, []) = Some (m, rev xs) \<and>
       TAILQ_EMPTY m h = Some (xs = []) \<and>
       TAILQ_FIRST m h = Some (first_ptr xs) \<and> TAILQ_LAST m h = Some (first_ptr (rev xs)))"
proof -
  obtain m where m: "fold_option (tailq_op K) ops (tailq_start hs as) = Some m" "tailq m Q"
    using tlq.exec_all [OF tailq_start(1), of ops hs as Q K] assms by (auto simp: tailq_start)
  have obs: "TAILQ_FOREACH fst h collect (m, []) = Some (m, xs) \<and>
      TAILQ_FOREACH_REVERSE fst h collect (m, []) = Some (m, rev xs) \<and> TAILQ_EMPTY m h = Some (xs = []) \<and>
      TAILQ_FIRST m h = Some (first_ptr xs) \<and> TAILQ_LAST m h = Some (first_ptr (rev xs))"
    if "Q h = Some xs" for h xs
    using tlq.first_law [OF m(2) that] tlq.last_law [OF m(2) that] tailq_read(1) [OF m(2) that]
      tlq.collects(1) [OF m(2), of h "[]" xs] tlq.reverse_collects(1) [OF m(2), of h xs "[]"] that
    by (auto simp: TAILQ_FOREACH_def TAILQ_FOREACH_REVERSE_def TAILQ_EMPTY_def split: list.split)
  with m(1) show ?thesis by blast
qed

theorem tailq_refines_witness:
  "\<exists>m. fold_option (tailq_op True)
      [Q_insert_tail 0 10, Q_insert_head 0 11, Q_insert_before 0 10 12, Q_insert_tail 1 13, Q_concat 1 0,
       Q_remove 1 11] (tailq_start [0, 1] [10, 11, 12, 13]) = Some m \<and>
    TAILQ_FOREACH fst 1 collect (m, []) = Some (m, [13, 12, 10]) \<and>
    TAILQ_FOREACH_REVERSE fst 1 collect (m, []) = Some (m, [10, 12, 13]) \<and> TAILQ_EMPTY m 0 = Some True"
proof -
  let ?ops = "[Q_insert_tail 0 10, Q_insert_head 0 11, Q_insert_before 0 10 12, Q_insert_tail 1 13, Q_concat 1 0,
       Q_remove 1 11]"
  have "fold_option (spec_op (set [0, 1]) (set [10, 11, 12, 13])) ?ops (empty_lists [0, 1]) =
      Some ((empty_lists [0, 1])(0 \<mapsto> [], 1 \<mapsto> [13, 12, 10]))"
    using members_empty [of _ "{0, 1}"] by (simp add: members_update fun_upd_twist [of 0 1])
  from tailq_refines [OF _ this, of True] show ?thesis by fastforce
qed

text \<open>
  C22: the singly linked tail queue refines lists in the same way; its removal of any element and
  its search for the element before end.
\<close>

theorem stailq_refines:
  assumes "list_all stailq_offers ops"
    and "fold_option (spec_op (set hs) (set as)) ops (empty_lists hs) = Some Q"
  shows "\<exists>m. fold_option stailq_op ops (stailq_start hs as) = Some m \<and>
    (\<forall>h xs. Q h = Some xs \<longrightarrow>
       STAILQ_FOREACH fst h collect (m, []) = Some (m, xs) \<and>
       STAILQ_EMPTY m h = Some (xs = []) \<and> STAILQ_FIRST m h = Some (first_ptr xs) \<and>
       STAILQ_LAST m h = Some (if xs = [] then NULL else Some (last xs)))"
proof -
  obtain m where m: "fold_option stailq_op ops (stailq_start hs as) = Some m" "stailq m Q"
    using stq.exec_all [OF stailq_start(1), of ops hs as Q] assms by (auto simp: stailq_start)
  have obs: "STAILQ_FOREACH fst h collect (m, []) = Some (m, xs) \<and> STAILQ_EMPTY m h = Some (xs = []) \<and>
      STAILQ_FIRST m h = Some (first_ptr xs) \<and> STAILQ_LAST m h = Some (if xs = [] then NULL else Some (last xs))"
    if "Q h = Some xs" for h xs
    using stq.first_law [OF m(2) that] STAILQ_LAST_lists [OF m(2) that] stailq_read(1) [OF m(2) that]
      stq.collects(1) [OF m(2), of h "[]" xs] that
    by (auto simp: STAILQ_FOREACH_def STAILQ_EMPTY_def split: list.split)
  with m(1) show ?thesis by blast
qed

theorem stailq_refines_witness:
  "\<exists>m. fold_option stailq_op
      [Q_insert_tail 0 10, Q_insert_tail 0 11, Q_insert_after 0 10 12, Q_remove 0 11, Q_insert_head 1 11,
       Q_swap 0 1, Q_remove_head 1] (stailq_start [0, 1] [10, 11, 12]) = Some m \<and>
    STAILQ_FOREACH fst 0 collect (m, []) = Some (m, [11]) \<and> STAILQ_LAST m 1 = Some (Some 12)"
proof -
  let ?ops = "[Q_insert_tail 0 10, Q_insert_tail 0 11, Q_insert_after 0 10 12, Q_remove 0 11, Q_insert_head 1 11,
       Q_swap 0 1, Q_remove_head 1]"
  have "fold_option (spec_op (set [0, 1]) (set [10, 11, 12])) ?ops (empty_lists [0, 1]) =
      Some ((empty_lists [0, 1])(0 \<mapsto> [11], 1 \<mapsto> [12]))"
    using members_empty [of _ "{0, 1}"] by (simp add: members_update)
  from stailq_refines [OF _ this] show ?thesis by fastforce
qed

text \<open>
  C23: the doubly linked list refines lists in the same way, in either build, and \<open>LIST_PREV\<close> gives
  the element before an element, or the null pointer for the first.
\<close>

theorem list_refines:
  assumes "list_all list_offers ops"
    and "fold_option (spec_op (set hs) (set as)) ops (empty_lists hs) = Some Q"
  shows "\<exists>m. fold_option (list_op K) ops (list_start hs as) = Some m \<and>
    (\<forall>h xs. Q h = Some xs \<longrightarrow>
       LIST_FOREACH fst h collect (m, []) = Some (m, xs) \<and>
       LIST_EMPTY m h = Some (xs = []) \<and> LIST_FIRST m h = Some (first_ptr xs) \<and>
       (\<forall>us a ws. xs = us @ a # ws \<longrightarrow> LIST_PREV m (Some a) h = Some (first_ptr (rev us))))"
proof -
  obtain m where m: "fold_option (list_op K) ops (list_start hs as) = Some m" "listq m Q"
    using lst.exec_all [OF list_start(1), of ops hs as Q K] assms by (auto simp: list_start)
  have prev: "LIST_PREV m (Some a) h = Some (first_ptr (rev us))" if "Q h = Some (us @ a # ws)" for h us a ws
    using visits_suffix [of _ "rev ws" "a # rev us"] LIST_PREV_lists [OF m(2) that] by simp
  have obs: "LIST_FOREACH fst h collect (m, []) = Some (m, xs) \<and> LIST_EMPTY m h = Some (xs = []) \<and>
      LIST_FIRST m h = Some (first_ptr xs)" if "Q h = Some xs" for h xs
    using lst.first_law [OF m(2) that] listq_read(1) [OF m(2) that] lst.collects(1) [OF m(2), of h "[]" xs] that
    by (auto simp: LIST_FOREACH_def LIST_EMPTY_def split: list.split)
  with m(1) prev show ?thesis by blast
qed

theorem list_refines_witness:
  "\<exists>m. fold_option (list_op True)
      [Q_insert_head 0 10, Q_insert_before 0 10 11, Q_insert_after 0 10 12, Q_remove 0 10, Q_insert_head 1 10,
       Q_concat 0 1] (list_start [0, 1] [10, 11, 12]) = Some m \<and>
    LIST_FOREACH fst 0 collect (m, []) = Some (m, [11, 12, 10]) \<and> LIST_PREV m (Some 12) 0 = Some (Some 11)"
proof -
  let ?ops = "[Q_insert_head 0 10, Q_insert_before 0 10 11, Q_insert_after 0 10 12, Q_remove 0 10, Q_insert_head 1 10,
       Q_concat 0 1]"
  have "fold_option (spec_op (set [0, 1]) (set [10, 11, 12])) ?ops (empty_lists [0, 1]) =
      Some ((empty_lists [0, 1])(0 \<mapsto> [11, 12, 10], 1 \<mapsto> []))"
    using members_empty [of _ "{0, 1}"] by (simp add: members_update)
  from list_refines [OF _ this, of True] obtain m where
    m: "fold_option (list_op True) ?ops (list_start [0, 1] [10, 11, 12]) = Some m"
      "LIST_FOREACH fst 0 collect (m, []) = Some (m, [11, 12, 10])"
      "\<forall>us a ws. [11, 12, 10] = us @ a # ws \<longrightarrow> LIST_PREV m (Some a) 0 = Some (first_ptr (rev us))"
    by fastforce
  have "LIST_PREV m (Some 12) 0 = Some (Some 11)" using m(3) [rule_format, of "[11]" 12 "[10]"] by simp
  with m(1,2) show ?thesis by blast
qed

section \<open>Iterations\<close>


text \<open>A tail queue of three elements.\<close>

definition demo_tailq :: tailq_mem where
  "demo_tailq =
     \<lparr>tq_heads = [0 \<mapsto> \<lparr>tqh_first = Some 10, tqh_last = At_elem 12\<rparr>],
      tq_elems = [10 \<mapsto> \<lparr>tqe_next = Some 11, tqe_prev = At_head 0\<rparr>,
                  11 \<mapsto> \<lparr>tqe_next = Some 12, tqe_prev = At_elem 10\<rparr>,
                  12 \<mapsto> \<lparr>tqe_next = NULL, tqe_prev = At_elem 11\<rparr>]\<rparr>"

lemma demo_tailq_views: "links (tq_get demo_tailq) [0 \<mapsto> [10, 11, 12]]" "tails (tq_last demo_tailq) [0 \<mapsto> [10, 11, 12]]"
  by (auto simp: links_def tails_def separate_def demo_tailq_def tq_get.simps tq_last_def split: if_splits)

lemma demo_tailq: "tailq demo_tailq [0 \<mapsto> [10, 11, 12]]"
  using demo_tailq_views by (simp add: tailq_def backs_def) (simp add: demo_tailq_def tq_prev_def)


text \<open>
  C35: the safe iteration may remove the element it is at: removing every element in it empties the
  queue, leaves the other queues as they are and ends, for the tail queue in either build and for
  the singly linked one, whose removal searches from the head each time.
\<close>

theorem queue_emptied_by_iteration:
  assumes "tailq m Q" and "Q h = Some xs" and "stailq n R" and "R k = Some ys"
  shows "\<exists>m' n'. TAILQ_FOREACH_SAFE (\<lambda>m. m) h (\<lambda>a. TAILQ_REMOVE K h (Some a)) m = Some m' \<and>
      tailq m' (Q(h \<mapsto> [])) \<and>
      STAILQ_FOREACH_SAFE (\<lambda>n. n) k (\<lambda>a. STAILQ_REMOVE k (Some a)) n = Some n' \<and> stailq n' (R(k \<mapsto> []))"
proof -
  have ops: "(\<lambda>a. tailq_op K (Q_remove h a)) = (\<lambda>a. TAILQ_REMOVE K h (Some a))"
    "(\<lambda>a. stailq_op (Q_remove k a)) = (\<lambda>a. STAILQ_REMOVE k (Some a))" by (simp_all add: fun_eq_iff)
  show ?thesis
    using tlq.drain [OF assms(1,2), of K] stq.drain [OF assms(3,4)]
    by (auto simp: TAILQ_FOREACH_SAFE_def STAILQ_FOREACH_SAFE_def ops)
qed

theorem queue_emptied_by_iteration_witness:
  "\<exists>m. TAILQ_FOREACH_SAFE (\<lambda>m. m) 0 (\<lambda>a. TAILQ_REMOVE True 0 (Some a)) demo_tailq = Some m \<and> tailq m [0 \<mapsto> []]"
proof -
  have "stailq (stailq_start [0] []) (empty_lists [0])" by (rule stailq_start(1))
  from queue_emptied_by_iteration [OF demo_tailq _ this, of 0 _ 0 "[]" True] show ?thesis by auto
qed

section \<open>The checks\<close>

text \<open>
  C37: the checks of the doubly linked families are exact for the back pointers: if the next pointers
  and the tail pointers are right, the memory is a well-formed set of queues if and only if
  the check of every head and of every element passes; on a well-formed memory the remaining
  checks pass as well.
\<close>

theorem tailq_checks_exact:
  assumes "links (tq_get m) Q" and "tails (tq_last m) Q"
  shows "(tailq m Q \<longleftrightarrow>
      (\<forall>h xs. Q h = Some xs \<longrightarrow> QMD_TAILQ_CHECK_HEAD m h = Some True \<and>
        (\<forall>a \<in> set xs. QMD_TAILQ_CHECK_NEXT m (Some a) = Some True))) \<and>
    (tailq m Q \<longrightarrow>
      (\<forall>h xs. Q h = Some xs \<longrightarrow> QMD_TAILQ_CHECK_TAIL m h = Some True \<and>
        (\<forall>a \<in> set xs. QMD_TAILQ_CHECK_PREV m (Some a) = Some True)))"
proof -
  have "QMD_TAILQ_CHECK_TAIL m h = Some True \<and> (\<forall>a \<in> set xs. QMD_TAILQ_CHECK_PREV m (Some a) = Some True)"
    if "tailq m Q" "Q h = Some xs" for h xs
  proof -
    note r = tailq_read [OF that]
    have "QMD_TAILQ_CHECK_PREV m (Some a) = Some True" if a: "a \<in> set xs" for a
    proof -
      obtain us ws where "xs = us @ a # ws" using split_list [OF a] by blast
      then show ?thesis using r(5,6) by (simp add: QMD_TAILQ_CHECK_PREV_def)
    qed
    then show ?thesis using r by (simp add: QMD_TAILQ_CHECK_TAIL_def)
  qed
  then show ?thesis
    using assms tailq_checks_backed [OF linksD [OF assms(1)]] by (auto simp: tailq_def backs_def)
qed

theorem tailq_checks_exact_witness:
  "QMD_TAILQ_CHECK_NEXT demo_tailq (Some 11) = Some True \<and> QMD_TAILQ_CHECK_PREV demo_tailq (Some 11) = Some True"
proof -
  have h: "[0 \<mapsto> [10, 11, 12]] 0 = Some [10, 11, 12 :: addr]" and m: "11 \<in> set [10, 11, 12 :: addr]" by simp_all
  show ?thesis using tailq_checks_exact [OF demo_tailq_views] demo_tailq h m by blast
qed

section \<open>The debugging build\<close>

text \<open>
  C36: with \<open>QUEUE_MACRO_DEBUG\<close> every allowed tail queue operation runs as it does without, and
  leaves the same pointers, except that those of a removed element are \<open>(void *)-1\<close>; the queues
  are the same. The traces of a head or an element are shifted once for each time the
  operation traces it, and by no other operation. A removed element leads nowhere: the address
  that follows it is no element, and removing it once more fails, with or without the checks.
\<close>

theorem tailq_debug_exact:
  assumes "traced d" and "tailq (tqd_mem d) Q" and "tailq_offers op"
    and "spec_op (tq_head_set (tqd_mem d)) (tq_elem_set (tqd_mem d)) op Q = Some Q'"
  shows "\<exists>m d'. tailq_op K op (tqd_mem d) = Some m \<and> debug_tailq_op pl K op d = Some d' \<and>
    tqd_mem d' = op_trash op m \<and> traced d' \<and> tailq m Q' \<and> tailq (tqd_mem d') Q' \<and>
    (\<forall>h. tqd_heads d' h =
       map_option (trace_here pl ^^ count_list (op_traces Q op) (At_head h)) (tqd_heads d h)) \<and>
    (\<forall>a. tqd_elems d' a =
       map_option (trace_here pl ^^ count_list (op_traces Q op) (At_elem a)) (tqd_elems d a)) \<and>
    (\<forall>h a. op = Q_remove h a \<longrightarrow> TAILQ_NEXT (tqd_mem d') (Some a) = Some (Some trashed) \<and>
       TAILQ_NEXT (tqd_mem d') (Some trashed) = None \<and> debug_TAILQ_REMOVE pl' K' h (Some a) d' = None)"
proof -
  obtain d' where d': "debug_tailq_op pl K op d = Some d'" "traced d'" "tailq (tqd_mem d') Q'"
    using debug_op_ok [OF assms, of pl K] by blast
  obtain m where m: "tailq_op K op (tqd_mem d) = Some m" "tailq m Q'" "tq_elem_set m = tq_elem_set (tqd_mem d)"
    using tailq_op_ok [OF assms(2-4), of K] by (auto simp: tq_ok_def)
  have e: "d' = fold (touch pl) (op_traces Q op) (d\<lparr>tqd_mem := op_trash op m\<rparr>)"
    using debug_op_result [OF assms m(1), of pl] d'(1) by simp
  have "TAILQ_NEXT (tqd_mem d') (Some a) = Some (Some trashed) \<and> TAILQ_NEXT (tqd_mem d') (Some trashed) = None \<and>
      debug_TAILQ_REMOVE pl' K' h (Some a) d' = None" if "op = Q_remove h a" for h a
  proof -
    have "a \<in> tq_elem_set m"
      using that assms(4) m(3) linked_defined [OF tailq_read(5) [OF assms(2), of h]]
      by (auto simp: bind_eq_Some_conv tq_elem_set_def split: if_splits)
    with trashed_element [OF d'(2), of h a m] that e show ?thesis by simp
  qed
  with d' m e show ?thesis by (simp add: trace_counts)
qed

text \<open>The queue of three elements, all traced at one line; its first element is removed at another.\<close>

definition demo_debug :: tailq_debug where
  "demo_debug =
     \<lparr>tqd_mem = demo_tailq, tqd_heads = [0 \<mapsto> TRACEBUF_INITIALIZER (7, ''q.c'')],
      tqd_elems = (\<lambda>a. if a \<in> {10, 11, 12} then Some (TRACEBUF_INITIALIZER (8, ''q.c'')) else None)\<rparr>"

lemma demo_debug_traced: "traced demo_debug" "tq_head_set demo_tailq = {0}" "tq_elem_set demo_tailq = {10, 11, 12}"
  by (auto simp: traced_def demo_debug_def demo_tailq_def tq_head_set_def tq_elem_set_def tq_get.simps trashed_def
      split: if_splits)

theorem tailq_debug_exact_witness:
  "\<exists>d'. debug_tailq_op (9, ''r.c'') True (Q_remove 0 10) demo_debug = Some d' \<and>
    tailq (tqd_mem d') [0 \<mapsto> [11, 12]] \<and> TAILQ_NEXT (tqd_mem d') (Some 10) = Some (Some trashed) \<and>
    tqd_heads d' 0 = tqd_heads demo_debug 0 \<and>
    tqd_elems d' 10 = Some \<lparr>lastline = 9, prevline = 8, lastfile = Some ''r.c'', prevfile = Some ''q.c''\<rparr>"
proof -
  have "tailq (tqd_mem demo_debug) [0 \<mapsto> [10, 11, 12]]" using demo_tailq by (simp add: demo_debug_def)
  from tailq_debug_exact [OF demo_debug_traced(1) this, of "Q_remove 0 10" "[0 \<mapsto> [11, 12]]" True "(9, ''r.c'')"]
  obtain d' where "debug_tailq_op (9, ''r.c'') True (Q_remove 0 10) demo_debug = Some d'"
    "tailq (tqd_mem d') [0 \<mapsto> [11, 12]]" "TAILQ_NEXT (tqd_mem d') (Some 10) = Some (Some trashed)"
    "tqd_heads d' 0 = map_option id (tqd_heads demo_debug 0)"
    "tqd_elems d' 10 = map_option (trace_here (9, ''r.c'')) (tqd_elems demo_debug 10)"
    by fastforce
  then show ?thesis
    by (simp add: option.map_id demo_debug_def trace_here_def TRACEBUF_INITIALIZER_def)
qed

end
