(* ===== verification/Examples.thy ===== *)
theory Examples
  imports Prelude
begin

text \<open>
  The smaller programs of the repository: starting other programs
  (\<open>examples/systemcalls/systemcalls.c\<close>), a thread that waits for a mutex
  (\<open>examples/threading/threading.c\<close>), the file writer (\<open>finder-app/writer.c\<close>) and the check of the
  test set-up (\<open>examples/autotest-validate\<close>). The answers of the system calls are arguments.
\<close>

unbundle bit_operations_syntax

section \<open>Starting programs\<close>

definition do_system :: "(string \<Rightarrow> c_int) \<Rightarrow> string \<Rightarrow> bool" where
  "do_system system cmd = (let err = system cmd; ret = True in if err = - 1 then False else ret)"

text \<open>
  The array \<open>command\<close> of \<open>count + 1\<close> pointers, filled from the variable arguments; an argument that
  was not passed is undefined.
\<close>

fun fill_command :: "nat \<Rightarrow> nat \<Rightarrow> string list \<Rightarrow> string option list \<Rightarrow> string option list option" where
  "fill_command i 0 args command = Some command"
| "fill_command i (Suc n) [] command = None"
| "fill_command i (Suc n) (a # args) command = fill_command (Suc i) n args (command[i := Some a])"

definition make_command :: "nat \<Rightarrow> string list \<Rightarrow> string option list \<Rightarrow> string option list option" where
  "make_command count args junk =
     do { command \<leftarrow> fill_command 0 count args junk; Some (command[count := None]) }"

definition WIFEXITED :: "c_int \<Rightarrow> bool" where
  "WIFEXITED status \<longleftrightarrow> status AND 0x7f = 0"

definition WEXITSTATUS :: "c_int \<Rightarrow> c_int" where
  "WEXITSTATUS status = drop_bit 8 (status AND 0xff00)"

text \<open>
  What the calls answer: \<open>fork\<close>, \<open>waitpid\<close> and the status it stores, \<open>open\<close> and \<open>dup2\<close>. Of \<open>execv\<close>, whether it can
  execute the file of a given path; of \<open>execvp\<close>, which file it executes for a given name, if any: a name without
  a slash is searched in the directories of \<open>PATH\<close>.
\<close>

record exec_env =
  fork_pid :: c_int
  waitpid_ret :: c_int
  wait_status :: c_int
  execv_ok :: "string \<Rightarrow> bool"
  execvp_file :: "string \<Rightarrow> string option"
  open_fd :: c_int
  dup2_ret :: c_int

text \<open>
  The caller gets a result, or the child executes a file with an argument vector, exits or aborts. A null pointer for the
  name of the program, of a call without arguments, has no result in the child.
\<close>

datatype exec_outcome = Returns bool | Execs string "string option list" | Exits c_int | Aborts

definition do_exec :: "exec_env \<Rightarrow> nat \<Rightarrow> string list \<Rightarrow> string option list \<Rightarrow> exec_outcome option" where
  "do_exec E count args junk =
     do { command \<leftarrow> make_command count args junk;
          let pid = fork_pid E;
          if sint pid < 0 then Some (Returns False)
          else if pid = 0
          then do { name \<leftarrow> hd command;
                    Some (if execv_ok E name then Execs name command else Exits (- 1)) }
          else if waitpid_ret E = - 1 then Some (Returns False)
          else if \<not> WIFEXITED (wait_status E) \<or> WEXITSTATUS (wait_status E) \<noteq> 0 then Some (Returns False)
          else Some (Returns True) }"

text \<open>
  The second component tells whether the descriptor of the output file is still open when the
  process goes on.
\<close>

definition do_exec_redirect ::
    "exec_env \<Rightarrow> nat \<Rightarrow> string list \<Rightarrow> string option list \<Rightarrow> (exec_outcome \<times> bool) option" where
  "do_exec_redirect E count args junk =
     do { command \<leftarrow> make_command count args junk;
          if sint (open_fd E) < 0 then Some (Aborts, False)
          else let pid = fork_pid E in
            if sint pid < 0 then Some (Returns False, True)
            else if pid = 0
            then if sint (dup2_ret E) < 0 then Some (Aborts, True)
                 else do { name \<leftarrow> hd command;
                           Some (case execvp_file E name of Some file \<Rightarrow> Execs file command | None \<Rightarrow> Exits (- 1), False) }
            else if waitpid_ret E = - 1 then Some (Returns False, False)
            else if \<not> WIFEXITED (wait_status E) \<or> WEXITSTATUS (wait_status E) \<noteq> 0
            then Some (Returns False, False)
            else Some (Returns True, False) }"

lemma fill_command_prefix:
  "n \<le> length args \<Longrightarrow> i + n \<le> length command \<Longrightarrow>
   fill_command i n args command = Some (take i command @ map Some (take n args) @ drop (i + n) command)"
proof (induction i n args command rule: fill_command.induct)
  case (1 i args command)
  then show ?case by simp
next
  case (3 i n a args command)
  then have "take (Suc i) (command[i := Some a]) = take i command @ [Some a]"
    by (simp add: take_Suc_conv_app_nth)
  with 3 show ?case by simp
qed simp

lemma fill_command_short: "length args < n \<Longrightarrow> fill_command i n args command = None"
  by (induction i n args command rule: fill_command.induct) auto

lemma make_command_result:
  assumes "length junk = Suc count"
  shows "make_command count args junk =
    (if count \<le> length args then Some (map Some (take count args) @ [None]) else None)"
proof (cases "count \<le> length args")
  case True
  have "length (drop count junk) = Suc 0" using assms by simp
  then obtain x where x: "drop count junk = [x]" by (metis length_0_conv length_Suc_conv)
  have "fill_command 0 count args junk = Some (map Some (take count args) @ [x])"
    using fill_command_prefix [OF True, of 0 junk] assms x by simp
  with True show ?thesis by (simp add: make_command_def list_update_append)
next
  case False
  with fill_command_short [of args count 0 junk] show ?thesis by (simp add: make_command_def)
qed

text \<open>
  How a process ended, and the status that \<open>waitpid\<close> stores for it: the exit code in the second byte, or
  the signal in the lower seven bits with a bit that tells of a core dump.
\<close>

datatype ending = Exited nat | Killed nat bool

fun possible_ending :: "ending \<Rightarrow> bool" where
  "possible_ending (Exited c) \<longleftrightarrow> c < 256"
| "possible_ending (Killed sig core) \<longleftrightarrow> 0 < sig \<and> sig < 127"

fun status_of :: "ending \<Rightarrow> c_int" where
  "status_of (Exited c) = push_bit 8 (of_nat c)"
| "status_of (Killed sig core) = of_nat sig + (if core then 128 else 0)"

lemma exited_status:
  assumes "c < 256"
  shows "WIFEXITED (push_bit 8 (of_nat c))" and "WEXITSTATUS (push_bit 8 (of_nat c)) = of_nat c"
proof -
  have c: "take_bit 8 (of_nat c :: c_int) = of_nat c"
    using assms by (simp add: take_bit_of_nat flip: of_nat_take_bit) (simp add: take_bit_nat_eq_self)
  have m: "(0x7f :: c_int) = mask 7" by (simp add: mask_eq_exp_minus_1)
  show "WIFEXITED (push_bit 8 (of_nat c))"
    unfolding WIFEXITED_def m by (rule bit_word_eqI) (auto simp: bit_simps)
  have n: "(0xff00 :: c_int) = push_bit 8 (mask 8)" by (simp add: mask_eq_exp_minus_1)
  have "WEXITSTATUS (push_bit 8 (of_nat c)) = take_bit 8 (of_nat c :: c_int)"
    unfolding WEXITSTATUS_def n by (rule bit_word_eqI) (auto simp: bit_simps)
  with c show "WEXITSTATUS (push_bit 8 (of_nat c)) = of_nat c" by simp
qed

lemma killed_status:
  assumes "0 < sig" and "sig < 127"
  shows "\<not> WIFEXITED (of_nat sig + (if core then 128 else 0))"
proof -
  have m: "(0x7f :: c_int) = mask 7" by (simp add: mask_eq_exp_minus_1)
  let ?n = "sig + (if core then 128 else 0)"
  have "take_bit 7 ?n = sig" using assms by (simp add: take_bit_eq_mod)
  then have "(of_nat ?n :: c_int) AND mask 7 = of_nat sig"
    by (simp only: take_bit_eq_mask [symmetric] take_bit_of_nat)
  moreover have "unat (of_nat sig :: c_int) = sig" using assms by (simp add: unat_of_nat_small)
  then have "(of_nat sig :: c_int) \<noteq> 0" using assms(1) by (metis less_irrefl unsigned_0)
  moreover have "(of_nat sig + (if core then 128 else 0) :: c_int) = of_nat ?n" by simp
  ultimately show ?thesis by (simp only: WIFEXITED_def m not_False_eq_True)
qed

lemma status_success:
  assumes "possible_ending e"
  shows "WIFEXITED (status_of e) \<and> WEXITSTATUS (status_of e) = 0 \<longleftrightarrow> e = Exited 0"
proof (cases e)
  case (Exited c)
  then have c: "c < 256" using assms by simp
  have "unat (WEXITSTATUS (push_bit 8 (of_nat c))) = c"
    using c by (simp add: exited_status(2) unat_of_nat_small)
  then have "WEXITSTATUS (push_bit 8 (of_nat c)) = 0 \<longleftrightarrow> c = 0" by (metis unat_eq_zero)
  with Exited exited_status(1) [OF c] show ?thesis by simp
next
  case (Killed sig core)
  with assms killed_status [of sig core] show ?thesis by simp
qed

section \<open>A thread that waits for a mutex\<close>

record thread_data =
  td_mutex :: addr
  wait_to_obtain_ms :: c_int
  wait_to_release_ms :: c_int
  td_complete_success :: bool

datatype thread_event = Sleep "uint32_t" | Lock addr | Unlock addr

text \<open>A signed product that does not fit is undefined.\<close>

definition times_1000 :: "c_int \<Rightarrow> uint32_t option" where
  "times_1000 ms =
     (let v = sint ms * 1000 in
      if - (2 ^ 31) \<le> v \<and> v < 2 ^ 31 then Some (word_of_int v) else None)"

text \<open>The results of locking and unlocking are logged when they are errors, and not used.\<close>

definition threadfunc :: "c_int \<Rightarrow> c_int \<Rightarrow> thread_data \<Rightarrow> (thread_data \<times> thread_event list) option" where
  "threadfunc lock_ret unlock_ret tData =
     do { t1 \<leftarrow> times_1000 (wait_to_obtain_ms tData);
          t2 \<leftarrow> times_1000 (wait_to_release_ms tData);
          Some (tData\<lparr>td_complete_success := True\<rparr>,
                [Sleep t1, Lock (td_mutex tData), Sleep t2, Unlock (td_mutex tData)]) }"

text \<open>
  The result, the argument of the new thread if one was started, and the block of arguments that is
  lost when the start fails.
\<close>

definition start_thread_obtaining_mutex ::
    "ptr \<Rightarrow> c_int \<Rightarrow> addr \<Rightarrow> c_int \<Rightarrow> c_int \<Rightarrow> bool \<times> thread_data option \<times> ptr" where
  "start_thread_obtaining_mutex malloc_ret create_ret m obtain_ms release_ms =
     (case malloc_ret of
        None \<Rightarrow> (False, None, NULL)
      | Some a \<Rightarrow>
          (let tData = \<lparr>td_mutex = m, wait_to_obtain_ms = obtain_ms, wait_to_release_ms = release_ms,
                        td_complete_success = False\<rparr> in
           if create_ret \<noteq> 0 then (False, None, Some a) else (True, Some tData, NULL)))"

lemma times_1000_small:
  assumes "0 \<le> sint ms" and "sint ms \<le> 2147483"
  shows "times_1000 ms = Some (of_nat (1000 * nat (sint ms)))"
proof -
  obtain k where k: "sint ms = int k" using assms(1) nonneg_int_cases by blast
  have "int k * 1000 = int (1000 * k)" by simp
  then have "word_of_int (int k * 1000) = (of_nat (1000 * k) :: uint32_t)" by (simp only: of_int_of_nat_eq)
  with assms k show ?thesis by (simp add: times_1000_def Let_def del: of_nat_mult)
qed

lemma times_1000_large: "2147483 < sint ms \<Longrightarrow> times_1000 ms = None"
  by (simp add: times_1000_def Let_def)

section \<open>Writing a file\<close>

text \<open>
  A file system maps paths to contents. The file is created when it is not there and not truncated
  when it is; the bytes go to its start.
\<close>

definition open_creat :: "bool \<Rightarrow> string \<Rightarrow> (string \<rightharpoonup> byte list) \<Rightarrow> (string \<rightharpoonup> byte list)" where
  "open_creat ok path fs = (if ok \<and> fs path = None then fs(path \<mapsto> []) else fs)"

text \<open>\<open>opened\<close> and \<open>written\<close> are the answers of \<open>open\<close> and \<open>write\<close>, \<open>written\<close> the number of bytes.\<close>

definition writer_main ::
    "bool \<Rightarrow> nat option \<Rightarrow> string list \<Rightarrow> (string \<rightharpoonup> byte list) \<Rightarrow> c_int \<times> (string \<rightharpoonup> byte list)" where
  "writer_main open_ok written argv fs =
     (if length argv \<noteq> 3 then (1, fs)
      else let write_file = argv ! 1;
               write_str = map (of_nat \<circ> of_char) (argv ! 2);
               fs = open_creat open_ok write_file fs in
        case (open_ok, written) of
          (True, Some n) \<Rightarrow>
            (0, fs(write_file \<mapsto> take n write_str @
                    drop (length (take n write_str)) (case fs write_file of None \<Rightarrow> [] | Some bs \<Rightarrow> bs)))
        | _ \<Rightarrow> (1, fs))"

section \<open>The check of the test set-up\<close>

definition this_function_returns_true :: bool where
  "this_function_returns_true = True"

definition this_function_returns_false :: bool where
  "this_function_returns_false = False"

definition my_username :: string where
  "my_username = ''Brett20093''"

text \<open>What \<open>autotest-validate-main.c\<close> prints, line by line.\<close>

definition validate_main :: "string list" where
  "validate_main =
     [''this_function_returns_true returned '' @ (if this_function_returns_true then ''true'' else ''false''),
      ''this_function_returns_false returned '' @ (if this_function_returns_false then ''true'' else ''false'')]"

end
