(* ===== verification/Example_Properties.thy ===== *)
theory Example_Properties
  imports Examples
begin

text \<open>The properties of the smaller programs, with an instance of each that has hypotheses.\<close>

text \<open>A parent whose child has ended as given, on a system where \<open>true\<close> is found in \<open>/bin\<close>.\<close>

definition demo_exec :: "ending \<Rightarrow> exec_env" where
  "demo_exec e =
     \<lparr>fork_pid = 42, waitpid_ret = 42, wait_status = status_of e, execv_ok = (\<lambda>p. p = ''/bin/true''),
      execvp_file = [''/bin/true'' \<mapsto> ''/bin/true'', ''true'' \<mapsto> ''/bin/true''], open_fd = 3, dup2_ret = 1\<rparr>"

text \<open>
  C38: \<open>do_exec\<close> and \<open>do_exec_redirect\<close>, called with one argument or more. The caller of \<open>do_exec\<close> gets true if and only
  if \<open>fork\<close> succeeds, \<open>waitpid\<close> succeeds and the child exited with status 0: not if \<open>fork\<close> or
  \<open>waitpid\<close> fails, the child exits with another status or a signal kills it, with a core dump or without. The child
  executes the file that the first argument names, with exactly the passed arguments and a terminating null pointer,
  or exits with -1 if it cannot. With the output file open, the caller of
  \<open>do_exec_redirect\<close> gets true in the same cases, and the file stays open in it only if \<open>fork\<close>
  fails; its child, when \<open>dup2\<close> succeeds, executes the file that the search of
  \<open>execvp\<close> gives for the first argument with the same argument vector, or exits with -1.
\<close>

theorem do_exec_result:
  assumes "length junk = Suc count" and "count \<le> length args" and "0 < count"
    and "possible_ending e" and "wait_status E = status_of e"
    and "argv = map Some (take count args) @ [None]"
    and "good \<longleftrightarrow> 0 < sint (fork_pid E) \<and> waitpid_ret E \<noteq> - 1 \<and> e = Exited 0"
  shows "(fork_pid E \<noteq> 0 \<longrightarrow> do_exec E count args junk = Some (Returns good)) \<and>
    (fork_pid E = 0 \<longrightarrow>
      do_exec E count args junk = Some (if execv_ok E (args ! 0) then Execs (args ! 0) argv else Exits (- 1))) \<and>
    (0 \<le> sint (open_fd E) \<and> fork_pid E \<noteq> 0 \<longrightarrow>
      do_exec_redirect E count args junk = Some (Returns good, sint (fork_pid E) < 0)) \<and>
    (0 \<le> sint (open_fd E) \<and> fork_pid E = 0 \<and> 0 \<le> sint (dup2_ret E) \<longrightarrow>
      do_exec_redirect E count args junk =
        Some (case execvp_file E (args ! 0) of Some file \<Rightarrow> Execs file argv | None \<Rightarrow> Exits (- 1), False))"
proof -
  have cmd: "make_command count args junk = Some argv"
    using make_command_result [OF assms(1), of args] assms(2,6) by simp
  have name: "hd argv = Some (args ! 0)"
    using assms(2,3,6) by (cases args; cases count) simp_all
  have st: "(\<not> WIFEXITED (wait_status E) \<or> WEXITSTATUS (wait_status E) \<noteq> 0) \<longleftrightarrow> e \<noteq> Exited 0"
    using status_success [OF assms(4)] assms(5) by auto
  have fork: "sint (fork_pid E) < 0 \<or> 0 < sint (fork_pid E)" if "fork_pid E \<noteq> 0"
    using that signed_word_eqI [of "fork_pid E" 0] by (metis linorder_neqE signed_0)
  then show ?thesis
    using st assms(7) by (auto simp: do_exec_def do_exec_redirect_def cmd name Let_def)
qed

text \<open>A success, a program killed by signal 9, and a name without a slash, which only the search finds.\<close>

theorem do_exec_result_witness:
  "do_exec (demo_exec (Exited 0)) 1 [''/bin/true''] [None, None] = Some (Returns True) \<and>
   do_exec (demo_exec (Killed 9 False)) 1 [''/bin/true''] [None, None] = Some (Returns False) \<and>
   do_exec ((demo_exec (Exited 0))\<lparr>fork_pid := 0\<rparr>) 1 [''true''] [None, None] = Some (Exits (- 1)) \<and>
   do_exec_redirect ((demo_exec (Exited 0))\<lparr>fork_pid := 0\<rparr>) 1 [''true''] [None, None] =
     Some (Execs ''/bin/true'' [Some ''true'', None], False)"
  using do_exec_result [OF _ _ _ _ _ refl refl, of "[None, None]" 1 "[''/bin/true'']" "Exited 0" "demo_exec (Exited 0)"]
    do_exec_result [OF _ _ _ _ _ refl refl, of "[None, None]" 1 "[''/bin/true'']" "Killed 9 False" "demo_exec (Killed 9 False)"]
    do_exec_result [OF _ _ _ _ _ refl refl, of "[None, None]" 1 "[''true'']" "Exited 0" "(demo_exec (Exited 0))\<lparr>fork_pid := 0\<rparr>"]
  by (simp add: demo_exec_def)

text \<open>
  C40: the writer, when all bytes are written: the file starts with the string, what an older and
  longer file held beyond it stays, so the file holds exactly the string if and only if the old
  contents were not longer; no other file is changed.
\<close>

theorem writer_keeps_tail:
  assumes "writer_main True (Some (length str)) [prog, path, str] fs = (rc, fs')"
    and "old = (case fs path of None \<Rightarrow> [] | Some bs \<Rightarrow> bs)"
  shows "rc = 0 \<and> fs' path = Some (map (of_nat \<circ> of_char) str @ drop (length str) old) \<and>
    (fs' path = Some (map (of_nat \<circ> of_char) str) \<longleftrightarrow> length old \<le> length str) \<and>
    (\<forall>p. p \<noteq> path \<longrightarrow> fs' p = fs p)"
  using assms by (auto simp: writer_main_def Let_def open_creat_def split: option.splits if_splits)

theorem writer_keeps_tail_witness:
  "snd (writer_main True (Some 1) [''writer'', ''f'', ''a''] [''f'' \<mapsto> [98, 98]]) ''f'' = Some [97, 98]"
  using writer_keeps_tail [of "''a''" "''writer''" "''f''" "[''f'' \<mapsto> [98, 98]]"
      "fst (writer_main True (Some (length ''a'')) [''writer'', ''f'', ''a''] [''f'' \<mapsto> [98, 98]])"
      "snd (writer_main True (Some (length ''a'')) [''writer'', ''f'', ''a''] [''f'' \<mapsto> [98, 98]])" "[98, 98]"]
  by simp

end
