(* ===== verification/Spec2Isabelle.thy ===== *)
theory Spec2Isabelle
  imports Server_Sequence System_Properties Queue_Properties Example_Properties
begin

text \<open>
  \<^bold>\<open>The AESD character device, its socket server and the programs around them.\<close>

  The program has two halves. A kernel module (\<open>aesd-char-driver/\<close>) provides the device
  \<open>/dev/aesdchar\<close>: writes collect bytes until a newline ends a command, the last ten commands are
  kept in a circular buffer, reads deliver them as one stream, and \<open>llseek\<close> and an \<open>ioctl\<close> move
  the position in the stream. A server (\<open>server/\<close>) accepts TCP connections on port 9000 and starts a
  thread for each; the thread takes a mutex, opens the device, receives a message, writes it to
  the device or, when it looks like a seek command, moves the position, sends the
  contents of the device from the position on to the client, and closes everything. The
  main thread keeps the connection threads in a linked list (\<open>server/queue.h\<close>), joins the finished
  ones and shuts down on a signal. Beside them stand four small exercises (\<open>examples/\<close>,
  \<open>finder-app/writer.c\<close>).

  \<^bold>\<open>Conventions.\<close> Machine integers are words of their width; a signed comparison is written with
  \<open>sint\<close>. Memory is a map from block addresses to contents, a pointer is \<open>None\<close> (\<open>NULL\<close>) or an
  address. A function of the model whose code can go wrong in memory returns an option, and \<open>None\<close>
  is undefined behaviour (an access outside a block, a null or dangling pointer, a double
  free, an unlock of a free mutex, a signed overflow) or a call that never returns. Error codes are
  ordinary results. Code that is not part of the repository (the kernel's services, the system calls,
  the C library's threads) is an argument of the definitions; what is assumed of it are named
  predicates (\<open>kernel_ok\<close>, \<open>kernel_up\<close>, \<open>has_memory\<close>), which the concrete kernel of
  \<open>Demo_Kernel\<close> satisfies. The functions of the C library on strings are modelled
  byte by byte (\<open>C_String\<close>).

  \<^bold>\<open>Shared theories.\<close>
  \<^item> \<open>Prelude\<close>: integer types, the heap, generic lemmas on lists, options and words.
  \<^item> \<open>Log_Interface\<close>: the locales \<open>bounded_log\<close> and \<open>searchable_log\<close>, the contract of a buffer that
    keeps the last entries and finds a byte position in them.
  \<^item> \<open>Transition_System\<close>: the locales \<open>invariant_system\<close> and \<open>simulation\<close>, reachable states of a step
    relation, \<open>recorded_system\<close>, runs with a record of what went in, which determines what the state
    holds, and \<open>progress_system\<close>, infinite runs that reach a goal.

  \<^bold>\<open>The driver.\<close>
  \<^item> \<open>Circular_Buffer\<close> (\<open>aesd-circular-buffer.c\<close>, \<open>.h\<close>): the ten slots with \<open>in_offs\<close>, \<open>out_offs\<close> and
    \<open>full\<close>; insertion, the search by position with its wrapping offset, the iteration macro. The
    interpretation \<open>cb\<close> shows that it is a \<open>searchable_log\<close>.
  \<^item> \<open>Aesd_Char\<close> (\<open>main.c\<close>, \<open>aesdchar.h\<close>, \<open>aesd_ioctl.h\<close>): every file operation and the
    initialisation and removal of the module, on a state with the device, the heap and the
    registrations. Each operation takes the device's mutex for its whole body.
  \<^item> \<open>Driver_Spec\<close>, \<open>Driver_Write\<close>, \<open>Driver_Read\<close>: the abstract device \<open>alog\<close> (the last ten lines and the
    bytes pending), the abstraction \<open>dev_abs\<close> and the invariant \<open>dev_inv\<close> with exact ownership of the
    allocated blocks; each handler's result on each of its paths.
  \<^item> \<open>Driver_Module\<close>: the step relation \<open>drv_step\<close> of all operations on all open files, and the
    interpretation \<open>drv\<close> of \<open>simulation\<close>: invariant and refinement of the abstract log.
  \<^item> \<open>Driver_History\<close>: the record of the writes that went through (\<open>drv_act\<close>) and the interpretation \<open>hist\<close> of
    \<open>recorded_system\<close>: the log that the device holds is the effect of exactly these writes.
  \<^item> \<open>Demo_Kernel\<close>, \<open>Driver_Properties\<close>: a concrete kernel and device, and the properties.

  \<^bold>\<open>The server.\<close>
  \<^item> \<open>C_String\<close>, \<open>Connection_Thread\<close> (\<open>connection_thread.c\<close>, \<open>.h\<close>): all functions of the connection
    thread, over a record \<open>env\<close> of system calls on a state of the world.
  \<^item> \<open>Seek_Command\<close>: a reference for \<open>check_for_ioctl_command\<close> and when its number buffers suffice.
  \<^item> \<open>Connection_Contract\<close>, \<open>Connection_Stream\<close>: the locales \<open>resource_env\<close> (what the thread releases) and
    \<open>stream_device\<close> (that sending ends, and what gets through when sends take all, a part or nothing).
  \<^item> \<open>Session\<close>, \<open>Session_Refinement\<close>: the world in which the device calls are the driver's handlers, called
    as the kernel calls them, and the socket delivers chunks; both contracts interpreted on it
    (\<open>ses\<close>, \<open>str\<close>); the thread refines \<open>spec_connection\<close>, for whatever arrives on the socket and whatever
    the socket takes.
  \<^item> \<open>Thread_Steps\<close>: the connection thread once more, as a machine that makes one system call per step
    (\<open>thread_step\<close>); \<open>thread_machine\<close> shows that it returns what the function returns.
  \<^item> \<open>Slist\<close>, \<open>Slist_Loops\<close> (the \<open>SLIST\<close> macros of \<open>queue.h\<close>): nodes in a heap refine lists; locale
    \<open>head_list\<close>, interpretation \<open>sl\<close>.
  \<^item> \<open>Aesdsocket\<close> (\<open>aesdsocket.c\<close>): \<open>run_server\<close> as the step relation \<open>main_step\<close> of the main thread and
    signals, with the ends of connection threads \<open>srv_step\<close>. A step is an iteration of a loop; an
    iteration of the final loop is two, since the thread whose socket it closes may go on before it is
    joined. \<open>main\<close>.
  \<^item> \<open>Server_Entries\<close>, \<open>Server_Sockets\<close>, \<open>Server_Invariant\<close>: ownership of nodes, arguments, identifiers,
    threads and sockets in every reachable state (interpretation \<open>srv\<close> of \<open>invariant_system\<close>)
    and progress of the loops. A socket belongs to the thread that serves it, or is abandoned by one that
    could not open the device.
  \<^item> \<open>Server_Liveness\<close>: the order in which every step of a stopping server goes down, and the
    interpretation \<open>shut\<close> of \<open>progress_system\<close>.
  \<^item> \<open>Server_Properties\<close>, \<open>Socket_Properties\<close>: the properties, at concrete connections and runs.
  \<^item> \<open>Server_Sequence\<close>: many connections, one after the other, on one driver; the property about them is at
    the end of this theory.
  \<^item> \<open>System\<close>, \<open>System_Invariant\<close>: the step relation \<open>sys_step\<close> of the main thread, the signals and the
    connection threads on the driver, one system call per step in any order, and the interpretations \<open>sys_srv\<close> and \<open>sys_dev\<close> of
    \<open>simulation\<close>: a run of the system is a run of the server and a run of the driver. The mutex
    and the files of the device belong to one thread at a time.
  \<^item> \<open>Thread_View\<close>, \<open>System_Serial\<close>, \<open>System_Progress\<close>: what a thread that holds the mutex sees is not changed
    by the others, so the interleaved threads serve as if one came after the other, and the
    holder of the mutex can always go on.
  \<^item> \<open>System_Safety\<close>: which steps of a thread have no result, in every state that the system can reach
    (interpretation \<open>safe\<close> of \<open>invariant_system\<close>).
  \<^item> \<open>System_Properties\<close>: the properties of the whole, at a concrete run.

  \<^bold>\<open>The queue library.\<close> The families of \<open>queue.h\<close> that come with the list the server uses.
  \<^item> \<open>Queue_Links\<close>: links (the fields that a \<open>struct type **\<close> points to) and what linking in, linking out,
    appending and exchanging do to the lists behind them; the loops over the elements.
  \<^item> \<open>Queue_Interface\<close>: operations on lists of elements, one list per head, and the locales
    \<open>queue_family\<close> and \<open>reversible_family\<close> for the families that implement them.
  \<^item> \<open>Stailq\<close>, \<open>Queue_List\<close>, \<open>Tailq\<close> (the \<open>STAILQ\<close>, \<open>LIST\<close> and \<open>TAILQ\<close> macros): the heads and entries with
    the fields of the code, every macro, its effect on the lists, and the
    interpretations \<open>stq\<close>, \<open>lst\<close> and \<open>tlq\<close>. The checks that a kernel built with \<open>INVARIANTS\<close>
    makes are a parameter.
  \<^item> \<open>Queue_Debug\<close> (the macros with \<open>QUEUE_MACRO_DEBUG\<close>): traces of the places where heads and elements were
    altered, pointers of removed elements that are overwritten; each operation is the one of the
    other build and this, interpretation \<open>tqd\<close>.
  \<^item> \<open>Queue_Properties\<close>: what a client sees of the queues.

  \<^bold>\<open>The small programs.\<close> \<open>Examples\<close> (\<open>systemcalls.c\<close>, \<open>threading.c\<close>, \<open>writer.c\<close>,
  \<open>autotest-validate.c\<close>) and \<open>Example_Properties\<close>. Of the calls that start programs, \<open>execv\<close> takes a path and
  \<open>execvp\<close> searches for a name; the threads of \<open>threading.c\<close> are sequences of events without a property of their own.

  \<^bold>\<open>Loops.\<close> Loops without a bound in the code (the search in the buffer, receiving, sending, the
  searches and iterations of the list) are \<open>partial_function\<close>s, in which not ending is \<open>None\<close>; that
  they return is part of the theorems about them. No definition uses fuel. The size limits in the
  theorems are those of the system: \<open>KMALLOC_MAX_SIZE\<close> for a block, \<open>MAX_RW_COUNT\<close> for one
  call, so that the whole contents stay below 40 MiB and no position overflows.

  \<^bold>\<open>What is not modelled.\<close> Log output, the textual client address and the address structure of the
  listening socket; the memory model of the processor (an operation of the driver is
  atomic, which its mutex justifies, and so are an iteration of a loop of the main thread and the
  part of a connection thread from one system call to the next; they share only the flags of the
  arguments); cancellation of a blocked \<open>recv\<close>, and the signal that a send to a closed connection may
  raise; scripts, build files and tests. The threads are served as if one came after the
  other only until the server shuts down: its final loop closes descriptors that threads still
  use, and from then on the runs are covered by \<open>system_runs\<close> and \<open>system_no_undefined_behaviour\<close>.
\<close>

section \<open>Server and driver together\<close>

text \<open>
  C1: clients that connect one after the other and send a line each, over the whole way from the
  socket through the connection thread and the handlers of the driver to the circular buffer and
  back. Every connection is served; the device ends up with the last ten of its old lines followed
  by the new ones; and each client has received exactly the last ten lines up to and including its
  own.
\<close>

theorem connections_in_sequence:
  assumes "up B BUFFER_SIZE w" and "length rb = BUFFER_SIZE" and "length sb = BUFFER_SIZE"
    and "\<forall>(args, msg) \<in> set cs. plain_line msg \<and> client_fd args \<noteq> open_rc w"
    and "dev_abs (ks (machine w)) = \<lparr>lines = old, pending = []\<rparr>" and "new = map snd cs"
  shows "\<exists>replies w'. serve_all rb sb (map (\<lambda>(args, msg). (args, [Chunk msg], [])) cs) w = Some (replies, w') \<and>
    length replies = length new \<and>
    (\<forall>k < length new. replies ! k = concat (keep_last 10 (old @ take (Suc k) new))) \<and>
    dev_abs (ks (machine w')) = \<lparr>lines = keep_last 10 (old @ new), pending = []\<rparr> \<and>
    dev_inv B (ks (machine w')) \<and> \<not> mutex_held w'"
proof -
  let ?cs = "map (\<lambda>(args, msg). (args, [Chunk msg], [])) cs"
  have vs: "map snd ?cs = map (\<lambda>msg. ([Chunk msg], [])) new" using assms(6) by auto
  have plain: "\<forall>msg \<in> set new. plain_line msg" using assms(4,6) by auto
  have "length old \<le> 10" using length_lines [of "ks (machine w)"] assms(5) by (simp add: cb_count_le)
  then have spec: "spec_all (map snd ?cs) (dev_abs (ks (machine w))) =
      Some (map (\<lambda>k. concat (keep_last 10 (old @ take (Suc k) new))) [0..<length new],
        \<lparr>lines = keep_last 10 (old @ new), pending = []\<rparr>)"
    unfolding vs assms(5) using spec_all_lines [OF plain] by simp
  have "fits BUFFER_SIZE (map snd ?cs) (dev_abs (ks (machine w)))"
    unfolding vs assms(5) by (rule fits_lines [OF plain]) simp
  moreover have "\<forall>(args, v) \<in> set ?cs. client_fd args \<noteq> open_rc w" using assms(4) by auto
  ultimately obtain w' where "serve_all rb sb ?cs w =
      Some (map (\<lambda>k. concat (keep_last 10 (old @ take (Suc k) new))) [0..<length new], w')" "up B BUFFER_SIZE w'"
    "dev_abs (ks (machine w')) = \<lparr>lines = keep_last 10 (old @ new), pending = []\<rparr>"
    using serve_all_exact [OF assms(1-3), of ?cs] unfolding spec by auto
  then show ?thesis by (auto simp: up_def session_ready_def)
qed

theorem connections_in_sequence_witness:
  "\<exists>replies w'. serve_all demo_buffer demo_buffer
      [(demo_args, [Chunk [97, 10]], []), (demo_args, [Chunk [98, 10]], [])] (demo_session []) = Some (replies, w') \<and>
    replies ! 0 = demo_line @ [97, 10] \<and> replies ! 1 = demo_line @ [97, 10, 98, 10]"
proof -
  let ?cs = "[(demo_args, [97, 10]), (demo_args, [98, 10])]"
  have k: "keep_last 10 [demo_line, [97, 10]] = [demo_line, [97, 10]]"
    "keep_last 10 [demo_line, [97, 10], [98, 10]] = [demo_line, [97, 10], [98, 10]]" by simp_all
  have "\<exists>replies w'. serve_all demo_buffer demo_buffer (map (\<lambda>(args, msg). (args, [Chunk msg], [])) ?cs) (demo_session []) =
      Some (replies, w') \<and> length replies = length [[97, 10], [98, 10 :: byte]] \<and>
    (\<forall>k < length [[97, 10], [98, 10 :: byte]]. replies ! k = concat (keep_last 10 ([demo_line] @ take (Suc k) [[97, 10], [98, 10]]))) \<and>
    dev_abs (ks (machine w')) = \<lparr>lines = keep_last 10 ([demo_line] @ [[97, 10], [98, 10]]), pending = []\<rparr> \<and>
    dev_inv {} (ks (machine w')) \<and> \<not> mutex_held w'"
    by (rule connections_in_sequence [OF demo_up])
      (simp_all add: plain_line_def BUFFER_SIZE_def demo_args_def demo_state_abs)
  then show ?thesis by (auto simp: k less_Suc_eq numeral_2_eq_2)
qed

end
